(* ===== verification/Zeph_Prelude.thy ===== *)
theory Zeph_Prelude
  imports Main "HOL-Library.Word" "HOL-Library.Product_Lexorder" "HOL-Library.Multiset"
begin

text \<open>
  Shared vocabulary of the development. Rust's machine integers are words of the same
  width (\<open>u8\<close>, \<open>u16\<close>, \<open>u32\<close>, \<open>u64\<close>, \<open>u128\<close>); a \<open>[u8; 32]\<close> (a node id, an account, a
  content id) is a 256-bit word read big-endian, so that the word order is the
  lexicographic byte order Rust derives for the array. The saturating and checked
  operations of the standard library are defined once here, with their meaning on
  natural numbers collected in \<open>u_simps\<close>. The workspace is built with
  \<open>overflow-checks = true\<close> (\<open>src/Cargo.toml\<close>), so a plain \<open>+\<close> or \<open>*\<close> that overflows
  panics: the components use the checked operations for it and return \<open>None\<close>.
\<close>

unbundle bit_operations_syntax

section \<open>Machine integers\<close>

type_synonym u8 = "8 word"
type_synonym u16 = "16 word"
type_synonym u32 = "32 word"
type_synonym u64 = "64 word"
type_synonym u128 = "128 word"
type_synonym bytes32 = "256 word"
type_synonym bytes = "u8 list"

named_theorems u_simps
  \<open>saturating, checked and converting word operations read as natural numbers\<close>

definition sat_add :: "'a::len word \<Rightarrow> 'a word \<Rightarrow> 'a word" where
  "sat_add a b = (if unat a + unat b < 2 ^ LENGTH('a) then a + b else - 1)"

definition sat_sub :: "'a::len word \<Rightarrow> 'a word \<Rightarrow> 'a word" where
  "sat_sub a b = (if b \<le> a then a - b else 0)"

definition sat_mul :: "'a::len word \<Rightarrow> 'a word \<Rightarrow> 'a word" where
  "sat_mul a b = (if unat a * unat b < 2 ^ LENGTH('a) then a * b else - 1)"

definition checked_add :: "'a::len word \<Rightarrow> 'a word \<Rightarrow> 'a word option" where
  "checked_add a b = (if unat a + unat b < 2 ^ LENGTH('a) then Some (a + b) else None)"

definition checked_sub :: "'a::len word \<Rightarrow> 'a word \<Rightarrow> 'a word option" where
  "checked_sub a b = (if b \<le> a then Some (a - b) else None)"

definition checked_mul :: "'a::len word \<Rightarrow> 'a word \<Rightarrow> 'a word option" where
  "checked_mul a b = (if unat a * unat b < 2 ^ LENGTH('a) then Some (a * b) else None)"

lemma unat_lt: "unat (a :: 'a::len word) < 2 ^ LENGTH('a)"
  by (rule unsigned_less)

lemma unat_le_max: "unat (a :: 'a::len word) \<le> 2 ^ LENGTH('a) - 1"
  using unat_lt [of a] by linarith

lemma unat_max_word: "unat (- 1 :: 'a::len word) = 2 ^ LENGTH('a) - 1"
  by (simp add: unsigned_minus_1_eq_mask mask_eq_exp_minus_1)

lemma unat_sat_add [u_simps]:
  "unat (sat_add a b) = min (unat a + unat b) (2 ^ LENGTH('a) - 1)" for a b :: "'a::len word"
  by (auto simp: sat_add_def unat_word_ariths min_def unat_max_word)

lemma unat_sat_sub [u_simps]: "unat (sat_sub a b) = unat a - unat b"
  by (simp add: sat_sub_def word_le_nat_alt unat_sub)

lemma unat_sat_mul [u_simps]:
  "unat (sat_mul a b) = min (unat a * unat b) (2 ^ LENGTH('a) - 1)" for a b :: "'a::len word"
proof (cases "unat a * unat b < 2 ^ LENGTH('a)")
  case True
  then show ?thesis by (simp add: sat_mul_def unat_word_ariths)
next
  case False
  then have "2 ^ LENGTH('a) - 1 \<le> unat a * unat b" by linarith
  with False show ?thesis by (simp add: sat_mul_def unat_max_word min_absorb2)
qed

lemma checked_add_Some_iff [u_simps]:
  "checked_add a b = Some c \<longleftrightarrow> unat c = unat a + unat b" for a b c :: "'a::len word"
  using unat_lt [of c]
  by (auto simp: checked_add_def unat_word_ariths word_unat_eq_iff simp del: unsigned_less)

lemma checked_sub_Some_iff [u_simps]:
  "checked_sub a b = Some c \<longleftrightarrow> unat a = unat c + unat b"
  by (auto simp: checked_sub_def word_le_nat_alt unat_sub word_unat_eq_iff)

lemma checked_mul_Some_iff [u_simps]:
  "checked_mul a b = Some c \<longleftrightarrow> unat c = unat a * unat b" for a b c :: "'a::len word"
  using unat_lt [of c]
  by (auto simp: checked_mul_def unat_word_ariths word_unat_eq_iff simp del: unsigned_less)

lemma checked_add_None_iff [u_simps]:
  "checked_add a b = None \<longleftrightarrow> 2 ^ LENGTH('a) \<le> unat a + unat b" for a b :: "'a::len word"
  by (auto simp: checked_add_def)

lemma checked_sub_None_iff [u_simps]: "checked_sub a b = None \<longleftrightarrow> unat a < unat b"
  by (auto simp: checked_sub_def word_le_nat_alt)

lemma checked_mul_None_iff [u_simps]:
  "checked_mul a b = None \<longleftrightarrow> 2 ^ LENGTH('a) \<le> unat a * unat b" for a b :: "'a::len word"
  by (auto simp: checked_mul_def)

lemma checked_add_eq: "unat a + unat b < 2 ^ LENGTH('a) \<Longrightarrow> checked_add a b = Some (a + b)"
  for a b :: "'a::len word"
  by (simp add: checked_add_def)

lemma unat_ucast_up [u_simps]:
  "LENGTH('a) \<le> LENGTH('b) \<Longrightarrow> unat (ucast x :: 'b::len word) = unat x" for x :: "'a::len word"
proof -
  assume "LENGTH('a) \<le> LENGTH('b)"
  then have "(2 :: nat) ^ LENGTH('a) \<le> 2 ^ LENGTH('b)" by (rule power_increasing) simp
  with unat_lt [of x] have "unat x < 2 ^ LENGTH('b)" by (rule less_le_trans)
  then show ?thesis by (simp add: unsigned_ucast_eq take_bit_nat_eq_self)
qed

lemma unat_of_nat_less: "n < 2 ^ LENGTH('a) \<Longrightarrow> unat (of_nat n :: 'a::len word) = n"
  by (simp add: unsigned_of_nat take_bit_nat_eq_self)

lemma unat_ucast_down:
  "unat x < 2 ^ LENGTH('b) \<Longrightarrow> unat (ucast x :: 'b::len word) = unat x" for x :: "'a::len word"
  by (simp add: unsigned_ucast_eq take_bit_nat_eq_self)

text \<open>\<open>iter().sum()\<close> of \<open>u64\<close>s panics on overflow.\<close>

fun checked_sum :: "'a::len word list \<Rightarrow> 'a word \<Rightarrow> 'a word option" where
  "checked_sum [] acc = Some acc"
| "checked_sum (x # xs) acc = (case checked_add acc x of None \<Rightarrow> None | Some a \<Rightarrow> checked_sum xs a)"

lemma unat_sum_list:
  "(\<Sum>x\<leftarrow>xs. unat x) < 2 ^ LENGTH('a) \<Longrightarrow> unat (sum_list xs) = (\<Sum>x\<leftarrow>xs. unat x)" for xs :: "'a::len word list"
  by (induction xs) (simp_all add: unat_word_ariths)

lemma checked_sum_nat:
  "unat acc + (\<Sum>x\<leftarrow>xs. unat x) < 2 ^ LENGTH('a) \<Longrightarrow> checked_sum xs acc = Some (acc + sum_list xs)"
  for acc :: "'a::len word"
  by (induction xs arbitrary: acc) (simp_all add: checked_add_def unat_word_ariths add.assoc)

section \<open>Byte encodings\<close>

text \<open>\<open>to_be_bytes\<close> and \<open>to_le_bytes\<close>, and the bytes of an array read big-endian.\<close>

definition be_bytes :: "nat \<Rightarrow> 'a::len word \<Rightarrow> bytes" where
  "be_bytes n w = map (\<lambda>i. ucast (drop_bit (8 * (n - 1 - i)) w)) [0..<n]"

definition le_bytes :: "nat \<Rightarrow> 'a::len word \<Rightarrow> bytes" where
  "le_bytes n w = map (\<lambda>i. ucast (drop_bit (8 * i) w)) [0..<n]"

lemma length_be_bytes [simp]: "length (be_bytes n w) = n" and length_le_bytes [simp]: "length (le_bytes n w) = n"
  by (simp_all add: be_bytes_def le_bytes_def)

lemma le_bytes_inj:
  assumes "le_bytes n v = le_bytes n w" "LENGTH('a) = 8 * n"
  shows "v = (w :: 'a::len word)"
proof (rule bit_word_eqI)
  fix i assume "i < LENGTH('a)"
  then have i: "i div 8 < n" using assms(2) by (simp add: less_mult_imp_div_less)
  have "bit (x :: 'a word) i = bit (le_bytes n x ! (i div 8)) (i mod 8)" for x
    using i by (simp add: le_bytes_def bit_unsigned_iff bit_drop_bit_eq)
  with assms(1) show "bit v i = bit w i" by simp
qed

lemma be_bytes_rev: "be_bytes n w = rev (le_bytes n w)"
  by (rule nth_equalityI) (simp_all add: be_bytes_def le_bytes_def rev_nth)

lemma be_bytes_inj:
  assumes "be_bytes n v = be_bytes n w" "LENGTH('a) = 8 * n"
  shows "v = (w :: 'a::len word)"
  using le_bytes_inj [of n v w] assms by (simp add: be_bytes_rev)

text \<open>A byte string literal.\<close>

definition ascii :: "string \<Rightarrow> bytes" where
  "ascii s = map of_char s"

text \<open>\<open>from_be_bytes\<close>.\<close>

definition of_be_bytes :: "bytes \<Rightarrow> 'a::len word" where
  "of_be_bytes bs = fold (\<lambda>b w. push_bit 8 w OR ucast b) bs 0"

lemma bit_of_be_bytes:
  "bit (of_be_bytes bs :: 'a::len word) i \<longleftrightarrow> i < LENGTH('a) \<and> i < 8 * length bs \<and> bit (bs ! (length bs - 1 - i div 8)) (i mod 8)"
proof (induction bs arbitrary: i rule: rev_induct)
  case (snoc b bs)
  have step: "of_be_bytes (bs @ [b]) = push_bit 8 (of_be_bytes bs :: 'a word) OR ucast b" by (simp add: of_be_bytes_def)
  show ?case
  proof (cases "i < 8")
    case True
    then show ?thesis by (simp add: step bit_or_iff bit_push_bit_iff bit_unsigned_iff nth_append)
  next
    case False
    then obtain j where j: "i = j + 8" by (metis add.commute le_Suc_ex not_less)
    have "\<not> bit b i"
    proof
      assume "bit b i"
      then have "i < LENGTH(8)" by (rule bit_imp_le_length)
      then show False using False by simp
    qed
    then have "bit (of_be_bytes (bs @ [b]) :: 'a word) i \<longleftrightarrow> i < LENGTH('a) \<and> bit (of_be_bytes bs :: 'a word) j"
      by (auto simp: step bit_or_iff bit_push_bit_iff bit_unsigned_iff j)
    moreover have "(j + 8) div 8 = Suc (j div 8)" by simp
    ultimately show ?thesis by (auto simp: snoc.IH nth_append j)
  qed
qed (simp add: of_be_bytes_def)

lemma nth_be_bytes: "i < n \<Longrightarrow> be_bytes n w ! i = ucast (drop_bit (8 * (n - 1 - i)) w)"
  by (simp add: be_bytes_def)

lemma of_be_bytes_be_bytes [simp]:
  assumes "LENGTH('a) = 8 * n"
  shows "of_be_bytes (be_bytes n w) = (w :: 'a::len word)"
proof (rule bit_word_eqI)
  fix i assume i: "i < LENGTH('a)"
  then have "i div 8 < n" using assms by (simp add: less_mult_imp_div_less)
  then show "bit (of_be_bytes (be_bytes n w) :: 'a word) i \<longleftrightarrow> bit w i"
    using i assms by (simp add: bit_of_be_bytes nth_be_bytes bit_unsigned_iff bit_drop_bit_eq)
qed

lemma be_bytes_of_be_bytes:
  assumes "LENGTH('a) = 8 * n" "length bs = n"
  shows "be_bytes n (of_be_bytes bs :: 'a::len word) = bs"
proof (rule nth_equalityI)
  fix j assume "j < length (be_bytes n (of_be_bytes bs :: 'a word))"
  then have j: "j < n" by simp
  show "be_bytes n (of_be_bytes bs :: 'a word) ! j = bs ! j"
  proof (rule bit_word_eqI)
    fix i assume i: "i < LENGTH(8)"
    then have k: "8 * (n - Suc j) + i < 8 * n" "(8 * (n - Suc j) + i) div 8 = n - Suc j" "(8 * (n - Suc j) + i) mod 8 = i" using j by auto
    then show "bit (be_bytes n (of_be_bytes bs :: 'a word) ! j) i \<longleftrightarrow> bit (bs ! j) i"
      using i j assms by (simp add: nth_be_bytes bit_unsigned_iff bit_drop_bit_eq bit_of_be_bytes)
  qed
qed (use assms in simp)

section \<open>Sorted lists without duplicate keys\<close>

text \<open>\<open>Vec::dedup_by_key\<close>: of consecutive elements with one key the first stays.\<close>

fun dedup_by_key :: "('a \<Rightarrow> 'k) \<Rightarrow> 'a list \<Rightarrow> 'a list" where
  "dedup_by_key f [] = []"
| "dedup_by_key f [x] = [x]"
| "dedup_by_key f (x # y # xs) = (if f x = f y then dedup_by_key f (x # xs) else x # dedup_by_key f (y # xs))"

lemma set_dedup_by_key: "set (dedup_by_key f xs) \<subseteq> set xs"
  by (induction f xs rule: dedup_by_key.induct) auto

lemma sort_perm_eq: "mset xs = mset ys \<Longrightarrow> sort xs = sort ys"
  by (metis properties_for_sort sorted_sort mset_sort)

end
