(* ===== verification/GF256.thy ===== *)
theory GF256
  imports Zeph_Prelude
begin

text \<open>
  GF(2^8) arithmetic of \<open>src/crates/erasure/src/gf.rs\<close>: the compile-time \<open>EXP\<close>/\<open>LOG\<close>
  tables, multiplication and inversion by table lookup, and the row operations \<open>axpy\<close>,
  \<open>scale\<close> and \<open>dot\<close>. The reference is the field of polynomials over GF(2) modulo 0x11D,
  generated by the shift \<open>xtime\<close>; the type \<open>gf256\<close> carries it as an instance of the
  library's \<open>field\<close> class, so that sums and linear algebra over it are the library's.
\<close>

section \<open>The tables\<close>

definition POLY :: u16 where "POLY = 0x11D"

text \<open>The body of the first loop: \<open>x <<= 1; if x & 0x100 != 0 { x ^= POLY }\<close>.\<close>

definition shift_reduce :: "u16 \<Rightarrow> u16" where
  "shift_reduce x = (let x = push_bit 1 x in if x AND 0x100 \<noteq> 0 then x XOR POLY else x)"

function fill_loop :: "nat \<Rightarrow> u16 \<Rightarrow> u8 list \<Rightarrow> u8 list \<Rightarrow> u8 list \<times> u8 list" where
  "fill_loop i x exp log =
     (if i < 255
      then fill_loop (i + 1) (shift_reduce x) (exp[i := ucast x]) (log[unat x := of_nat i])
      else (exp, log))"
  by pat_completeness auto
termination
  by (relation "measure (\<lambda>(i, x, exp, log). 255 - i)") auto

function dup_loop :: "nat \<Rightarrow> u8 list \<Rightarrow> u8 list" where
  "dup_loop j exp = (if j < 512 then dup_loop (j + 1) (exp[j := exp ! (j - 255)]) else exp)"
  by pat_completeness auto
termination
  by (relation "measure (\<lambda>(j, exp). 512 - j)") auto

declare fill_loop.simps [simp del] dup_loop.simps [simp del]

definition TABLES :: "u8 list \<times> u8 list" where
  "TABLES = (let (exp, log) = fill_loop 0 1 (replicate 512 0) (replicate 256 0)
             in (dup_loop 255 exp, log))"

definition EXP :: "u8 list" where "EXP = fst TABLES"

definition LOG :: "u8 list" where "LOG = snd TABLES"

section \<open>Field operations\<close>

definition gf_add :: "u8 \<Rightarrow> u8 \<Rightarrow> u8" where
  "gf_add a b = a XOR b"

definition gf_mul :: "u8 \<Rightarrow> u8 \<Rightarrow> u8" where
  "gf_mul a b = (if a = 0 \<or> b = 0 then 0
                 else EXP ! (unat (LOG ! unat a) + unat (LOG ! unat b)))"

text \<open>Inversion asserts its argument; the panic is \<open>None\<close>.\<close>

definition gf_inv :: "u8 \<Rightarrow> u8 option" where
  "gf_inv a = (if a = 0 then None else Some (EXP ! (255 - unat (LOG ! unat a))))"

function mul_table_loop :: "nat \<Rightarrow> nat \<Rightarrow> u8 list \<Rightarrow> u8 list" where
  "mul_table_loop log_c x table =
     (if x < 256
      then mul_table_loop log_c (x + 1) (table[x := EXP ! (log_c + unat (LOG ! x))])
      else table)"
  by pat_completeness auto
termination
  by (relation "measure (\<lambda>(c, x, t). 256 - x)") auto

declare mul_table_loop.simps [simp del]

definition mul_table :: "u8 \<Rightarrow> u8 list" where
  "mul_table c = (if c = 0 then replicate 256 0
                  else mul_table_loop (unat (LOG ! unat c)) 1 (replicate 256 0))"

text \<open>\<open>for (d, s) in dst.iter_mut().zip(src)\<close>: the rest of a longer \<open>dst\<close> is kept.\<close>

fun zip_update :: "(u8 \<Rightarrow> u8 \<Rightarrow> u8) \<Rightarrow> bytes \<Rightarrow> bytes \<Rightarrow> bytes" where
  "zip_update f [] ss = []"
| "zip_update f ds [] = ds"
| "zip_update f (d # ds) (s # ss) = f d s # zip_update f ds ss"

definition axpy :: "bytes \<Rightarrow> bytes \<Rightarrow> u8 \<Rightarrow> bytes" where
  "axpy dst src c =
     (if c = 0 then dst
      else if c = 1 then zip_update (\<lambda>d s. d XOR s) dst src
      else let table = mul_table c in zip_update (\<lambda>d s. d XOR table ! unat s) dst src)"

definition scale :: "bytes \<Rightarrow> u8 \<Rightarrow> bytes" where
  "scale dst c = (if c = 1 then dst else let table = mul_table c in map (\<lambda>d. table ! unat d) dst)"

definition dot :: "bytes \<Rightarrow> bytes \<Rightarrow> u8" where
  "dot a b = fold (\<lambda>(x, y) acc. acc XOR gf_mul x y) (zip a b) 0"

section \<open>The reference: repeated multiplication by the generator\<close>

definition xtime :: "u8 \<Rightarrow> u8" where
  "xtime a = ucast (shift_reduce (ucast a))"

definition gpow :: "nat \<Rightarrow> u8" where
  "gpow n = (xtime ^^ n) 1"

lemma bit_shift1: "bit (push_bit 1 (a :: 'a::len word)) n \<longleftrightarrow> 0 < n \<and> n < LENGTH('a) \<and> bit a (n - 1)"
  by (auto simp only: bit_push_bit_iff possible_bit_word)

lemma ucast_shift: "(ucast (push_bit 1 (ucast (a :: u8) :: u16)) :: u8) = push_bit 1 a"
  by (rule bit_word_eqI) (auto simp only: bit_shift1 bit_unsigned_iff possible_bit_word len_bit0 len_num1)

lemma shift_top: "push_bit 1 (ucast (a :: u8) :: u16) AND 0x100 \<noteq> 0 \<longleftrightarrow> bit a 7"
proof -
  have "(0x100 :: u16) = push_bit 8 1" by simp
  then have "push_bit 1 (ucast a :: u16) AND 0x100 \<noteq> 0 \<longleftrightarrow> bit (push_bit 1 (ucast a :: u16)) 8"
    by (simp only: bit_iff_and_push_bit_not_eq_0)
  also have "\<dots> \<longleftrightarrow> bit a 7"
    by (subst bit_shift1) (simp add: bit_unsigned_iff)
  finally show ?thesis .
qed

lemma xtime_alt: "xtime a = push_bit 1 a XOR (if bit a 7 then 0x1D else 0)"
proof -
  have poly: "(285 :: u8) = 29" by simp
  show ?thesis
    unfolding xtime_def shift_reduce_def POLY_def Let_def shift_top
    by (simp add: unsigned_xor_eq ucast_shift poly del: One_nat_def push_bit_Suc)
qed

lemma xtime_xor: "xtime (a XOR b) = xtime a XOR xtime b"
  unfolding xtime_alt push_bit_xor
  by (simp add: bit_xor_iff xor.assoc xor.left_commute xor.commute)

lemma xtime_0 [simp]: "xtime 0 = 0"
  by (simp add: xtime_alt)

lemma xtime_eq_0: "xtime a = 0 \<longleftrightarrow> a = 0"
proof
  assume x: "xtime a = 0"
  have "\<not> bit (xtime a) 0" using x by simp
  then have top: "\<not> bit a 7" unfolding xtime_alt bit_xor_iff bit_shift1 by (simp split: if_splits)
  with x have s: "push_bit 1 a = 0" by (simp only: xtime_alt if_False xor.right_neutral)
  have "\<not> bit a n" if "n < 8" for n
  proof (cases "n = 7")
    case False
    with s that have "\<not> bit (push_bit 1 a) (Suc n)" by (simp only: bit_0_eq bot_apply bot_bool_def not_False_eq_True)
    with False that show ?thesis unfolding bit_shift1 by simp
  qed (use top in simp)
  then show "a = 0" by (intro bit_word_eqI) simp
qed simp

lemma funpow_xtime_xor: "(xtime ^^ n) (a XOR b) = (xtime ^^ n) a XOR (xtime ^^ n) b"
  by (induction n) (simp_all add: xtime_xor)

lemma funpow_xtime_0 [simp]: "(xtime ^^ n) 0 = 0"
  by (induction n) simp_all

lemma xtime_inj: "xtime a = xtime b \<longleftrightarrow> a = b"
proof
  assume "xtime a = xtime b"
  then have "xtime (a XOR b) = 0" by (simp add: xtime_xor)
  then have "a XOR b = 0" by (simp add: xtime_eq_0)
  then show "a = b" by (metis xor.left_neutral xor_self_eq xor.assoc)
qed simp

lemma gpow_0 [simp]: "gpow 0 = 1" and gpow_Suc: "gpow (Suc n) = xtime (gpow n)"
  by (simp_all add: gpow_def)

lemma gpow_add: "gpow (m + n) = (xtime ^^ m) (gpow n)"
  by (simp add: gpow_def funpow_add)

lemma gpow_nonzero [simp]: "gpow n \<noteq> 0"
  by (induction n) (simp_all add: gpow_Suc xtime_eq_0)

fun orbit :: "nat \<Rightarrow> u8 \<Rightarrow> u8 list" where
  "orbit 0 x = []"
| "orbit (Suc n) x = x # orbit n (xtime x)"

lemma orbit_gpow: "orbit n (gpow m) = map gpow [m..<m + n]"
  by (induction n arbitrary: m) (simp_all add: upt_rec gpow_Suc [symmetric])

lemma orbit_no_one: "1 \<notin> set (orbit 254 2) \<and> last (orbit 256 1) = 1"
  by code_simp

lemma gpow_not_one: "0 < d \<Longrightarrow> d < 255 \<Longrightarrow> gpow d \<noteq> 1"
proof -
  assume d: "0 < d" "d < 255"
  have "gpow 1 = 2" by (simp add: gpow_def xtime_alt)
  then have "orbit 254 2 = map gpow [1..<255]" using orbit_gpow [of 254 1] by simp
  with orbit_no_one have "1 \<notin> gpow ` {1..<255}" by simp
  moreover from d have "gpow d \<in> gpow ` {1..<255}" by (intro imageI) simp
  ultimately show ?thesis by metis
qed

lemma gpow_255: "gpow 255 = 1"
  using orbit_no_one orbit_gpow [of 256 0] by (simp add: last_map)

lemma gpow_period: "gpow (n + 255) = gpow n"
  by (metis add.commute gpow_255 gpow_add gpow_def)

lemma gpow_mod: "gpow (n mod 255) = gpow n"
proof (induction n rule: less_induct)
  case (less n)
  then show ?case
    by (cases "n < 255") (use less [of "n - 255"] gpow_period [of "n - 255"] in \<open>auto simp: mod_if\<close>)
qed

lemma funpow_xtime_inj: "(xtime ^^ n) a = (xtime ^^ n) b \<longleftrightarrow> a = b"
  by (induction n) (simp_all add: xtime_inj)

lemma gpow_inj: "inj_on gpow {..<255}"
proof (rule linorder_inj_onI)
  fix i j :: nat assume "i < j" "i \<in> {..<255}" "j \<in> {..<255}"
  then have "gpow (j - i) \<noteq> gpow 0" using gpow_not_one [of "j - i"] by simp
  then have "gpow (i + (j - i)) \<noteq> gpow (i + 0)" by (simp only: gpow_add funpow_xtime_inj) simp
  with \<open>i < j\<close> show "gpow i \<noteq> gpow j" by simp
qed auto

lemma gpow_eq_iff: "i < 255 \<Longrightarrow> j < 255 \<Longrightarrow> gpow i = gpow j \<longleftrightarrow> i = j"
  using gpow_inj by (auto simp: inj_on_def)

lemma gpow_surj: "(a :: u8) \<noteq> 0 \<Longrightarrow> \<exists>i < 255. a = gpow i"
proof -
  assume "a \<noteq> 0"
  have "card (gpow ` {..<255}) = 255" by (simp add: card_image gpow_inj)
  moreover have "card (UNIV - {0 :: u8}) = 255" by (simp add: card_Diff_singleton card_word)
  moreover have "gpow ` {..<255} \<subseteq> UNIV - {0}" by auto
  ultimately have "gpow ` {..<255} = UNIV - {0}" by (intro card_subset_eq) auto
  with \<open>a \<noteq> 0\<close> show ?thesis by auto
qed

lemma shift_reduce_ucast: "shift_reduce (ucast a) = ucast (xtime a)"
proof -
  have "bit (push_bit 1 (ucast a :: u16)) (8 + n) \<longleftrightarrow> n = 0 \<and> bit a 7" for n
    using bit_imp_le_length [of a "7 + n"] unfolding bit_shift1 by (cases n) (auto simp: bit_unsigned_iff)
  then have "drop_bit 8 (push_bit 1 (ucast a :: u16)) = (if bit a 7 then 1 else 0)"
    by (intro bit_word_eqI) (simp only: bit_drop_bit_eq comp_def, simp add: bit_1_iff)
  moreover have "drop_bit 8 (285 :: u16) = 1" by simp
  ultimately have "drop_bit 8 (shift_reduce (ucast a)) = 0"
    unfolding shift_reduce_def POLY_def Let_def shift_top by (simp add: drop_bit_xor del: One_nat_def push_bit_Suc)
  then have "\<not> bit (drop_bit 8 (shift_reduce (ucast a))) n" for n by simp
  then have "\<not> bit (shift_reduce (ucast a)) (8 + n)" for n by (simp add: bit_drop_bit_eq)
  then have "bit (shift_reduce (ucast a)) n \<Longrightarrow> n < 8" for n
    by (metis le_add_diff_inverse linorder_not_le)
  then show ?thesis unfolding xtime_def
    by (intro bit_word_eqI) (auto simp: bit_unsigned_iff)
qed

text \<open>The loop invariant of the table construction.\<close>

definition tables_ok :: "nat \<Rightarrow> u8 list \<Rightarrow> u8 list \<Rightarrow> bool" where
  "tables_ok i exp log \<longleftrightarrow> length exp = 512 \<and> length log = 256
     \<and> (\<forall>j < i. exp ! j = gpow j \<and> log ! unat (gpow j) = of_nat j)"

lemma unat_u8: "unat (a :: u8) < 256"
  using unat_lt [of a] by (simp del: unsigned_less)

lemma tables_ok_step:
  assumes ok: "tables_ok i exp log" and i: "i < 255"
  shows "tables_ok (i + 1) (exp[i := gpow i]) (log[unat (gpow i) := of_nat i])"
proof -
  have "j < i + 1 \<Longrightarrow> exp[i := gpow i] ! j = gpow j \<and> log[unat (gpow i) := of_nat i] ! unat (gpow j) = of_nat j" for j
  proof (cases "j = i")
    case True
    with ok i show ?thesis using unat_u8 [of "gpow i"] by (simp add: tables_ok_def del: unsigned_less)
  next
    case False
    assume "j < i + 1"
    with False i have "unat (gpow i) \<noteq> unat (gpow j)" using gpow_eq_iff [of i j] by (auto dest: unsigned_word_eqI)
    with False ok \<open>j < i + 1\<close> show ?thesis by (simp add: tables_ok_def)
  qed
  with ok show ?thesis by (simp add: tables_ok_def)
qed

lemma ucast_u8_u16 [simp]: "ucast (ucast (a :: u8) :: u16) = a"
  by (rule bit_word_eqI) (simp add: bit_unsigned_iff)

lemma unat_of_nat_u8: "i < 256 \<Longrightarrow> unat (of_nat i :: u8) = i"
  by (simp add: unsigned_of_nat take_bit_nat_eq_self)

lemma fill_loop_ok:
  "tables_ok i exp log \<Longrightarrow> i \<le> 255 \<Longrightarrow> case fill_loop i (ucast (gpow i)) exp log of (e, l) \<Rightarrow> tables_ok 255 e l"
proof (induction "255 - i" arbitrary: i exp log)
  case 0
  then show ?case by (simp add: fill_loop.simps)
next
  case (Suc n)
  then have "i < 255" by simp
  with Suc.hyps(1) [of "i + 1"] Suc.hyps(2) Suc.prems show ?case
    by (subst fill_loop.simps)
      (simp add: tables_ok_step [simplified] shift_reduce_ucast gpow_Suc unat_ucast_up)
qed

lemma dup_loop_ok:
  assumes "length exp = 512" "j \<le> 512" "255 \<le> j" "\<forall>i < j. exp ! i = gpow i"
  shows "length (dup_loop j exp) = 512 \<and> (\<forall>i < 512. dup_loop j exp ! i = gpow i)"
  using assms
proof (induction "512 - j" arbitrary: j exp)
  case 0
  then show ?case by (simp add: dup_loop.simps)
next
  case (Suc n)
  have "gpow (j - 255) = gpow j" using gpow_period [of "j - 255"] Suc.prems by simp
  with Suc show ?case
    by (subst (1 2) dup_loop.simps) (auto simp: nth_list_update less_Suc_eq)
qed

lemma TABLES_ok: "length EXP = 512" "\<And>i. i < 512 \<Longrightarrow> EXP ! i = gpow i"
  "length LOG = 256" "\<And>i. i < 255 \<Longrightarrow> LOG ! unat (gpow i) = of_nat i"
proof -
  obtain e l where f: "fill_loop 0 1 (replicate 512 0) (replicate 256 0) = (e, l)"
    by (cases "fill_loop 0 1 (replicate 512 0) (replicate 256 0)")
  have "tables_ok 0 (replicate 512 0) (replicate 256 0)" by (simp add: tables_ok_def)
  from fill_loop_ok [OF this] f have ok: "tables_ok 255 e l" by simp
  then have "length (dup_loop 255 e) = 512 \<and> (\<forall>i < 512. dup_loop 255 e ! i = gpow i)"
    by (intro dup_loop_ok) (auto simp: tables_ok_def)
  with ok f show "length EXP = 512" "\<And>i. i < 512 \<Longrightarrow> EXP ! i = gpow i"
    "length LOG = 256" "\<And>i. i < 255 \<Longrightarrow> LOG ! unat (gpow i) = of_nat i"
    by (simp_all add: EXP_def LOG_def TABLES_def tables_ok_def)
qed

lemma gf_mul_gpow:
  assumes "i < 255" "j < 255" shows "gf_mul (gpow i) (gpow j) = gpow (i + j)"
  using assms by (simp add: gf_mul_def TABLES_ok unat_of_nat_u8)


lemma gf_inv_gpow: "i < 255 \<Longrightarrow> gf_inv (gpow i) = Some (gpow (255 - i))"
  by (simp add: gf_inv_def TABLES_ok unat_of_nat_u8)

text \<open>Multiplication by a fixed element is an iterate of the (linear) shift.\<close>

lemma gf_mul_iterate: "i < 255 \<Longrightarrow> gf_mul (gpow i) b = (xtime ^^ i) b"
proof (cases "b = 0")
  case False
  assume i: "i < 255"
  from False obtain j where "j < 255" "b = gpow j" using gpow_surj by blast
  with i show ?thesis by (simp add: gf_mul_gpow gpow_add)
qed (simp add: gf_mul_def)

lemma gf_mul_0 [simp]: "gf_mul 0 a = 0" "gf_mul a 0 = 0"
  by (simp_all add: gf_mul_def)

lemma gf_mul_xor: "gf_mul a (b XOR c) = gf_mul a b XOR gf_mul a c"
proof (cases "a = 0")
  case False
  then obtain i where "i < 255" "a = gpow i" using gpow_surj by blast
  then show ?thesis by (simp add: gf_mul_iterate funpow_xtime_xor)
qed simp

lemma gf_mul_comm: "gf_mul a b = gf_mul b a"
  by (simp add: gf_mul_def add.commute disj_commute)

lemma funpow_xtime_mod: "(xtime ^^ (n mod 255)) c = (xtime ^^ n) c"
proof (cases "c = 0")
  case False
  then obtain l where c: "c = gpow l" using gpow_surj by blast
  have "gpow (n mod 255 + l) = gpow (n + l)"
    using gpow_mod [of "n mod 255 + l"] gpow_mod [of "n + l"] by (simp only: mod_add_left_eq)
  then show ?thesis unfolding c by (simp only: gpow_add)
qed (simp add: funpow_xtime_0)

lemma gf_mul_assoc: "gf_mul (gf_mul a b) c = gf_mul a (gf_mul b c)"
proof (cases "a = 0 \<or> b = 0")
  case False
  then obtain i j where ij: "i < 255" "a = gpow i" "j < 255" "b = gpow j"
    using gpow_surj by blast
  then have "gf_mul (gf_mul a b) c = gf_mul (gpow ((i + j) mod 255)) c"
    by (simp only: gf_mul_gpow gpow_mod)
  also have "\<dots> = (xtime ^^ (i + j)) c"
    by (simp add: gf_mul_iterate funpow_xtime_mod)
  finally show ?thesis using ij by (simp add: gf_mul_iterate funpow_add)
qed auto

lemma gf_mul_1: "gf_mul 1 a = a"
  using gf_mul_iterate [of 0 a] by simp

lemma gf_mul_inv: "a \<noteq> 0 \<Longrightarrow> \<exists>b. gf_inv a = Some b \<and> gf_mul a b = 1"
proof -
  assume "a \<noteq> 0"
  then obtain i where i: "i < 255" "a = gpow i" using gpow_surj by blast
  then have "gf_mul a (gpow (255 - i)) = gpow (i + (255 - i))"
    by (simp only: gf_mul_iterate gpow_add)
  with i show ?thesis by (simp add: gf_inv_gpow gpow_255)
qed


section \<open>Multiplication is the carry-less product modulo the polynomial\<close>

definition poly_mul :: "u8 \<Rightarrow> u8 \<Rightarrow> u8" where
  "poly_mul a b = fold (\<lambda>i acc. if bit a i then acc XOR (xtime ^^ i) b else acc) [0..<8] 0"

lemma bit_if_0: "bit (if c then k else 0) n \<longleftrightarrow> c \<and> bit k n"
  by simp

lemma u8_bits:
  "(a :: u8) = (if bit a 0 then 1 else 0) XOR (if bit a 1 then 2 else 0) XOR (if bit a 2 then 4 else 0)
     XOR (if bit a 3 then 8 else 0) XOR (if bit a 4 then 16 else 0) XOR (if bit a 5 then 32 else 0)
     XOR (if bit a 6 then 64 else 0) XOR (if bit a 7 then 128 else 0)"
proof (rule bit_word_eqI)
  fix n assume "n < LENGTH(8)"
  then have "n \<in> {0, 1, 2, 3, 4, 5, 6, 7}" by auto
  then show "bit a n \<longleftrightarrow> bit ((if bit a 0 then 1 else 0) XOR (if bit a 1 then 2 else 0) XOR (if bit a 2 then 4 else 0)
     XOR (if bit a 3 then 8 else 0) XOR (if bit a 4 then 16 else 0) XOR (if bit a 5 then 32 else 0)
     XOR (if bit a 6 then 64 else 0) XOR (if bit a 7 then 128 else (0 :: u8))) n"
    by (elim insertE emptyE) (simp_all add: bit_xor_iff bit_if_0 split del: if_split)
qed

lemma gpow_bits: "gpow 0 = 1" "gpow 1 = 2" "gpow 2 = 4" "gpow 3 = 8" "gpow 4 = 16" "gpow 5 = 32"
  "gpow 6 = 64" "gpow 7 = 128"
  by (simp_all add: gpow_def xtime_alt numeral_eq_Suc)

lemma gf_mul_if: "gf_mul (if c then x else 0) b = (if c then gf_mul x b else 0)"
  by simp

lemma gf_mul_xor_left: "gf_mul (a XOR b) c = gf_mul a c XOR gf_mul b c"
  by (metis gf_mul_comm gf_mul_xor)

lemma gf_mul_bits: "gf_mul 1 b = (xtime ^^ 0) b" "gf_mul 2 b = (xtime ^^ 1) b" "gf_mul 4 b = (xtime ^^ 2) b"
  "gf_mul 8 b = (xtime ^^ 3) b" "gf_mul 16 b = (xtime ^^ 4) b" "gf_mul 32 b = (xtime ^^ 5) b"
  "gf_mul 64 b = (xtime ^^ 6) b" "gf_mul 128 b = (xtime ^^ 7) b"
  by (simp_all only: gpow_bits [symmetric] gf_mul_iterate)

lemma gf_mul_poly_mul: "gf_mul a b = poly_mul a b"
proof -
  have upt: "[0..<8] = [0, 1, 2, 3, 4, 5, 6, 7 :: nat]" by (simp add: upt_rec)
  have step: "(if c then x XOR y else x) = x XOR (if c then y else 0)" for c and x y :: u8 by simp
  have "gf_mul a b = (if bit a 0 then (xtime ^^ 0) b else 0) XOR (if bit a 1 then (xtime ^^ 1) b else 0)
     XOR (if bit a 2 then (xtime ^^ 2) b else 0) XOR (if bit a 3 then (xtime ^^ 3) b else 0)
     XOR (if bit a 4 then (xtime ^^ 4) b else 0) XOR (if bit a 5 then (xtime ^^ 5) b else 0)
     XOR (if bit a 6 then (xtime ^^ 6) b else 0) XOR (if bit a 7 then (xtime ^^ 7) b else 0)"
    by (subst arg_cong [OF u8_bits, of "\<lambda>x. gf_mul x b" a]) (simp only: gf_mul_xor_left gf_mul_if gf_mul_bits)
  then show ?thesis by (simp only: poly_mul_def upt fold.simps comp_def id_def step xor.left_neutral xor.assoc)
qed

section \<open>The field\<close>

datatype gf256 = GF (gf_byte: u8)

instantiation gf256 :: field
begin

definition zero_gf256 :: gf256 where "0 = GF 0"

definition one_gf256 :: gf256 where "1 = GF 1"

definition plus_gf256 :: "gf256 \<Rightarrow> gf256 \<Rightarrow> gf256" where
  "x + y = GF (gf_add (gf_byte x) (gf_byte y))"

definition minus_gf256 :: "gf256 \<Rightarrow> gf256 \<Rightarrow> gf256" where
  "x - y = GF (gf_add (gf_byte x) (gf_byte y))"

definition uminus_gf256 :: "gf256 \<Rightarrow> gf256" where "- x = (x :: gf256)"

definition times_gf256 :: "gf256 \<Rightarrow> gf256 \<Rightarrow> gf256" where
  "x * y = GF (gf_mul (gf_byte x) (gf_byte y))"

definition inverse_gf256 :: "gf256 \<Rightarrow> gf256" where
  "inverse x = (case gf_inv (gf_byte x) of None \<Rightarrow> GF 0 | Some b \<Rightarrow> GF b)"

definition divide_gf256 :: "gf256 \<Rightarrow> gf256 \<Rightarrow> gf256" where
  "x div y = x * inverse (y :: gf256)"

lemmas gf256_defs = zero_gf256_def one_gf256_def plus_gf256_def minus_gf256_def uminus_gf256_def
  times_gf256_def gf_add_def gf256.expand

instance
proof
  fix a b c :: gf256
  show "a * b * c = a * (b * c)" by (simp add: gf256_defs gf_mul_assoc)
  show "a * b = b * a" by (simp add: gf256_defs gf_mul_comm)
  show "1 * a = a" by (simp add: gf256_defs gf_mul_1)
  show "a + b + c = a + (b + c)" by (simp add: gf256_defs ac_simps)
  show "a + b = b + a" by (simp add: gf256_defs ac_simps)
  show "0 + a = a" by (simp add: gf256_defs)
  show "- a + a = 0" by (simp add: gf256_defs)
  show "a - b = a + - b" by (simp add: gf256_defs)
  show "(a + b) * c = a * c + b * c" by (simp add: gf256_defs gf_mul_xor_left)
  show "(0 :: gf256) \<noteq> 1" by (simp add: gf256_defs)
  show "a \<noteq> 0 \<Longrightarrow> inverse a * a = 1"
    using gf_mul_inv [of "gf_byte a"] by (cases a) (auto simp: gf256_defs inverse_gf256_def gf_mul_comm)
  show "a div b = a * inverse b" by (simp add: divide_gf256_def)
  show "inverse (0 :: gf256) = 0" by (simp add: gf256_defs inverse_gf256_def gf_inv_def)
qed

end

named_theorems gf_simps \<open>reading byte-level operations as operations of the field\<close>

lemma GF_xor [gf_simps]: "GF (a XOR b) = GF a + GF b"
  and GF_mul [gf_simps]: "GF (gf_mul a b) = GF a * GF b"
  and GF_0 [gf_simps]: "GF 0 = 0"
  and GF_1 [gf_simps]: "GF 1 = 1"
  by (simp_all add: gf256_defs)

lemma GF_inv [gf_simps]: "gf_inv a = Some b \<Longrightarrow> GF b = inverse (GF a)"
  by (simp add: inverse_gf256_def)

lemma GF_eq_0 [simp]: "GF a = 0 \<longleftrightarrow> a = 0" and GF_eq_1 [simp]: "GF a = 1 \<longleftrightarrow> a = 1"
  by (simp_all add: gf256_defs)

lemma gf256_char2 [simp]: "(x :: gf256) + x = 0" and gf256_minus: "(x :: gf256) - y = x + y"
  by (simp_all add: gf256_defs)

section \<open>Row operations\<close>

lemma mul_table_loop_nth:
  assumes "length t = 256" "y < 256"
  shows "mul_table_loop c x t ! y = (if x \<le> y then EXP ! (c + unat (LOG ! y)) else t ! y)"
  using assms
proof (induction "256 - x" arbitrary: x t)
  case 0
  then show ?case by (simp add: mul_table_loop.simps)
next
  case (Suc n)
  then show ?case
    by (subst mul_table_loop.simps) (auto simp: nth_list_update le_less Suc_le_eq)
qed

lemma mul_table_nth: "mul_table c ! unat x = gf_mul c x"
proof (cases "x = 0")
  case True
  then show ?thesis by (simp add: mul_table_def mul_table_loop_nth)
next
  case False
  then have "1 \<le> unat x" by (simp add: Suc_le_eq unat_gt_0)
  with False show ?thesis
    using unat_u8 [of x] by (simp add: mul_table_def mul_table_loop_nth gf_mul_def del: unsigned_less)
qed

lemma length_zip_update [simp]: "length (zip_update f ds ss) = length ds"
  by (induction f ds ss rule: zip_update.induct) simp_all

lemma zip_update_nth:
  "i < length ds \<Longrightarrow> i < length ss \<Longrightarrow> zip_update f ds ss ! i = f (ds ! i) (ss ! i)"
  by (induction f ds ss arbitrary: i rule: zip_update.induct) (auto simp: nth_Cons split: nat.split)

lemma length_axpy [simp]: "length (axpy d s c) = length d"
  by (simp add: axpy_def Let_def)

lemma length_scale [simp]: "length (scale d c) = length d"
  by (simp add: scale_def Let_def)

lemma axpy_nth [gf_simps]:
  "i < length d \<Longrightarrow> i < length s \<Longrightarrow> GF (axpy d s c ! i) = GF (d ! i) + GF c * GF (s ! i)"
  by (simp add: axpy_def Let_def zip_update_nth mul_table_nth gf_simps)

lemma scale_nth [gf_simps]: "i < length d \<Longrightarrow> GF (scale d c ! i) = GF c * GF (d ! i)"
  by (simp add: scale_def Let_def mul_table_nth gf_simps)

lemma fold_dot: "GF (fold (\<lambda>(x, y) acc. acc XOR gf_mul x y) ps a) = GF a + (\<Sum>(x, y)\<leftarrow>ps. GF x * GF y)"
  by (induction ps arbitrary: a) (auto simp: gf_simps ac_simps)

lemma dot_sum [gf_simps]: "length a = length b \<Longrightarrow> GF (dot a b) = (\<Sum>i<length a. GF (a ! i) * GF (b ! i))"
  by (simp add: dot_def fold_dot gf_simps sum_list_sum_nth case_prod_beta atLeast0LessThan)

section \<open>Properties\<close>

text \<open>
  (C26) The table-driven \<open>mul\<close> is multiplication of polynomials over GF(2) modulo 0x11D, \<open>inv\<close>
  panics only on 0 and inverts every other byte, and with \<open>add\<close> the bytes satisfy the field laws.
\<close>

theorem gf_mul_poly_mul_eq:
  "gf_mul a b = poly_mul a b \<and> (gf_inv a = None \<longleftrightarrow> a = 0) \<and> (a = 0 \<or> gf_mul a (the (gf_inv a)) = 1)
   \<and> gf_mul (gf_mul a b) c = gf_mul a (gf_mul b c) \<and> gf_mul a b = gf_mul b a \<and> gf_mul 1 a = a
   \<and> gf_mul a (gf_add b c) = gf_add (gf_mul a b) (gf_mul a c)"
  using gf_mul_inv [of a]
  by (auto simp: gf_mul_poly_mul [symmetric] gf_inv_def gf_mul_assoc gf_mul_1 gf_add_def gf_mul_xor
      intro: gf_mul_comm)

end
