(* ===== verification/Erasure.thy ===== *)
theory Erasure
  imports GF256
begin

text \<open>
  The RLNC erasure code of \<open>src/crates/erasure/src/lib.rs\<close>: encoding, recoding and the
  progressive Gaussian-elimination decoder. The random generator is a parameter, a state
  \<open>'g\<close> with \<open>fill\<close> (\<open>fill_bytes\<close>: a buffer of the given length and the next state) and \<open>gen\<close>
  (\<open>Rng::gen::<u8>\<close>). A panic is \<open>None\<close> of the outer option, an error of the source is \<open>Inl\<close>;
  the two resampling loops are \<open>partial_function (option)\<close>, so a loop that never ends is
  \<open>None\<close> as well.
\<close>

section \<open>The model\<close>

text \<open>\<open>assert!(k > 0); k * (2 + 16usize.div_ceil(k))\<close> with \<open>usize\<close> of 64 bits.\<close>

definition div_ceil16 :: "u64 \<Rightarrow> u64" where
  "div_ceil16 k = (if 16 mod k = 0 then 16 div k else 16 div k + 1)"

definition target_pieces :: "u64 \<Rightarrow> u64 option" where
  "target_pieces k = (if k = 0 then None else
     case checked_add 2 (div_ceil16 k) of None \<Rightarrow> None | Some c \<Rightarrow> checked_mul k c)"

record coded_piece =
  coding_vector :: bytes
  data :: bytes

definition piece_id :: "(bytes \<Rightarrow> bytes32) \<Rightarrow> coded_piece \<Rightarrow> bytes32" where
  "piece_id blake3 p = blake3 (coding_vector p @ data p)"

datatype erasure_error =
    BadSources
  | Shape (expected_k: nat) (expected_len: nat)
  | NothingToRecode
  | Incomplete (inc_rank: nat) (inc_k: nat)

definition check_sources :: "bytes list \<Rightarrow> erasure_error + nat" where
  "check_sources sources = (case sources of [] \<Rightarrow> Inl BadSources
     | first # _ \<Rightarrow>
        if first = [] \<or> list_ex (\<lambda>s. length s \<noteq> length first) sources then Inl BadSources
        else Inr (length first))"

definition nonzero :: "bytes \<Rightarrow> bool" where
  "nonzero v = list_ex (\<lambda>c. c \<noteq> 0) v"

partial_function (option) sample_vector ::
  "('g \<Rightarrow> nat \<Rightarrow> bytes \<times> 'g) \<Rightarrow> nat \<Rightarrow> 'g \<Rightarrow> (bytes \<times> 'g) option" where
  "sample_vector fill k g =
     (case fill g k of (v, g') \<Rightarrow> if nonzero v then Some (v, g') else sample_vector fill k g')"

definition combine :: "bytes list \<Rightarrow> bytes \<Rightarrow> nat \<Rightarrow> bytes" where
  "combine sources cv piece_len =
     fold (\<lambda>(i, source) d. axpy d source (cv ! i)) (enumerate 0 sources) (replicate piece_len 0)"

definition encode :: "('g \<Rightarrow> nat \<Rightarrow> bytes \<times> 'g) \<Rightarrow> bytes list \<Rightarrow> 'g
    \<Rightarrow> ((erasure_error + coded_piece) \<times> 'g) option" where
  "encode fill sources g = (case check_sources sources of
       Inl e \<Rightarrow> Some (Inl e, g)
     | Inr piece_len \<Rightarrow>
        (case sample_vector fill (length sources) g of
           None \<Rightarrow> None
         | Some (cv, g') \<Rightarrow>
            Some (Inr \<lparr>coding_vector = cv, data = combine sources cv piece_len\<rparr>, g')))"

fun encode_n :: "('g \<Rightarrow> nat \<Rightarrow> bytes \<times> 'g) \<Rightarrow> bytes list \<Rightarrow> nat \<Rightarrow> 'g
    \<Rightarrow> ((erasure_error + coded_piece list) \<times> 'g) option" where
  "encode_n fill sources 0 g = Some (Inr [], g)"
| "encode_n fill sources (Suc n) g = (case encode fill sources g of
       None \<Rightarrow> None
     | Some (Inl e, g') \<Rightarrow> Some (Inl e, g')
     | Some (Inr p, g') \<Rightarrow>
        (case encode_n fill sources n g' of
           None \<Rightarrow> None
         | Some (Inl e, g'') \<Rightarrow> Some (Inl e, g'')
         | Some (Inr ps, g'') \<Rightarrow> Some (Inr (p # ps), g'')))"

text \<open>One pass of the inner loop of \<open>recode\<close> over the held pieces.\<close>

fun recode_pass :: "('g \<Rightarrow> u8 \<times> 'g) \<Rightarrow> coded_piece list \<Rightarrow> bytes \<Rightarrow> bytes \<Rightarrow> 'g
    \<Rightarrow> bytes \<times> bytes \<times> 'g" where
  "recode_pass gen [] cv d g = (cv, d, g)"
| "recode_pass gen (p # ps) cv d g = (case gen g of (c, g') \<Rightarrow>
     recode_pass gen ps (axpy cv (coding_vector p) c) (axpy d (data p) c) g')"

partial_function (option) recode_loop :: "('g \<Rightarrow> u8 \<times> 'g) \<Rightarrow> coded_piece list \<Rightarrow> nat \<Rightarrow> nat \<Rightarrow> 'g
    \<Rightarrow> (coded_piece \<times> 'g) option" where
  "recode_loop gen held k len g =
     (case recode_pass gen held (replicate k 0) (replicate len 0) g of (cv, d, g') \<Rightarrow>
        if nonzero cv then Some (\<lparr>coding_vector = cv, data = d\<rparr>, g')
        else recode_loop gen held k len g')"

definition recode :: "('g \<Rightarrow> u8 \<times> 'g) \<Rightarrow> coded_piece list \<Rightarrow> 'g
    \<Rightarrow> ((erasure_error + coded_piece) \<times> 'g) option" where
  "recode gen held g = (case held of
       [] \<Rightarrow> Some (Inl NothingToRecode, g)
     | first # _ \<Rightarrow>
        let k = length (coding_vector first); piece_len = length (data first) in
        if list_ex (\<lambda>p. length (coding_vector p) \<noteq> k \<or> length (data p) \<noteq> piece_len) held
        then Some (Inl (Shape k piece_len), g)
        else (case recode_loop gen held k piece_len g of
                None \<Rightarrow> None
              | Some (p, g') \<Rightarrow> Some (Inr p, g')))"

record decoder =
  d_k :: nat
  d_piece_len :: nat
  d_rows :: "(bytes \<times> bytes) list"
  d_pivots :: "nat list"

definition decoder_new :: "nat \<Rightarrow> nat \<Rightarrow> decoder" where
  "decoder_new k len = \<lparr>d_k = k, d_piece_len = len, d_rows = [], d_pivots = []\<rparr>"

definition rank :: "decoder \<Rightarrow> nat" where
  "rank dec = length (d_rows dec)"

definition is_complete :: "decoder \<Rightarrow> bool" where
  "is_complete dec \<longleftrightarrow> rank dec = d_k dec"

text \<open>Indexing panics out of range.\<close>

definition index :: "bytes \<Rightarrow> nat \<Rightarrow> u8 option" where
  "index v i = (if i < length v then Some (v ! i) else None)"

fun reduce_by :: "((bytes \<times> bytes) \<times> nat) list \<Rightarrow> bytes \<Rightarrow> bytes \<Rightarrow> (bytes \<times> bytes) option" where
  "reduce_by [] v d = Some (v, d)"
| "reduce_by (((rv, rd), pivot) # rest) v d = (case index v pivot of
       None \<Rightarrow> None
     | Some c \<Rightarrow> if c \<noteq> 0 then reduce_by rest (axpy v rv c) (axpy d rd c) else reduce_by rest v d)"

fun eliminate :: "nat \<Rightarrow> bytes \<Rightarrow> bytes \<Rightarrow> (bytes \<times> bytes) list \<Rightarrow> (bytes \<times> bytes) list option" where
  "eliminate pivot v d [] = Some []"
| "eliminate pivot v d ((rv, rd) # rest) = (case (index rv pivot, eliminate pivot v d rest) of
       (Some c, Some rest') \<Rightarrow> Some ((if c \<noteq> 0 then (axpy rv v c, axpy rd d c) else (rv, rd)) # rest')
     | _ \<Rightarrow> None)"

fun position :: "(u8 \<Rightarrow> bool) \<Rightarrow> bytes \<Rightarrow> nat option" where
  "position P [] = None"
| "position P (c # cs) = (if P c then Some 0 else map_option Suc (position P cs))"

definition add_piece :: "decoder \<Rightarrow> coded_piece \<Rightarrow> (erasure_error + bool \<times> decoder) option" where
  "add_piece dec piece =
     (if length (coding_vector piece) \<noteq> d_k dec \<or> length (data piece) \<noteq> d_piece_len dec
      then Some (Inl (Shape (d_k dec) (d_piece_len dec)))
      else if is_complete dec then Some (Inr (False, dec))
      else case reduce_by (zip (d_rows dec) (d_pivots dec)) (coding_vector piece) (data piece) of
        None \<Rightarrow> None
      | Some (v, d) \<Rightarrow>
         (case position (\<lambda>c. c \<noteq> 0) v of
            None \<Rightarrow> Some (Inr (False, dec))
          | Some pivot \<Rightarrow>
             (case gf_inv (v ! pivot) of
                None \<Rightarrow> None
              | Some iv \<Rightarrow>
                 let v = scale v iv; d = scale d iv; n = length (zip (d_rows dec) (d_pivots dec)) in
                 (case eliminate pivot v d (take n (d_rows dec)) of
                    None \<Rightarrow> None
                  | Some rows' \<Rightarrow>
                     Some (Inr (True, dec\<lparr>d_rows := rows' @ drop n (d_rows dec) @ [(v, d)],
                                          d_pivots := d_pivots dec @ [pivot]\<rparr>))))))"

definition decode :: "decoder \<Rightarrow> erasure_error + bytes list" where
  "decode dec = (if \<not> is_complete dec then Inl (Incomplete (rank dec) (d_k dec))
     else Inr (map snd (sort_key fst (zip (d_pivots dec) (map snd (d_rows dec))))))"

text \<open>Feeding pieces one after the other, as a receiver does.\<close>

fun feed :: "decoder \<Rightarrow> coded_piece list \<Rightarrow> (erasure_error + decoder) option" where
  "feed dec [] = Some (Inr dec)"
| "feed dec (p # ps) = (case add_piece dec p of
       None \<Rightarrow> None
     | Some (Inl e) \<Rightarrow> Some (Inl e)
     | Some (Inr (_, dec')) \<Rightarrow> feed dec' ps)"

section \<open>Vectors and spans\<close>

type_synonym gfvec = "nat \<Rightarrow> gf256"

definition vec :: "bytes \<Rightarrow> gfvec" where
  "vec v j = (if j < length v then GF (v ! j) else 0)"

definition unit_vec :: "nat \<Rightarrow> gfvec" where
  "unit_vec i j = (if j = i then 1 else 0)"

inductive_set lspan :: "gfvec set \<Rightarrow> gfvec set" for S :: "gfvec set" where
  zero: "(\<lambda>_. 0) \<in> lspan S"
| step: "x \<in> lspan S \<Longrightarrow> v \<in> S \<Longrightarrow> (\<lambda>j. x j + c * v j) \<in> lspan S"

lemma lspan_base: "v \<in> S \<Longrightarrow> v \<in> lspan S"
  using lspan.step [OF lspan.zero, of v S 1] by simp

lemma lspan_axpy: "y \<in> lspan S \<Longrightarrow> x \<in> lspan S \<Longrightarrow> (\<lambda>j. x j + c * y j) \<in> lspan S"
proof (induction y rule: lspan.induct)
  case (step y v b)
  then have "(\<lambda>j. (x j + c * y j) + (c * b) * v j) \<in> lspan S"
    using lspan.step [of "\<lambda>j. x j + c * y j" S v "c * b"] by simp
  then show ?case by (simp add: algebra_simps)
qed simp

lemma lspan_scale: "x \<in> lspan S \<Longrightarrow> (\<lambda>j. c * x j) \<in> lspan S"
  using lspan_axpy [OF _ lspan.zero, of x S c] by simp

lemma lspan_subset: "T \<subseteq> lspan S \<Longrightarrow> lspan T \<subseteq> lspan S"
proof
  fix x assume "T \<subseteq> lspan S" and "x \<in> lspan T"
  from this(2,1) show "x \<in> lspan S"
    by (induction rule: lspan.induct) (auto intro: lspan.zero lspan_axpy)
qed

lemma lspan_mono: "S \<subseteq> T \<Longrightarrow> lspan S \<subseteq> lspan T"
  by (rule lspan_subset) (auto intro: lspan_base)

lemma lspan_eqI: "S \<subseteq> lspan T \<Longrightarrow> T \<subseteq> lspan S \<Longrightarrow> lspan S = lspan T"
  by (simp add: lspan_subset subset_antisym)

text \<open>A linear equation that holds on a set holds on its span.\<close>

lemma lspan_linear:
  assumes "x \<in> lspan S" "f (\<lambda>_. 0) = (0 :: gf256)" "\<And>x y c. f (\<lambda>j. x j + c * y j) = f x + c * f y"
    "\<And>v. v \<in> S \<Longrightarrow> f v = 0"
  shows "f x = 0"
  using assms(1) by (induction rule: lspan.induct) (simp_all add: assms(2-4))

lemma vec_axpy: "length v = length w \<Longrightarrow> vec (axpy v w c) = (\<lambda>j. vec v j + GF c * vec w j)"
  by (rule ext) (simp add: vec_def gf_simps)

lemma vec_scale: "vec (scale v c) = (\<lambda>j. GF c * vec v j)"
  by (rule ext) (simp add: vec_def gf_simps)

lemma vec_replicate_0 [simp]: "vec (replicate n 0) = (\<lambda>_. 0)"
  by (rule ext) (simp add: vec_def gf_simps)

lemma vec_eq_0_iff: "vec v = (\<lambda>_. 0) \<longleftrightarrow> \<not> nonzero v"
  by (auto simp: vec_def nonzero_def fun_eq_iff list_ex_iff in_set_conv_nth) (metis nth_mem)

lemma vec_inj: "length v = length w \<Longrightarrow> vec v = vec w \<Longrightarrow> v = w"
  by (rule nth_equalityI) (auto simp: vec_def fun_eq_iff split: if_splits)

lemma vec_eq_0: "length v \<le> j \<Longrightarrow> vec v j = 0"
  by (simp add: vec_def)

lemma vec_in_lspan_units:
  assumes "\<And>j. j < n \<Longrightarrow> unit_vec j \<in> lspan T" and "length v = n"
  shows "vec v \<in> lspan T"
proof -
  have "m \<le> n \<Longrightarrow> (\<lambda>j. if j < m then vec v j else 0) \<in> lspan T" for m
  proof (induction m)
    case (Suc m)
    then have "(\<lambda>j. (if j < m then vec v j else 0) + vec v m * unit_vec m j) \<in> lspan T"
      by (intro lspan_axpy assms(1)) auto
    also have "(\<lambda>j. (if j < m then vec v j else 0) + vec v m * unit_vec m j)
        = (\<lambda>j. if j < Suc m then vec v j else 0)"
      by (rule ext) (auto simp: unit_vec_def less_Suc_eq)
    finally show ?case .
  qed (simp add: lspan.zero)
  moreover have "(\<lambda>j. if j < n then vec v j else 0) = vec v"
    using assms(2) by (auto simp: vec_def fun_eq_iff)
  ultimately show ?thesis by force
qed

section \<open>Linear predicates on (coding vector, data) pairs\<close>

text \<open>
  What the decoder keeps is closed under its two row operations in both directions. The
  contract is stated once; being a combination of given sources and lying in a span are its
  two interpretations.
\<close>

locale linear_pred =
  fixes K len :: nat and Q :: "bytes \<Rightarrow> bytes \<Rightarrow> bool"
  assumes axpy_iff: "length v = K \<Longrightarrow> length d = len \<Longrightarrow> length rv = K \<Longrightarrow> length rd = len \<Longrightarrow> Q rv rd
      \<Longrightarrow> Q (axpy v rv c) (axpy d rd c) \<longleftrightarrow> Q v d"
    and scale_iff: "length v = K \<Longrightarrow> length d = len \<Longrightarrow> c \<noteq> 0 \<Longrightarrow> Q (scale v c) (scale d c) \<longleftrightarrow> Q v d"
    and zero: "Q (replicate K 0) (replicate len 0)"
begin

lemma reduce_iff:
  "reduce_by rs v d = Some (v', d') \<Longrightarrow> length v = K \<Longrightarrow> length d = len
   \<Longrightarrow> \<forall>((rv, rd), p) \<in> set rs. length rv = K \<and> length rd = len \<and> Q rv rd \<Longrightarrow> Q v' d' \<longleftrightarrow> Q v d"
  by (induction rs v d rule: reduce_by.induct) (auto simp: axpy_iff split: option.splits if_splits)

lemma recode_pass_closed:
  "recode_pass gen ps cv d g = (cv', d', g') \<Longrightarrow> length cv = K \<Longrightarrow> length d = len \<Longrightarrow> Q cv d
   \<Longrightarrow> \<forall>p \<in> set ps. length (coding_vector p) = K \<and> length (data p) = len \<and> Q (coding_vector p) (data p)
   \<Longrightarrow> length cv' = K \<and> length d' = len \<and> Q cv' d'"
  by (induction gen ps cv d g rule: recode_pass.induct) (auto simp: axpy_iff split: prod.splits)

lemma recode_loop_closed:
  assumes "recode_loop gen ps K len g = Some (p, g')"
    and "\<forall>p \<in> set ps. length (coding_vector p) = K \<and> length (data p) = len \<and> Q (coding_vector p) (data p)"
  shows "length (coding_vector p) = K \<and> length (data p) = len \<and> Q (coding_vector p) (data p) \<and> nonzero (coding_vector p)"
proof -
  let ?P = "\<lambda>gen' ps' K' len' g x. ps' = ps \<longrightarrow> K' = K \<longrightarrow> len' = len \<longrightarrow>
    length (coding_vector (fst x)) = K \<and> length (data (fst x)) = len
    \<and> Q (coding_vector (fst x)) (data (fst x)) \<and> nonzero (coding_vector (fst x))"
  have "?P gen ps K len g (p, g')"
    by (rule recode_loop.raw_induct [where P = ?P, OF _ assms(1)])
      (auto dest: recode_pass_closed [OF _ _ _ zero assms(2)] split: prod.splits if_splits)
  then show ?thesis by simp
qed

lemma eliminate_iff:
  "eliminate p v d rs = Some rs' \<Longrightarrow> length v = K \<Longrightarrow> length d = len \<Longrightarrow> Q v d
   \<Longrightarrow> \<forall>(rv, rd) \<in> set rs. length rv = K \<and> length rd = len
   \<Longrightarrow> (\<forall>(rv, rd) \<in> set rs'. Q rv rd) \<longleftrightarrow> (\<forall>(rv, rd) \<in> set rs. Q rv rd)"
  by (induction p v d rs arbitrary: rs' rule: eliminate.induct) (auto simp: axpy_iff split: option.splits if_splits)

end

definition combines :: "bytes list \<Rightarrow> nat \<Rightarrow> bytes \<Rightarrow> bytes \<Rightarrow> bool" where
  "combines S len v d \<longleftrightarrow> (\<forall>x < len. GF (d ! x) = (\<Sum>j < length S. vec v j * GF (S ! j ! x)))"

interpretation comb: linear_pred "length S" len "combines S len"
proof
  fix v d rv rd :: bytes and c
  assume len: "length v = length S" "length d = len" "length rv = length S" "length rd = len" and c: "combines S len rv rd"
  have "(\<Sum>j < length S. vec (axpy v rv c) j * GF (S ! j ! x))
      = (\<Sum>j < length S. vec v j * GF (S ! j ! x)) + GF c * GF (rd ! x)" if "x < len" for x
    using c that len by (simp add: vec_axpy combines_def algebra_simps sum.distrib sum_distrib_left)
  with len show "combines S len (axpy v rv c) (axpy d rd c) \<longleftrightarrow> combines S len v d"
    by (simp add: combines_def gf_simps)
next
  fix v d :: bytes and c
  assume len: "length v = length S" "length d = len" and c: "(c :: u8) \<noteq> 0"
  have "(\<Sum>j < length S. vec (scale v c) j * GF (S ! j ! x)) = GF c * (\<Sum>j < length S. vec v j * GF (S ! j ! x))" for x
    by (simp add: vec_scale algebra_simps sum_distrib_left)
  with len c show "combines S len (scale v c) (scale d c) \<longleftrightarrow> combines S len v d"
    by (simp add: combines_def gf_simps)
qed (simp add: combines_def gf_simps)

definition spanned :: "gfvec set \<Rightarrow> bytes \<Rightarrow> bytes \<Rightarrow> bool" where
  "spanned T v d \<longleftrightarrow> vec v \<in> lspan T"

interpretation spn: linear_pred K len "spanned T"
proof
  fix v d rv rd :: bytes and c
  assume len: "length v = K" "length d = len" "length rv = K" "length rd = len" and s: "spanned T rv rd"
  have "(\<lambda>j. (vec v j + GF c * vec rv j) + GF c * vec rv j) = vec v"
    by (simp add: add.assoc)
  then show "spanned T (axpy v rv c) (axpy d rd c) \<longleftrightarrow> spanned T v d"
    using len s lspan_axpy [of "vec rv" T "vec v" "GF c"]
      lspan_axpy [of "vec rv" T "\<lambda>j. vec v j + GF c * vec rv j" "GF c"]
    by (auto simp: spanned_def vec_axpy)
next
  fix v d :: bytes and c :: u8
  assume "c \<noteq> 0"
  then have "(\<lambda>j. inverse (GF c) * (GF c * vec v j)) = vec v" by (simp add: mult.assoc [symmetric])
  then show "spanned T (scale v c) (scale d c) \<longleftrightarrow> spanned T v d"
    using lspan_scale [of "vec v" T "GF c"] lspan_scale [of "\<lambda>j. GF c * vec v j" T "inverse (GF c)"]
    by (auto simp: spanned_def vec_scale)
qed (simp add: spanned_def lspan.zero)

section \<open>The decoder\<close>

definition dec_inv :: "decoder \<Rightarrow> bool" where
  "dec_inv dec \<longleftrightarrow> length (d_pivots dec) = length (d_rows dec)
     \<and> (\<forall>p \<in> set (d_pivots dec). p < d_k dec)
     \<and> (\<forall>(v, d) \<in> set (d_rows dec). length v = d_k dec \<and> length d = d_piece_len dec)
     \<and> (\<forall>i < length (d_rows dec). \<forall>j < length (d_rows dec).
          vec (fst (d_rows dec ! i)) (d_pivots dec ! j) = (if i = j then 1 else 0))"

definition row_vecs :: "decoder \<Rightarrow> gfvec set" where
  "row_vecs dec = (\<lambda>r. vec (fst r)) ` set (d_rows dec)"

lemma dec_inv_distinct: "dec_inv dec \<Longrightarrow> distinct (d_pivots dec)"
  unfolding distinct_conv_nth dec_inv_def by (metis zero_neq_one)

lemma dec_inv_rank: "dec_inv dec \<Longrightarrow> rank dec \<le> d_k dec"
  using card_mono [of "{..<d_k dec}" "set (d_pivots dec)"] dec_inv_distinct [of dec]
  by (auto simp: dec_inv_def rank_def distinct_card)

lemma complete_pivots: "dec_inv dec \<Longrightarrow> is_complete dec \<Longrightarrow> set (d_pivots dec) = {..<d_k dec}"
  using dec_inv_distinct [of dec]
  by (intro card_subset_eq) (auto simp: dec_inv_def is_complete_def rank_def distinct_card)

lemma row_length:
  "dec_inv dec \<Longrightarrow> r \<in> set (d_rows dec) \<Longrightarrow> length (fst r) = d_k dec \<and> length (snd r) = d_piece_len dec"
  by (auto simp: dec_inv_def)

text \<open>A combination of the rows that vanishes on every pivot column is zero.\<close>

lemma lspan_rows_expand:
  assumes "dec_inv dec" "x \<in> lspan (row_vecs dec)"
  shows "x j = (\<Sum>i < rank dec. x (d_pivots dec ! i) * vec (fst (d_rows dec ! i)) j)"
proof -
  have "x j - (\<Sum>i < rank dec. x (d_pivots dec ! i) * vec (fst (d_rows dec ! i)) j) = 0"
  proof (rule lspan_linear [OF assms(2), where f = "\<lambda>x. x j - (\<Sum>i < rank dec. x (d_pivots dec ! i) * vec (fst (d_rows dec ! i)) j)"])
    fix v assume "v \<in> row_vecs dec"
    then obtain i0 where "i0 < rank dec" "v = vec (fst (d_rows dec ! i0))"
      by (auto simp: row_vecs_def rank_def in_set_conv_nth)
    with assms(1) show "v j - (\<Sum>i < rank dec. v (d_pivots dec ! i) * vec (fst (d_rows dec ! i)) j) = 0"
      by (simp add: dec_inv_def rank_def if_distrib [of "\<lambda>x. x * _"] sum.delta' cong: if_cong)
  qed (simp_all add: algebra_simps sum.distrib sum_distrib_left)
  then show ?thesis by simp
qed

lemma lspan_rows_zero:
  assumes "dec_inv dec" "x \<in> lspan (row_vecs dec)" "\<forall>p \<in> set (d_pivots dec). x p = 0"
  shows "x = (\<lambda>_. 0)"
proof
  fix j
  have "i < rank dec \<Longrightarrow> x (d_pivots dec ! i) = 0" for i
    using assms(1,3) by (auto simp: dec_inv_def rank_def)
  then show "x j = 0" by (subst lspan_rows_expand [OF assms(1,2)]) simp
qed

lemma complete_unit:
  assumes "dec_inv dec" "is_complete dec" "i < rank dec"
  shows "vec (fst (d_rows dec ! i)) = unit_vec (d_pivots dec ! i)"
proof
  fix j
  show "vec (fst (d_rows dec ! i)) j = unit_vec (d_pivots dec ! i) j"
  proof (cases "j < d_k dec")
    case True
    then obtain m where "m < rank dec" "j = d_pivots dec ! m"
      using complete_pivots [OF assms(1,2)] assms(1)
      by (metis dec_inv_def in_set_conv_nth lessThan_iff rank_def)
    with assms dec_inv_distinct [OF assms(1)] show ?thesis
      by (auto simp: dec_inv_def rank_def unit_vec_def nth_eq_iff_index_eq)
  next
    case False
    with assms show ?thesis
      using row_length [OF assms(1) nth_mem, of i]
      by (auto simp: vec_def unit_vec_def rank_def dec_inv_def)
  qed
qed

lemma complete_iff_units:
  assumes "dec_inv dec"
  shows "is_complete dec \<longleftrightarrow> (\<forall>j < d_k dec. unit_vec j \<in> lspan (row_vecs dec))"
proof
  assume c: "is_complete dec"
  have "unit_vec (d_pivots dec ! i) \<in> row_vecs dec" if "i < rank dec" for i
    using complete_unit [OF assms c that] that unfolding row_vecs_def rank_def by (metis (mono_tags, lifting) image_eqI nth_mem)
  then have "p \<in> set (d_pivots dec) \<Longrightarrow> unit_vec p \<in> row_vecs dec" for p
    using assms by (auto simp: in_set_conv_nth dec_inv_def rank_def)
  then show "\<forall>j < d_k dec. unit_vec j \<in> lspan (row_vecs dec)"
    using complete_pivots [OF assms c] by (auto intro: lspan_base)
next
  assume units: "\<forall>j < d_k dec. unit_vec j \<in> lspan (row_vecs dec)"
  have "j \<in> set (d_pivots dec)" if "j < d_k dec" for j
  proof (rule ccontr)
    assume "j \<notin> set (d_pivots dec)"
    then have "\<forall>p \<in> set (d_pivots dec). unit_vec j p = 0" by (auto simp: unit_vec_def)
    with lspan_rows_zero [OF assms, of "unit_vec j"] units that have "unit_vec j j = 0" by simp
    then show False by (simp add: unit_vec_def)
  qed
  then have "{..<d_k dec} \<subseteq> set (d_pivots dec)" by auto
  then have "d_k dec \<le> rank dec"
    using card_mono [of "set (d_pivots dec)" "{..<d_k dec}"] dec_inv_distinct [OF assms] assms
    by (auto simp: distinct_card dec_inv_def rank_def)
  with dec_inv_rank [OF assms] show "is_complete dec" by (simp add: is_complete_def)
qed

lemma axpy_0 [simp]: "axpy v w 0 = v"
  by (simp add: axpy_def)

lemma reduce_by_zero:
  assumes "\<forall>((rv, rd), p) \<in> set rs. length rv = length v \<and> length rd = length d \<and> p < length v
      \<and> (\<forall>q \<in> Z \<union> snd ` set rs. vec rv q = (if q = p then 1 else 0))"
    and "distinct (map snd rs)" "Z \<inter> snd ` set rs = {}" "\<forall>q \<in> Z. vec v q = 0"
  shows "\<exists>v' d'. reduce_by rs v d = Some (v', d') \<and> length v' = length v \<and> length d' = length d
      \<and> (\<forall>q \<in> Z \<union> snd ` set rs. vec v' q = 0)"
  using assms
proof (induction rs v d arbitrary: Z rule: reduce_by.induct)
  case (2 rv rd p rest v d)
  have p: "p < length v" and len: "length rv = length v" "length rd = length d" using "2.prems"(1) by auto
  have rv: "vec rv q = (if q = p then 1 else 0)" if "q \<in> insert p Z" for q
    using "2.prems"(1,3) that by auto
  have vp: "vec v p = GF (v ! p)" using p by (simp add: vec_def)
  let ?v = "axpy v rv (v ! p)" and ?d = "axpy d rd (v ! p)"
  have z: "\<forall>q \<in> insert p Z. vec ?v q = 0"
    using "2.prems"(4) rv vp len by (auto simp: vec_axpy)
  have prem: "\<forall>((rv', rd'), p') \<in> set rest. length rv' = length v \<and> length rd' = length d \<and> p' < length v
      \<and> (\<forall>q \<in> insert p Z \<union> snd ` set rest. vec rv' q = (if q = p' then 1 else 0))"
    using "2.prems"(1) by auto
  have step: "reduce_by (((rv, rd), p) # rest) v d = reduce_by rest ?v ?d"
    using p by (simp add: index_def)
  have "\<exists>v' d'. reduce_by rest ?v ?d = Some (v', d') \<and> length v' = length ?v \<and> length d' = length ?d
      \<and> (\<forall>q \<in> insert p Z \<union> snd ` set rest. vec v' q = 0)"
  proof (cases "v ! p = 0")
    case True
    show ?thesis
      using "2.IH"(2) [of "v ! p" "insert p Z"] True z p len "2.prems"(2,3) prem by (auto simp: index_def)
  next
    case False
    show ?thesis
      using "2.IH"(1) [of "v ! p" "insert p Z"] False z p len "2.prems"(2,3) prem by (auto simp: index_def)
  qed
  then show ?case unfolding step by auto
qed auto

lemma eliminate_map:
  "\<forall>(rv, rd) \<in> set rs. p < length rv \<Longrightarrow>
   eliminate p v d rs = Some (map (\<lambda>(rv, rd). (axpy rv v (rv ! p), axpy rd d (rv ! p))) rs)"
  by (induction p v d rs rule: eliminate.induct) (auto simp: index_def)

lemma position_None: "position P v = None \<longleftrightarrow> \<not> list_ex P v"
  by (induction v) auto

lemma position_Some: "position P v = Some i \<Longrightarrow> i < length v \<and> P (v ! i)"
  by (induction v arbitrary: i) (auto split: if_splits)

text \<open>What \<open>add_piece\<close> does on a well-shaped piece.\<close>

lemma reduce_rows:
  assumes inv: "dec_inv dec" and len: "length v = d_k dec" "length d = d_piece_len dec"
  obtains v' d' where "reduce_by (zip (d_rows dec) (d_pivots dec)) v d = Some (v', d')"
    "length v' = d_k dec" "length d' = d_piece_len dec" "\<forall>q \<in> set (d_pivots dec). vec v' q = 0"
proof -
  let ?rs = "zip (d_rows dec) (d_pivots dec)"
  have l: "length (d_pivots dec) = length (d_rows dec)" using inv by (simp add: dec_inv_def)
  then have snds: "map snd ?rs = d_pivots dec" by simp
  then have set_snds: "snd ` set ?rs = set (d_pivots dec)" by (metis list.set_map)
  have "\<forall>((rv, rd), p) \<in> set ?rs. length rv = length v \<and> length rd = length d \<and> p < length v
      \<and> (\<forall>q \<in> {} \<union> snd ` set ?rs. vec rv q = (if q = p then 1 else 0))"
  proof (clarify, unfold set_snds)
    fix rv rd p assume "((rv, rd), p) \<in> set ?rs"
    then obtain i where i: "i < length (d_rows dec)" "d_rows dec ! i = (rv, rd)" "p = d_pivots dec ! i"
      using l by (auto simp: set_zip)
    have "\<forall>q \<in> {} \<union> set (d_pivots dec). vec rv q = (if q = p then 1 else 0)"
      using inv i l dec_inv_distinct [OF inv]
      by (auto simp: dec_inv_def in_set_conv_nth nth_eq_iff_index_eq) (metis fst_conv)+
    then show "length rv = length v \<and> length rd = length d \<and> p < length v
        \<and> (\<forall>q \<in> {} \<union> set (d_pivots dec). vec rv q = (if q = p then 1 else 0))"
      using row_length [OF inv nth_mem, of i] nth_mem [of i "d_pivots dec"] i l inv len by (simp add: dec_inv_def)
  qed
  from reduce_by_zero [OF this] obtain v' d' where "reduce_by ?rs v d = Some (v', d')"
    "length v' = length v" "length d' = length d" "\<forall>q \<in> {} \<union> snd ` set ?rs. vec v' q = 0"
    using dec_inv_distinct [OF inv] by (auto simp: snds)
  then show ?thesis using len by (intro that) (simp_all only: set_snds, auto)
qed

abbreviation eliminated :: "nat \<Rightarrow> bytes \<Rightarrow> bytes \<Rightarrow> bytes \<times> bytes \<Rightarrow> bytes \<times> bytes" where
  "eliminated p v d \<equiv> \<lambda>(rv, rd). (axpy rv v (rv ! p), axpy rd d (rv ! p))"

lemma add_row_inv:
  assumes inv: "dec_inv dec" and len: "length v = d_k dec" "length d = d_piece_len dec"
    and p: "p < d_k dec" "vec v p = 1" and z: "\<forall>q \<in> set (d_pivots dec). vec v q = 0"
  shows "dec_inv (dec\<lparr>d_rows := map (eliminated p v d) (d_rows dec) @ [(v, d)],
                      d_pivots := d_pivots dec @ [p]\<rparr>)"
proof -
  let ?rs = "map (eliminated p v d) (d_rows dec) @ [(v, d)]" and ?n = "length (d_rows dec)"
  have l: "length (d_pivots dec) = ?n" using inv by (simp add: dec_inv_def)
  have row: "vec (fst (?rs ! i)) j = vec (fst (d_rows dec ! i)) j + vec (fst (d_rows dec ! i)) p * vec v j"
    if "i < ?n" for i j
    using row_length [OF inv nth_mem [OF that]] that len(1) p(1)
    by (cases "d_rows dec ! i") (simp add: nth_append vec_axpy vec_def)
  have "vec (fst (?rs ! i)) ((d_pivots dec @ [p]) ! j) = (if i = j then 1 else 0)"
    if "i < Suc ?n" "j < Suc ?n" for i j
    using that inv p(2) z l
    by (auto simp: less_Suc_eq row) (auto simp: dec_inv_def nth_append)
  moreover have "length v' = d_k dec \<and> length d' = d_piece_len dec" if "(v', d') \<in> set ?rs" for v' d'
    using that len row_length [OF inv] by force
  ultimately show ?thesis using inv p(1) by (auto simp: dec_inv_def)
qed

text \<open>What \<open>add_piece\<close> does on a piece of the right shape.\<close>

lemma add_piece_reduced:
  assumes inv: "dec_inv dec" and inc: "\<not> is_complete dec"
    and shape: "length (coding_vector p) = d_k dec" "length (data p) = d_piece_len dec"
    and red: "reduce_by (zip (d_rows dec) (d_pivots dec)) (coding_vector p) (data p) = Some (v, d)"
    and len: "length v = d_k dec"
  shows "\<not> nonzero v \<Longrightarrow> add_piece dec p = Some (Inr (False, dec))"
    and "nonzero v \<Longrightarrow> \<exists>q iv. q < d_k dec \<and> iv \<noteq> 0 \<and> vec (scale v iv) q = 1 \<and>
      add_piece dec p = Some (Inr (True,
        dec\<lparr>d_rows := map (eliminated q (scale v iv) (scale d iv)) (d_rows dec) @ [(scale v iv, scale d iv)],
            d_pivots := d_pivots dec @ [q]\<rparr>))"
proof -
  show "\<not> nonzero v \<Longrightarrow> add_piece dec p = Some (Inr (False, dec))"
    using inc shape red by (simp add: add_piece_def position_None [symmetric] nonzero_def)
  assume "nonzero v"
  then obtain q where q: "position (\<lambda>c. c \<noteq> 0) v = Some q" "q < d_k dec" "v ! q \<noteq> 0"
    using position_Some [of "\<lambda>c. c \<noteq> 0" v] position_None [of "\<lambda>c. c \<noteq> 0" v] len
    by (cases "position (\<lambda>c. c \<noteq> 0) v") (auto simp: nonzero_def)
  then obtain iv where iv: "gf_inv (v ! q) = Some iv" "gf_mul (v ! q) iv = 1"
    using gf_mul_inv by blast
  then have "iv \<noteq> 0" by (metis gf_mul_0(2) zero_neq_one)
  moreover have "vec (scale v iv) q = 1"
    using q len iv(2) by (simp add: vec_def gf_simps GF_mul [symmetric] gf_mul_comm)
  moreover have "\<forall>(rv, rd) \<in> set (d_rows dec). q < length rv" using row_length [OF inv] q(2) by auto
  ultimately show "\<exists>q iv. q < d_k dec \<and> iv \<noteq> 0 \<and> vec (scale v iv) q = 1 \<and>
      add_piece dec p = Some (Inr (True,
        dec\<lparr>d_rows := map (eliminated q (scale v iv) (scale d iv)) (d_rows dec) @ [(scale v iv, scale d iv)],
            d_pivots := d_pivots dec @ [q]\<rparr>))"
    using inv inc shape red q iv
    by (intro exI [of _ q] exI [of _ iv]) (simp add: add_piece_def eliminate_map Let_def dec_inv_def)
qed

context linear_pred
begin

lemma add_row_iff:
  assumes "length v = K" "length d = len" "\<forall>(rv, rd) \<in> set rs. length rv = K \<and> length rd = len \<and> p < K"
    and "reduce_by rs0 cv dat = Some (v, d)" "\<forall>(r, p) \<in> set rs0. r \<in> set rs" "iv \<noteq> 0"
    and "length cv = K" "length dat = len"
  shows "(\<forall>(rv, rd) \<in> set (map (eliminated p (scale v iv) (scale d iv)) rs @ [(scale v iv, scale d iv)]). Q rv rd)
    \<longleftrightarrow> Q cv dat \<and> (\<forall>(rv, rd) \<in> set rs. Q rv rd)"
proof -
  let ?v = "scale v iv" and ?d = "scale d iv"
  have el: "eliminate p ?v ?d rs = Some (map (eliminated p ?v ?d) rs)"
    using assms(3) by (intro eliminate_map) auto
  have "Q ?v ?d \<Longrightarrow> (\<forall>(rv, rd) \<in> set (map (eliminated p ?v ?d) rs). Q rv rd) \<longleftrightarrow> (\<forall>(rv, rd) \<in> set rs. Q rv rd)"
    using assms(1-3) by (intro eliminate_iff [OF el]) auto
  moreover have "\<forall>(rv, rd) \<in> set rs. Q rv rd \<Longrightarrow> Q v d \<longleftrightarrow> Q cv dat"
    using assms(3,5,7,8) by (intro reduce_iff [OF assms(4)]) fastforce+
  moreover have "Q ?v ?d \<longleftrightarrow> Q v d" using assms(1,2,6) by (rule scale_iff)
  ultimately show ?thesis by auto
qed

end

lemma rows_lift:
  assumes inv: "dec_inv dec" and "linear_pred (d_k dec) (d_piece_len dec) Q"
    and shape: "length (coding_vector p) = d_k dec" "length (data p) = d_piece_len dec"
    and add: "add_piece dec p = Some (Inr (True, dec'))" and inc: "\<not> is_complete dec"
  shows "(\<forall>(v, d) \<in> set (d_rows dec'). Q v d) \<longleftrightarrow> Q (coding_vector p) (data p) \<and> (\<forall>(v, d) \<in> set (d_rows dec). Q v d)"
proof -
  obtain v d where red: "reduce_by (zip (d_rows dec) (d_pivots dec)) (coding_vector p) (data p) = Some (v, d)"
    and len: "length v = d_k dec" "length d = d_piece_len dec"
    using reduce_rows [OF inv shape] by blast
  note cases = add_piece_reduced [OF inv inc shape red len(1)]
  have "nonzero v" using cases(1) add by auto
  then obtain q iv where "q < d_k dec" "iv \<noteq> 0"
    "d_rows dec' = map (eliminated q (scale v iv) (scale d iv)) (d_rows dec) @ [(scale v iv, scale d iv)]"
    using cases(2) add by auto
  moreover from this(1) have "\<forall>(rv, rd) \<in> set (d_rows dec). length rv = d_k dec \<and> length rd = d_piece_len dec \<and> q < d_k dec"
    using row_length [OF inv] by auto
  moreover have "\<forall>(r, p) \<in> set (zip (d_rows dec) (d_pivots dec)). r \<in> set (d_rows dec)"
    by (auto dest: set_zip_leftD)
  ultimately show ?thesis
    using linear_pred.add_row_iff [OF assms(2) len _ red _ _ shape] by simp
qed

lemma reduce_spanned:
  assumes inv: "dec_inv dec"
    and shape: "length cv = d_k dec" "length dat = d_piece_len dec"
    and red: "reduce_by (zip (d_rows dec) (d_pivots dec)) cv dat = Some (v, d)"
  shows "vec v \<in> lspan (row_vecs dec) \<longleftrightarrow> vec cv \<in> lspan (row_vecs dec)"
proof -
  have "length rv = d_k dec \<and> length rd = d_piece_len dec \<and> spanned (row_vecs dec) rv rd"
    if "(rv, rd) \<in> set (d_rows dec)" for rv rd
    using row_length [OF inv that] that by (auto simp: spanned_def row_vecs_def intro!: lspan_base rev_image_eqI)
  then have "spanned (row_vecs dec) v d \<longleftrightarrow> spanned (row_vecs dec) cv dat"
    using shape by (intro spn.reduce_iff [OF red]) (auto dest: set_zip_leftD)
  then show ?thesis by (simp add: spanned_def)
qed

lemma add_piece_correct:
  assumes inv: "dec_inv dec"
    and shape: "length (coding_vector p) = d_k dec" "length (data p) = d_piece_len dec"
  obtains b dec' where "add_piece dec p = Some (Inr (b, dec'))" "dec_inv dec'"
    "d_k dec' = d_k dec" "d_piece_len dec' = d_piece_len dec" "rank dec' = rank dec + of_bool b"
    "b \<longleftrightarrow> vec (coding_vector p) \<notin> lspan (row_vecs dec)"
    "lspan (row_vecs dec') = lspan (insert (vec (coding_vector p)) (row_vecs dec))"
proof (cases "vec (coding_vector p) \<in> lspan (row_vecs dec)")
  case True
  have "add_piece dec p = Some (Inr (False, dec))"
  proof (cases "is_complete dec")
    case False
    obtain v d where red: "reduce_by (zip (d_rows dec) (d_pivots dec)) (coding_vector p) (data p) = Some (v, d)"
      and len: "length v = d_k dec" and z: "\<forall>q \<in> set (d_pivots dec). vec v q = 0"
      using reduce_rows [OF inv shape] by blast
    from True have "vec v \<in> lspan (row_vecs dec)" using reduce_spanned [OF inv shape red] by simp
    from lspan_rows_zero [OF inv this z] add_piece_reduced(1) [OF inv False shape red len]
    show ?thesis by (simp add: vec_eq_0_iff)
  qed (simp add: add_piece_def shape)
  moreover have "lspan (row_vecs dec) = lspan (insert (vec (coding_vector p)) (row_vecs dec))"
    using True by (intro lspan_eqI) (auto intro: lspan_base)
  ultimately show ?thesis using True inv by - (rule that [of False dec], simp_all only: of_bool_eq add_0_right simp_thms)
next
  case False
  then have inc: "\<not> is_complete dec"
    using complete_iff_units [OF inv] vec_in_lspan_units [OF _ shape(1)] by blast
  obtain v d where red: "reduce_by (zip (d_rows dec) (d_pivots dec)) (coding_vector p) (data p) = Some (v, d)"
    and len: "length v = d_k dec" "length d = d_piece_len dec" and z: "\<forall>q \<in> set (d_pivots dec). vec v q = 0"
    using reduce_rows [OF inv shape] by blast
  from False have "nonzero v"
    using reduce_spanned [OF inv shape red] vec_eq_0_iff [of v] lspan.zero [of "row_vecs dec"] by auto
  from add_piece_reduced(2) [OF inv inc shape red len(1) this] obtain q iv dec'
    where q: "q < d_k dec" "vec (scale v iv) q = 1" and add: "add_piece dec p = Some (Inr (True, dec'))"
      and dec': "dec' = dec\<lparr>d_rows := map (eliminated q (scale v iv) (scale d iv)) (d_rows dec) @ [(scale v iv, scale d iv)],
            d_pivots := d_pivots dec @ [q]\<rparr>" by blast
  have inv': "dec_inv dec'"
    unfolding dec' using len z q by (intro add_row_inv [OF inv]) (auto simp: vec_scale)
  have "linear_pred (d_k dec) (d_piece_len dec) (spanned T)" for T by unfold_locales
  note lift = rows_lift [OF inv this shape add inc, unfolded spanned_def]
  have rows: "(\<forall>(v, d) \<in> set (d_rows x). vec v \<in> T) \<longleftrightarrow> row_vecs x \<subseteq> T" for x T
    by (auto simp: row_vecs_def)
  have base: "T \<subseteq> lspan T" for T by (auto intro: lspan_base)
  have "insert (vec (coding_vector p)) (row_vecs dec) \<subseteq> lspan (row_vecs dec')"
    using lift [of "row_vecs dec'"] base [of "row_vecs dec'"] by (simp only: rows insert_subset)
  moreover have "row_vecs dec' \<subseteq> lspan (insert (vec (coding_vector p)) (row_vecs dec))"
    using lift [of "insert (vec (coding_vector p)) (row_vecs dec)"] base [of "insert (vec (coding_vector p)) (row_vecs dec)"]
    by (simp only: rows insert_subset simp_thms)
  ultimately have "lspan (row_vecs dec') = lspan (insert (vec (coding_vector p)) (row_vecs dec))"
    by (intro lspan_eqI)
  moreover have "d_k dec' = d_k dec" "d_piece_len dec' = d_piece_len dec" "rank dec' = rank dec + 1"
    by (simp_all add: dec' rank_def)
  ultimately show ?thesis
    using False inv' add by - (rule that [of True dec'], simp_all only: of_bool_eq simp_thms)
qed

definition piece_shape :: "nat \<Rightarrow> nat \<Rightarrow> coded_piece \<Rightarrow> bool" where
  "piece_shape n len p \<longleftrightarrow> length (coding_vector p) = n \<and> length (data p) = len"

definition cv_span :: "coded_piece list \<Rightarrow> gfvec set" where
  "cv_span ps = lspan ((\<lambda>p. vec (coding_vector p)) ` set ps)"

lemma lspan_Un_cong: "lspan S = lspan S' \<Longrightarrow> lspan (S \<union> T) = lspan (S' \<union> T)"
proof -
  have sub: "A \<subseteq> lspan (B \<union> T)" if "lspan A = lspan B" for A B
  proof -
    have "A \<subseteq> lspan A" by (auto intro: lspan_base)
    also have "\<dots> \<subseteq> lspan (B \<union> T)" unfolding that by (intro lspan_mono) simp
    finally show ?thesis .
  qed
  have T: "T \<subseteq> lspan (B \<union> T)" for B by (auto intro: lspan_base)
  assume "lspan S = lspan S'"
  from sub [OF this] sub [OF this [symmetric]] show ?thesis
    by (intro lspan_eqI Un_least T) assumption+
qed

text \<open>Feeding well-shaped pieces never fails; the rows keep the span of everything fed.\<close>

lemma feed_correct:
  assumes "dec_inv dec" "\<forall>p \<in> set ps. piece_shape (d_k dec) (d_piece_len dec) p"
  shows "\<exists>dec'. feed dec ps = Some (Inr dec') \<and> dec_inv dec' \<and> d_k dec' = d_k dec \<and> d_piece_len dec' = d_piece_len dec
    \<and> lspan (row_vecs dec') = lspan (row_vecs dec \<union> (\<lambda>p. vec (coding_vector p)) ` set ps)"
  using assms
proof (induction ps arbitrary: dec)
  case (Cons p ps)
  have shape: "length (coding_vector p) = d_k dec" "length (data p) = d_piece_len dec"
    using Cons.prems(2) by (auto simp: piece_shape_def)
  obtain b dec1 where add: "add_piece dec p = Some (Inr (b, dec1))" and inv1: "dec_inv dec1"
    "d_k dec1 = d_k dec" "d_piece_len dec1 = d_piece_len dec"
    and span: "lspan (row_vecs dec1) = lspan (insert (vec (coding_vector p)) (row_vecs dec))"
    by (rule add_piece_correct [OF Cons.prems(1) shape])
  have "\<forall>p \<in> set ps. piece_shape (d_k dec1) (d_piece_len dec1) p" using Cons.prems(2) inv1 by simp
  from Cons.IH [OF inv1(1) this] add inv1(2,3) lspan_Un_cong [OF span] show ?case by simp
qed auto

lemma feed_combines:
  assumes "dec_inv dec" "\<forall>p \<in> set ps. piece_shape (d_k dec) (d_piece_len dec) p"
    and "length S = d_k dec" "len = d_piece_len dec"
    and "\<forall>(v, d) \<in> set (d_rows dec). combines S len v d"
    and "\<forall>p \<in> set ps. combines S len (coding_vector p) (data p)" "feed dec ps = Some (Inr dec')"
  shows "\<forall>(v, d) \<in> set (d_rows dec'). combines S len v d"
  using assms
proof (induction ps arbitrary: dec)
  case (Cons p ps)
  have shape: "length (coding_vector p) = d_k dec" "length (data p) = d_piece_len dec"
    using Cons.prems(2) by (auto simp: piece_shape_def)
  obtain b dec1 where add: "add_piece dec p = Some (Inr (b, dec1))" and inv1: "dec_inv dec1"
    "d_k dec1 = d_k dec" "d_piece_len dec1 = d_piece_len dec" and r: "rank dec1 = rank dec + of_bool b"
    by (rule add_piece_correct [OF Cons.prems(1) shape])
  have "\<forall>(v, d) \<in> set (d_rows dec1). combines S len v d"
  proof (cases b)
    case True
    then have "\<not> is_complete dec" using add shape by (auto simp: add_piece_def)
    moreover have "linear_pred (d_k dec) (d_piece_len dec) (combines S len)"
      using comb.linear_pred_axioms [of S len] Cons.prems(3,4) by simp
    ultimately show ?thesis
      using rows_lift [OF Cons.prems(1) _ shape, of "combines S len" dec1] add True Cons.prems(5,6) by simp
  next
    case False
    then have "dec1 = dec"
      using add by (auto simp: add_piece_def Let_def split: if_splits option.splits)
    then show ?thesis using Cons.prems(5) by simp
  qed
  with Cons.IH [of dec1] inv1 Cons.prems add show ?case by simp
qed auto

lemma sort_key_map: "sort_key f (map g xs) = map g (sort_key (\<lambda>x. f (g x)) xs)"
proof -
  have "insort_key f (g x) (map g ys) = map g (insort_key (\<lambda>x. f (g x)) x ys)" for x ys
    by (induction ys) simp_all
  then show ?thesis by (induction xs) simp_all
qed

lemma decode_complete:
  assumes inv: "dec_inv dec" and c: "is_complete dec" and k: "d_k dec = length S"
    and S: "\<forall>s \<in> set S. length s = d_piece_len dec"
    and rows: "\<forall>(v, d) \<in> set (d_rows dec). combines S (d_piece_len dec) v d"
  shows "decode dec = Inr S"
proof -
  have l: "length (d_pivots dec) = length (d_rows dec)" using inv by (simp add: dec_inv_def)
  have row: "snd (d_rows dec ! i) = S ! (d_pivots dec ! i)" if i: "i < rank dec" for i
  proof (rule nth_equalityI)
    let ?p = "d_pivots dec ! i"
    have p: "?p < length S" using inv i l k by (simp add: dec_inv_def rank_def)
    have mem: "d_rows dec ! i \<in> set (d_rows dec)" using i by (simp add: rank_def)
    show len: "length (snd (d_rows dec ! i)) = length (S ! ?p)"
      using row_length [OF inv mem] S p by simp
    fix x assume "x < length (snd (d_rows dec ! i))"
    then have x: "x < d_piece_len dec" using row_length [OF inv mem] by simp
    have "GF (snd (d_rows dec ! i) ! x) = (\<Sum>j < length S. vec (fst (d_rows dec ! i)) j * GF (S ! j ! x))"
      using rows mem x by (auto simp: combines_def split: prod.splits)
    also have "\<dots> = GF (S ! ?p ! x)"
      using p by (simp add: complete_unit [OF inv c i] unit_vec_def if_distrib [of "\<lambda>y. y * _"] sum.delta' cong: if_cong)
    finally show "snd (d_rows dec ! i) ! x = S ! ?p ! x" by simp
  qed
  have "zip (d_pivots dec) (map snd (d_rows dec)) = map (\<lambda>p. (p, S ! p)) (d_pivots dec)"
    using l row by (intro nth_equalityI) (auto simp: rank_def)
  moreover have "sort (d_pivots dec) = [0..<length S]"
    using complete_pivots [OF inv c] dec_inv_distinct [OF inv] k
    by (intro sorted_distinct_set_unique) (auto simp: atLeast0LessThan)
  ultimately show ?thesis using c by (simp add: decode_def sort_key_map comp_def map_nth)
qed

section \<open>Encoding and recoding\<close>

text \<open>The target is never below \<open>2k + 16\<close>.\<close>

lemma target_pieces_bound:
  assumes "target_pieces k = Some n"
  shows "0 < unat k \<and> 2 * unat k + 16 \<le> unat n \<and> unat n = unat k * (2 + unat (div_ceil16 k))"
proof -
  obtain c where k: "k \<noteq> 0" and c: "checked_add 2 (div_ceil16 k) = Some c" and m: "checked_mul k c = Some n"
    using assms by (auto simp: target_pieces_def split: if_splits option.splits)
  have n: "unat n = unat k * (2 + unat (div_ceil16 k))"
    using c m by (auto simp: checked_add_Some_iff checked_mul_Some_iff)
  have kpos: "0 < unat k" using k by (simp add: unat_gt_0)
  have "Suc (16 div unat k) mod 18446744073709551616 = Suc (16 div unat k)"
    by (rule mod_less) (use div_le_dividend [of 16 "unat k"] in linarith)
  then have ceil: "unat (div_ceil16 k) = (if 16 mod unat k = 0 then 16 div unat k else 16 div unat k + 1)"
    by (simp add: div_ceil16_def unat_eq_zero [symmetric] unat_mod unat_word_ariths(1) unat_div del: unat_eq_zero)
  define q r where qr: "q = 16 div unat k" "r = 16 mod unat k"
  have "unat k * q + r = 16" "r < unat k" unfolding qr using kpos by (simp_all add: mult_div_mod_eq)
  then have "16 \<le> unat k * unat (div_ceil16 k)" by (simp add: ceil qr [symmetric])
  with n k show ?thesis by (simp add: unat_gt_0 algebra_simps)
qed

lemma check_sources_Inr:
  "check_sources S = Inr len \<longleftrightarrow> S \<noteq> [] \<and> 0 < len \<and> (\<forall>s \<in> set S. length s = len)"
  by (auto simp: check_sources_def list_ex_iff split: list.splits if_splits)

text \<open>What \<open>fill_bytes\<close> documents: the whole destination is filled, whatever the state.\<close>

definition fill_bytes_ok :: "('g \<Rightarrow> nat \<Rightarrow> bytes \<times> 'g) \<Rightarrow> bool" where
  "fill_bytes_ok fill \<longleftrightarrow> (\<forall>g n. length (fst (fill g n)) = n)"

lemma sample_vector_props:
  assumes "sample_vector fill n g = Some (v, g')" and "fill_bytes_ok fill"
  shows "length v = n \<and> nonzero v"
proof -
  have "length (fst (v, g')) = n \<and> nonzero (fst (v, g'))"
    by (rule sample_vector.raw_induct [where P = "\<lambda>fill' n g x. fill' = fill \<longrightarrow> length (fst x) = n \<and> nonzero (fst x)",
        OF _ assms(1), THEN mp]) (use assms(2) in \<open>auto simp: fill_bytes_ok_def split: prod.splits if_splits, metis fst_conv\<close>)
  then show ?thesis by simp
qed

lemma sample_vector_returns:
  "nonzero (fst (fill (((\<lambda>g. snd (fill g n)) ^^ m) g) n)) \<Longrightarrow> \<exists>v g'. sample_vector fill n g = Some (v, g')"
proof (induction m arbitrary: g)
  case 0
  then show ?case by (subst sample_vector.simps) (auto split: prod.splits)
next
  case (Suc m)
  obtain v g1 where fill: "fill g n = (v, g1)" by (cases "fill g n")
  have "nonzero (fst (fill (((\<lambda>g. snd (fill g n)) ^^ m) g1) n))"
    using Suc.prems by (simp only: funpow_Suc_right comp_def fill snd_conv)
  from Suc.IH [OF this] fill show ?case by (subst sample_vector.simps) (simp del: funpow.simps)
qed

lemma fold_axpy_sum:
  assumes "\<forall>s \<in> set ss. length s = length d" "x < length d"
  shows "length (fold (\<lambda>(i, s) d. axpy d s (cv ! i)) (enumerate n ss) d) = length d
    \<and> GF (fold (\<lambda>(i, s) d. axpy d s (cv ! i)) (enumerate n ss) d ! x)
      = GF (d ! x) + (\<Sum>j < length ss. GF (cv ! (n + j)) * GF (ss ! j ! x))"
  using assms
proof (induction ss arbitrary: n d)
  case (Cons s ss)
  then show ?case
    using Cons.IH [of "axpy d s (cv ! n)" "Suc n"]
    by (simp add: sum.lessThan_Suc_shift gf_simps add.assoc del: sum.lessThan_Suc)
qed simp

lemma combine_props:
  assumes "\<forall>s \<in> set S. length s = len" "length cv = length S" "0 < len"
  shows "length (combine S cv len) = len \<and> combines S len cv (combine S cv len)"
proof -
  have "GF (combine S cv len ! x) = (\<Sum>j < length S. vec cv j * GF (S ! j ! x))" if "x < len" for x
    using fold_axpy_sum [of S "replicate len 0" x cv 0] assms that by (simp add: combine_def gf_simps vec_def)
  moreover have "length (combine S cv len) = len"
    using fold_axpy_sum [of S "replicate len 0" 0 cv 0] assms by (simp add: combine_def)
  ultimately show ?thesis by (simp add: combines_def)
qed

definition valid_piece :: "bytes list \<Rightarrow> nat \<Rightarrow> coded_piece \<Rightarrow> bool" where
  "valid_piece S len p \<longleftrightarrow> piece_shape (length S) len p \<and> combines S len (coding_vector p) (data p)"

lemma encode_valid:
  assumes fill: "fill_bytes_ok fill"
    and S: "check_sources S = Inr len" and "encode fill S g = Some (Inr p, g')"
  shows "valid_piece S len p \<and> nonzero (coding_vector p)"
proof -
  obtain cv where "sample_vector fill (length S) g = Some (cv, g')"
    and p: "p = \<lparr>coding_vector = cv, data = combine S cv len\<rparr>"
    using S assms(3) by (auto simp: encode_def split: option.splits)
  from sample_vector_props [OF this(1) fill] have "length cv = length S \<and> nonzero cv" .
  then show ?thesis
    using combine_props [of S len cv] S by (simp add: p valid_piece_def piece_shape_def check_sources_Inr)
qed

lemma recode_cases:
  assumes "recode gen held g = Some (Inr p, g')"
  obtains n len where "held \<noteq> []" "\<forall>q \<in> set held. piece_shape n len q" "recode_loop gen held n len g = Some (p, g')"
  using assms
  by (auto simp: recode_def Let_def list_ex_iff piece_shape_def split: list.splits if_splits option.splits)

lemma recode_valid:
  assumes "\<forall>q \<in> set held. valid_piece S len q" "recode gen held g = Some (Inr p, g')"
  shows "valid_piece S len p \<and> nonzero (coding_vector p) \<and> vec (coding_vector p) \<in> cv_span held"
proof -
  obtain n l where "held \<noteq> []" "\<forall>q \<in> set held. piece_shape n l q" and loop: "recode_loop gen held n l g = Some (p, g')"
    by (rule recode_cases [OF assms(2)])
  then have nl: "n = length S" "l = len" using assms(1) by (auto simp: valid_piece_def piece_shape_def neq_Nil_conv)
  let ?T = "(\<lambda>p. vec (coding_vector p)) ` set held"
  have "valid_piece S len p \<and> nonzero (coding_vector p)"
    using comb.recode_loop_closed [OF loop [unfolded nl]] assms(1) by (simp add: valid_piece_def piece_shape_def)
  moreover have "spanned ?T (coding_vector p) (data p)"
    using spn.recode_loop_closed [OF loop [unfolded nl], of ?T] assms(1)
    by (simp add: valid_piece_def piece_shape_def spanned_def lspan_base)
  ultimately show ?thesis by (simp add: cv_span_def spanned_def)
qed

text \<open>The pieces a network can hold: encoded from the sources, or recoded from such pieces.\<close>

inductive minted :: "('g \<Rightarrow> nat \<Rightarrow> bytes \<times> 'g) \<Rightarrow> ('g \<Rightarrow> u8 \<times> 'g) \<Rightarrow> bytes list \<Rightarrow> coded_piece \<Rightarrow> bool"
  for fill gen S where
  encoded: "encode fill S g = Some (Inr p, g') \<Longrightarrow> minted fill gen S p"
| recoded: "\<forall>q \<in> set held. minted fill gen S q \<Longrightarrow> recode gen held g = Some (Inr p, g') \<Longrightarrow> minted fill gen S p"

lemma minted_valid:
  assumes "minted fill gen S p" "check_sources S = Inr len" "fill_bytes_ok fill"
  shows "valid_piece S len p"
  using assms(1)
proof (induction rule: minted.induct)
  case (encoded g p g')
  then show ?case using encode_valid [OF assms(3,2)] by blast
next
  case (recoded held g p g')
  then show ?case using recode_valid [of held S len gen g p g'] by blast
qed

text \<open>The publish path: \<open>encode_n\<close> yields exactly \<open>n\<close> pieces, all of the generation.\<close>

lemma encode_n_minted:
  "encode_n fill S n g = Some (Inr ps, g') \<Longrightarrow> length ps = n \<and> (\<forall>p \<in> set ps. minted fill gen S p)"
proof (induction n arbitrary: g ps)
  case (Suc n)
  then show ?case
    by (auto split: option.splits sum.splits prod.splits intro: minted.encoded)
qed simp

lemma dec_inv_new [simp]: "dec_inv (decoder_new n len)"
  and row_vecs_new [simp]: "row_vecs (decoder_new n len) = {}"
  and rank_new [simp]: "rank (decoder_new n len) = 0"
  and d_k_new [simp]: "d_k (decoder_new n len) = n"
  and d_piece_len_new [simp]: "d_piece_len (decoder_new n len) = len"
  and d_rows_new [simp]: "d_rows (decoder_new n len) = []"
  by (simp_all add: dec_inv_def decoder_new_def row_vecs_def rank_def)

lemma feed_new:
  assumes "\<forall>p \<in> set ps. valid_piece S len p"
  obtains dec where "feed (decoder_new (length S) len) ps = Some (Inr dec)" "dec_inv dec" "d_k dec = length S"
    "d_piece_len dec = len" "lspan (row_vecs dec) = cv_span ps" "\<forall>(v, d) \<in> set (d_rows dec). combines S len v d"
proof -
  let ?new = "decoder_new (length S) len"
  have shape: "\<forall>p \<in> set ps. piece_shape (d_k ?new) (d_piece_len ?new) p" using assms by (simp add: valid_piece_def)
  from feed_correct [OF dec_inv_new this] obtain dec where feed: "feed ?new ps = Some (Inr dec)" "dec_inv dec"
    "d_k dec = length S" "d_piece_len dec = len" "lspan (row_vecs dec) = cv_span ps" by (auto simp: cv_span_def)
  moreover have "\<forall>(v, d) \<in> set (d_rows dec). combines S len v d"
    using assms by (intro feed_combines [OF dec_inv_new shape _ _ _ _ feed(1)]) (simp_all add: valid_piece_def)
  ultimately show ?thesis by (rule that)
qed

lemma feed_rank:
  assumes "dec_inv dec" "\<forall>p \<in> set ps. piece_shape (d_k dec) (d_piece_len dec) p"
    and "\<forall>i < length ps. vec (coding_vector (ps ! i)) \<notin> lspan (row_vecs dec \<union> (\<lambda>p. vec (coding_vector p)) ` set (take i ps))"
    and "feed dec ps = Some (Inr dec')"
  shows "rank dec' = rank dec + length ps"
  using assms
proof (induction ps arbitrary: dec)
  case (Cons p ps)
  have shape: "length (coding_vector p) = d_k dec" "length (data p) = d_piece_len dec"
    using Cons.prems(2) by (auto simp: piece_shape_def)
  obtain b dec1 where add: "add_piece dec p = Some (Inr (b, dec1))" "dec_inv dec1"
    "d_k dec1 = d_k dec" "d_piece_len dec1 = d_piece_len dec" and r: "rank dec1 = rank dec + of_bool b"
    and b: "b \<longleftrightarrow> vec (coding_vector p) \<notin> lspan (row_vecs dec)"
    and span: "lspan (row_vecs dec1) = lspan (insert (vec (coding_vector p)) (row_vecs dec))"
    by (rule add_piece_correct [OF Cons.prems(1) shape])
  have "b" using b Cons.prems(3) [rule_format, of 0] by simp
  moreover have "\<forall>i < length ps. vec (coding_vector (ps ! i)) \<notin> lspan (row_vecs dec1 \<union> (\<lambda>p. vec (coding_vector p)) ` set (take i ps))"
  proof (intro allI impI)
    fix i assume "i < length ps"
    with Cons.prems(3) [rule_format, of "Suc i"]
    show "vec (coding_vector (ps ! i)) \<notin> lspan (row_vecs dec1 \<union> (\<lambda>p. vec (coding_vector p)) ` set (take i ps))"
      using lspan_Un_cong [OF span, of "(\<lambda>p. vec (coding_vector p)) ` set (take i ps)"] by simp
  qed
  ultimately show ?case using Cons.IH [OF add(2)] Cons.prems(2,4) add r by simp
qed simp

text \<open>Held pieces that are all zero vectors only ever combine to the zero vector.\<close>

lemma recode_pass_zero:
  assumes "\<forall>p \<in> set ps. \<not> nonzero (coding_vector p) \<and> length (coding_vector p) = length cv" "\<not> nonzero cv"
    and "recode_pass gen ps cv d g = (cv', d', g')"
  shows "\<not> nonzero cv'"
  using assms
proof (induction gen ps cv d g rule: recode_pass.induct)
  case (2 gen p ps cv d g)
  obtain c g1 where "gen g = (c, g1)" by (cases "gen g")
  moreover have "\<not> nonzero (axpy cv (coding_vector p) c)"
    using "2.prems" vec_axpy [of cv "coding_vector p" c] by (simp add: vec_eq_0_iff [symmetric])
  ultimately show ?case using 2 by simp
qed simp

lemma recode_loop_diverges:
  assumes "\<forall>p \<in> set ps. \<not> nonzero (coding_vector p) \<and> length (coding_vector p) = n"
  shows "recode_loop gen ps n len g = None"
proof (cases "recode_loop gen ps n len g")
  case (Some x)
  have "ps = ps \<longrightarrow> n = n \<longrightarrow> False"
    by (rule recode_loop.raw_induct [where P = "\<lambda>gen' ps' n' len' g x. ps' = ps \<longrightarrow> n' = n \<longrightarrow> False", OF _ Some])
      (use assms in \<open>auto dest: recode_pass_zero [rotated 2] simp: nonzero_def list_ex_iff split: prod.splits if_splits\<close>)
  then show ?thesis by simp
qed simp

section \<open>Properties\<close>

text \<open>
  (C1) Whatever pieces of one generation a receiver collects, encoded from the sources or
  recoded any number of times, feeding them to a fresh decoder never fails, and \<open>decode\<close>
  returns exactly the sources when the coding vectors span the whole space and the
  \<open>Incomplete\<close> error otherwise.
\<close>

theorem decode_minted:
  assumes fill: "fill_bytes_ok fill" and S: "check_sources S = Inr len"
    and ps: "\<forall>p \<in> set ps. minted fill gen S p"
  shows "\<exists>dec. feed (decoder_new (length S) len) ps = Some (Inr dec) \<and>
    decode dec = (if \<forall>j < length S. unit_vec j \<in> cv_span ps then Inr S else Inl (Incomplete (rank dec) (length S)))"
proof -
  have "\<forall>p \<in> set ps. valid_piece S len p" using ps minted_valid [OF _ S fill] by blast
  then obtain dec where feed: "feed (decoder_new (length S) len) ps = Some (Inr dec)" and inv: "dec_inv dec"
    and d: "d_k dec = length S" "d_piece_len dec = len" and span: "lspan (row_vecs dec) = cv_span ps"
    and rows: "\<forall>(v, d) \<in> set (d_rows dec). combines S len v d"
    by (rule feed_new)
  have "is_complete dec \<longleftrightarrow> (\<forall>j < length S. unit_vec j \<in> cv_span ps)"
    using complete_iff_units [OF inv] d span by simp
  moreover have "is_complete dec \<Longrightarrow> decode dec = Inr S"
    using rows S d by (intro decode_complete [OF inv]) (simp_all add: check_sources_Inr)
  moreover have "\<not> is_complete dec \<Longrightarrow> decode dec = Inl (Incomplete (rank dec) (length S))"
    using d by (simp add: decode_def)
  ultimately show ?thesis using feed by auto
qed

text \<open>
  Any K linearly independent pieces of a generation with K sources, each encoded or
  recoded, reconstruct the sources.
\<close>

theorem any_k_independent_decode:
  assumes fill: "fill_bytes_ok fill" and S: "check_sources S = Inr len"
    and ps: "\<forall>p \<in> set ps. minted fill gen S p" "length ps = length S"
    and indep: "\<forall>i < length ps. vec (coding_vector (ps ! i)) \<notin> cv_span (take i ps)"
  shows "\<exists>dec. feed (decoder_new (length S) len) ps = Some (Inr dec) \<and> decode dec = Inr S"
proof -
  have valid: "\<forall>p \<in> set ps. valid_piece S len p" using ps minted_valid [OF _ S fill] by blast
  then obtain dec where feed: "feed (decoder_new (length S) len) ps = Some (Inr dec)" and inv: "dec_inv dec"
    and d: "d_k dec = length S" "d_piece_len dec = len" and rows: "\<forall>(v, d) \<in> set (d_rows dec). combines S len v d"
    by (rule feed_new)
  have "rank dec = length ps"
    using feed_rank [OF dec_inv_new _ _ feed] valid indep by (simp add: valid_piece_def cv_span_def)
  then have "is_complete dec" using d ps(2) by (simp add: is_complete_def)
  then have "decode dec = Inr S"
    using rows S d by (intro decode_complete [OF inv]) (simp_all add: check_sources_Inr)
  with feed show ?thesis by blast
qed

text \<open>
  (C10) A decoder in reduced form accepts a piece (returns true, rank one higher) exactly when
  its coding vector is not a combination of what it has, and it stays in reduced form; it
  never panics on a piece of the right shape.
\<close>

theorem add_piece_innovative:
  assumes "dec_inv dec" "length (coding_vector p) = d_k dec" "length (data p) = d_piece_len dec"
  shows "\<exists>dec'. add_piece dec p = Some (Inr (vec (coding_vector p) \<notin> lspan (row_vecs dec), dec')) \<and> dec_inv dec'
    \<and> rank dec' = rank dec + of_bool (vec (coding_vector p) \<notin> lspan (row_vecs dec))
    \<and> lspan (row_vecs dec') = lspan (insert (vec (coding_vector p)) (row_vecs dec))"
  by (rule add_piece_correct [OF assms]) auto

text \<open>
  Recoding valid pieces of a generation without decoding yields a valid, non-zero piece
  of the same generation, and adds no information: its vector lies in the span of the held ones.
\<close>

theorem recode_sound:
  assumes "\<forall>q \<in> set held. valid_piece S len q" "recode gen held g = Some (Inr p, g')"
  shows "valid_piece S len p \<and> nonzero (coding_vector p) \<and> vec (coding_vector p) \<in> cv_span held"
  using recode_valid [OF assms] .

text \<open>
  Encoding well-formed sources returns a valid piece as soon as one of the successive draws
  of the generator is not all zero; the piece is the combination of the sources by its vector.
\<close>

theorem encode_returns:
  assumes fill: "fill_bytes_ok fill" and S: "check_sources S = Inr len"
    and draw: "nonzero (fst (fill (((\<lambda>g. snd (fill g (length S))) ^^ m) g) (length S)))"
  shows "\<exists>p g'. encode fill S g = Some (Inr p, g') \<and> valid_piece S len p \<and> nonzero (coding_vector p)"
proof -
  from sample_vector_returns [of fill m "length S" g, OF draw] obtain v g' where "sample_vector fill (length S) g = Some (v, g')" by blast
  with S have "\<exists>p g'. encode fill S g = Some (Inr p, g')" by (simp add: encode_def)
  with encode_valid [OF fill S] show ?thesis by blast
qed

section \<open>Witnesses\<close>

text \<open>A concrete generator: successive draws are the vectors (1,0,..), (1,1,0,..), ...\<close>

definition ramp_fill :: "nat \<Rightarrow> nat \<Rightarrow> bytes \<times> nat" where
  "ramp_fill g n = (map (\<lambda>i. if i \<le> g then 1 else 0) [0..<n], g + 1)"

definition one_gen :: "nat \<Rightarrow> u8 \<times> nat" where
  "one_gen g = (1, g + 1)"

definition wit_sources :: "bytes list" where
  "wit_sources = [[1, 2], [3, 4]]"

definition wit_pieces :: "coded_piece list" where
  "wit_pieces = [\<lparr>coding_vector = [1, 0], data = [1, 2]\<rparr>, \<lparr>coding_vector = [1, 1], data = [2, 6]\<rparr>]"

lemma ramp_fill_ok: "fill_bytes_ok ramp_fill"
  by (simp add: fill_bytes_ok_def ramp_fill_def)

lemma wit_check: "check_sources wit_sources = Inr 2"
  by (simp add: check_sources_def wit_sources_def)

lemma wit_len [simp]: "length wit_sources = 2" "length wit_pieces = 2"
  by (simp_all add: wit_sources_def wit_pieces_def)

lemma wit_sample:
  "sample_vector ramp_fill 2 0 = Some ([1, 0], 1)" "sample_vector ramp_fill 2 1 = Some ([1, 1], 2)"
  by (simp_all add: sample_vector.simps ramp_fill_def nonzero_def upt_rec)

lemma wit_encode:
  "encode ramp_fill wit_sources 0 = Some (Inr (wit_pieces ! 0), 1)"
  "encode ramp_fill wit_sources 1 = Some (Inr (wit_pieces ! 1), 2)"
  unfolding encode_def wit_check wit_len wit_sample
  by (simp_all add: wit_sources_def wit_pieces_def combine_def axpy_def numeral_2_eq_2)

lemma wit_minted: "\<forall>p \<in> set wit_pieces. minted ramp_fill one_gen wit_sources p"
  using minted.encoded [OF wit_encode(1)] minted.encoded [OF wit_encode(2)] by (simp add: wit_pieces_def)

lemma wit_indep: "\<forall>i < length wit_pieces. vec (coding_vector (wit_pieces ! i)) \<notin> cv_span (take i wit_pieces)"
proof (intro allI impI notI)
  fix i assume "i < length wit_pieces" and s: "vec (coding_vector (wit_pieces ! i)) \<in> cv_span (take i wit_pieces)"
  then have "i = 0 \<or> i = 1" by (auto simp: wit_pieces_def)
  then have "vec (coding_vector (wit_pieces ! i)) i = 0"
    using lspan_linear [OF s [unfolded cv_span_def], of "\<lambda>x. x i"] by (auto simp: wit_pieces_def vec_def)
  with \<open>i = 0 \<or> i = 1\<close> show False by (auto simp: wit_pieces_def vec_def)
qed

lemma wit_not_spanned: "unit_vec 1 \<notin> cv_span [wit_pieces ! 0]"
proof
  assume s: "unit_vec 1 \<in> cv_span [wit_pieces ! 0]"
  have "unit_vec 1 1 = 0"
    using lspan_linear [OF s [unfolded cv_span_def], of "\<lambda>x. x 1"] by (simp add: wit_pieces_def vec_def)
  then show False by (simp add: unit_vec_def)
qed

theorem decode_minted_witness:
  "\<exists>dec. feed (decoder_new 2 2) [wit_pieces ! 0] = Some (Inr dec) \<and> decode dec = Inl (Incomplete (rank dec) 2)"
proof -
  have "\<forall>p \<in> set [wit_pieces ! 0]. minted ramp_fill one_gen wit_sources p" using wit_minted by simp
  from decode_minted [OF ramp_fill_ok wit_check this] wit_not_spanned
  show ?thesis unfolding wit_len by (metis one_less_numeral_iff semiring_norm(76))
qed

theorem any_k_independent_decode_witness:
  "\<exists>dec. feed (decoder_new 2 2) wit_pieces = Some (Inr dec) \<and> decode dec = Inr wit_sources"
  using any_k_independent_decode [OF ramp_fill_ok wit_check wit_minted _ wit_indep] unfolding wit_len by blast

theorem add_piece_innovative_witness:
  "\<exists>dec'. add_piece (decoder_new 2 2) (wit_pieces ! 0)
      = Some (Inr (vec (coding_vector (wit_pieces ! 0)) \<notin> lspan (row_vecs (decoder_new 2 2)), dec')) \<and> dec_inv dec'"
  using add_piece_innovative [OF dec_inv_new, of "wit_pieces ! 0" 2 2]
  by (auto simp: wit_pieces_def simp del: row_vecs_new)

lemma wit_valid: "\<forall>p \<in> set wit_pieces. valid_piece wit_sources 2 p"
  using wit_minted minted_valid [OF _ wit_check ramp_fill_ok] by blast

lemma wit_recode: "recode one_gen wit_pieces 0 = Some (Inr \<lparr>coding_vector = [0, 1], data = [3, 4]\<rparr>, 2)"
  by (simp add: recode_def wit_pieces_def recode_loop.simps one_gen_def axpy_def nonzero_def)

theorem recode_sound_witness:
  "valid_piece wit_sources 2 \<lparr>coding_vector = [0, 1], data = [3, 4]\<rparr> \<and> vec [0, 1] \<in> cv_span wit_pieces"
  using recode_sound [OF wit_valid wit_recode] by simp

theorem encode_returns_witness:
  "\<exists>p g'. encode ramp_fill wit_sources 0 = Some (Inr p, g') \<and> valid_piece wit_sources 2 p \<and> nonzero (coding_vector p)"
  by (rule encode_returns [OF ramp_fill_ok wit_check, of 0])
    (simp add: ramp_fill_def wit_sources_def nonzero_def upt_rec)

end
