(* ===== verification/Vtags.thy ===== *)
theory Vtags
  imports Erasure
begin

text \<open>
  Null-space verification tags, \<open>src/crates/erasure/src/vtags.rs\<close>. BLAKE3 in its extendable
  output mode is the parameter \<open>xof\<close>: an input and a length give that many bytes.
\<close>

section \<open>The model\<close>

definition L :: nat where "L = 8"

definition SCHEME_NULL_SPACE_V1 :: u8 where "SCHEME_NULL_SPACE_V1 = 1"

record vtag =
  seed :: bytes
  coeff_part :: bytes

record vtags =
  scheme :: u8
  vt_k :: u32
  vt_piece_len :: u64
  tags :: "vtag list"

definition vtag_domain :: bytes where
  "vtag_domain = map (of_nat \<circ> of_char) ''zeph-vtag-v1''"

definition derive_v_d :: "(bytes \<Rightarrow> nat \<Rightarrow> bytes) \<Rightarrow> bytes \<Rightarrow> nat \<Rightarrow> bytes" where
  "derive_v_d xof sd piece_len = xof (vtag_domain @ sd) piece_len"

fun generate_tags :: "(bytes \<Rightarrow> nat \<Rightarrow> bytes) \<Rightarrow> ('g \<Rightarrow> nat \<Rightarrow> bytes \<times> 'g) \<Rightarrow> bytes list \<Rightarrow> nat \<Rightarrow> nat
    \<Rightarrow> 'g \<Rightarrow> vtag list \<times> 'g" where
  "generate_tags xof fill sources piece_len 0 g = ([], g)"
| "generate_tags xof fill sources piece_len (Suc n) g = (case fill g 32 of (sd, g') \<Rightarrow>
     let v_d = derive_v_d xof sd piece_len;
         tag = \<lparr>seed = sd, coeff_part = map (\<lambda>s. dot s v_d) sources\<rparr>
     in case generate_tags xof fill sources piece_len n g' of (ts, g'') \<Rightarrow> (tag # ts, g''))"

definition generate :: "(bytes \<Rightarrow> nat \<Rightarrow> bytes) \<Rightarrow> ('g \<Rightarrow> nat \<Rightarrow> bytes \<times> 'g) \<Rightarrow> bytes list \<Rightarrow> 'g
    \<Rightarrow> (erasure_error + vtags) \<times> 'g" where
  "generate xof fill sources g = (case sources of [] \<Rightarrow> (Inl BadSources, g)
     | first # _ \<Rightarrow>
        let piece_len = length first in
        if piece_len = 0 \<or> list_ex (\<lambda>s. length s \<noteq> piece_len) sources then (Inl BadSources, g)
        else case generate_tags xof fill sources piece_len L g of (ts, g') \<Rightarrow>
          (Inr \<lparr>scheme = SCHEME_NULL_SPACE_V1, vt_k = of_nat (length sources),
                vt_piece_len = of_nat piece_len, tags = ts\<rparr>, g'))"

definition verify_tag :: "(bytes \<Rightarrow> nat \<Rightarrow> bytes) \<Rightarrow> nat \<Rightarrow> coded_piece \<Rightarrow> vtag \<Rightarrow> bool" where
  "verify_tag xof piece_len piece tag =
     (let v_d = derive_v_d xof (seed tag) piece_len in
      dot (coding_vector piece) (coeff_part tag) XOR dot (data piece) v_d = 0)"

definition verify :: "(bytes \<Rightarrow> nat \<Rightarrow> bytes) \<Rightarrow> vtags \<Rightarrow> coded_piece \<Rightarrow> bool" where
  "verify xof vt piece =
     (if scheme vt \<noteq> SCHEME_NULL_SPACE_V1 then False
      else if length (coding_vector piece) \<noteq> unat (vt_k vt) \<or> length (data piece) \<noteq> unat (vt_piece_len vt) then False
      else list_all (verify_tag xof (unat (vt_piece_len vt)) piece) (tags vt))"

section \<open>Properties\<close>

text \<open>The extendable output has the length asked for.\<close>

definition xof_ok :: "(bytes \<Rightarrow> nat \<Rightarrow> bytes) \<Rightarrow> bool" where
  "xof_ok xof \<longleftrightarrow> (\<forall>x n. length (xof x n) = n)"

text \<open>For a tag of the publisher, the check is exactly orthogonality of the corruption to the mask.\<close>

lemma verify_tag_iff:
  assumes xof: "xof_ok xof" and S: "\<forall>s \<in> set S. length s = len"
    and tag: "coeff_part tag = map (\<lambda>s. dot s (derive_v_d xof (seed tag) len)) S"
    and p: "piece_shape (length S) len p"
  shows "verify_tag xof len p tag \<longleftrightarrow>
    (\<Sum>x < len. (GF (data p ! x) - (\<Sum>j < length S. vec (coding_vector p) j * GF (S ! j ! x)))
       * GF (derive_v_d xof (seed tag) len ! x)) = 0"
proof -
  let ?v = "derive_v_d xof (seed tag) len"
  have v: "length ?v = len" using xof by (simp add: xof_ok_def derive_v_d_def)
  have "GF (dot (coding_vector p) (coeff_part tag)) = (\<Sum>j < length S. vec (coding_vector p) j * GF (dot (S ! j) ?v))"
    using p by (simp add: dot_sum tag piece_shape_def vec_def)
  also have "\<dots> = (\<Sum>j < length S. \<Sum>x < len. vec (coding_vector p) j * GF (S ! j ! x) * GF (?v ! x))"
    using S v by (simp add: dot_sum sum_distrib_left mult.assoc)
  also have "\<dots> = (\<Sum>x < len. (\<Sum>j < length S. vec (coding_vector p) j * GF (S ! j ! x)) * GF (?v ! x))"
    by (subst sum.swap) (simp add: sum_distrib_right)
  finally have c: "GF (dot (coding_vector p) (coeff_part tag))
      = (\<Sum>x < len. (\<Sum>j < length S. vec (coding_vector p) j * GF (S ! j ! x)) * GF (?v ! x))" .
  have d: "GF (dot (data p) ?v) = (\<Sum>x < len. GF (data p ! x) * GF (?v ! x))"
    using p v by (simp add: dot_sum piece_shape_def)
  have "verify_tag xof len p tag \<longleftrightarrow> GF (dot (coding_vector p) (coeff_part tag)) + GF (dot (data p) ?v) = 0"
    by (simp add: verify_tag_def Let_def GF_xor [symmetric])
  then show ?thesis
    by (simp add: c d gf256_minus algebra_simps sum.distrib)
qed

lemma generate_tags_props:
  "generate_tags xof fill S len n g = (ts, g') \<Longrightarrow> length ts = n
    \<and> (\<forall>t \<in> set ts. coeff_part t = map (\<lambda>s. dot s (derive_v_d xof (seed t) len)) S)"
  by (induction n arbitrary: g ts) (auto simp: Let_def split: prod.splits)

lemma generate_Inr:
  assumes "generate xof fill S g = (Inr vt, g')"
  shows "check_sources S = Inr (length (hd S))" "scheme vt = SCHEME_NULL_SPACE_V1" "vt_k vt = of_nat (length S)"
    "vt_piece_len vt = of_nat (length (hd S))" "length (tags vt) = L"
    "\<And>t. t \<in> set (tags vt) \<Longrightarrow> coeff_part t = map (\<lambda>s. dot s (derive_v_d xof (seed t) (length (hd S)))) S"
  using assms
  by (auto simp: generate_def check_sources_def Let_def generate_tags_props split: list.splits if_splits prod.splits)

text \<open>
  (C9) Completeness of the tags: every valid piece of the generation, so in particular every
  encoded and every recoded one, passes the publisher's tags. Sizes are those the tag blob can
  carry (\<open>u32\<close> sources, \<open>u64\<close> bytes).
\<close>

theorem verify_accepts_valid:
  assumes "xof_ok xof" and gen: "generate xof fill S g = (Inr vt, g')"
    and size: "length S < 2 ^ 32" "length (hd S) < 2 ^ 64" and p: "valid_piece S (length (hd S)) p"
  shows "verify xof vt p"
proof -
  note vt = generate_Inr [OF gen]
  have len: "unat (vt_k vt) = length S" unfolding vt(3) by (rule unat_of_nat_less) (use size in simp)
  have len': "unat (vt_piece_len vt) = length (hd S)" unfolding vt(4) by (rule unat_of_nat_less) (use size in simp)
  have "verify_tag xof (length (hd S)) p t" if "t \<in> set (tags vt)" for t
  proof -
    have "\<forall>s \<in> set S. length s = length (hd S)" using iffD1 [OF check_sources_Inr vt(1)] by blast
    moreover have "coeff_part t = map (\<lambda>s. dot s (derive_v_d xof (seed t) (length (hd S)))) S"
      by (rule vt(6) [OF that])
    moreover have "piece_shape (length S) (length (hd S)) p" using p by (simp add: valid_piece_def)
    ultimately have "verify_tag xof (length (hd S)) p t \<longleftrightarrow> (\<Sum>x < length (hd S).
        (GF (data p ! x) - (\<Sum>j < length S. vec (coding_vector p) j * GF (S ! j ! x)))
          * GF (derive_v_d xof (seed t) (length (hd S)) ! x)) = 0"
      by (rule verify_tag_iff [OF assms(1)])
    then show ?thesis using p by (simp add: valid_piece_def combines_def)
  qed
  then show ?thesis
    using vt(2) len len' p by (simp add: verify_def list_all_iff valid_piece_def piece_shape_def)
qed

text \<open>The all-zero piece satisfies every linear check.\<close>

lemma verify_accepts_zero:
  assumes "scheme vt = SCHEME_NULL_SPACE_V1"
  shows "verify xof vt \<lparr>coding_vector = replicate (unat (vt_k vt)) 0, data = replicate (unat (vt_piece_len vt)) 0\<rparr>"
proof -
  have "fold (\<lambda>(x, y) acc. acc XOR gf_mul x y) ps a = a" if "\<forall>(x, y) \<in> set ps. x = 0" for ps a
    using that by (induction ps arbitrary: a) auto
  moreover have "\<forall>(x, y) \<in> set (zip (replicate n 0) b). x = 0" for n and b :: bytes
    by (auto dest: set_zip_leftD)
  ultimately have "dot (replicate n 0) b = 0" for n b
    unfolding dot_def by blast
  then show ?thesis using assms by (simp add: verify_def list_all_iff verify_tag_def)
qed

text \<open>
  The ingest check admits the all-zero piece whatever the tags, and a holder whose
  pieces are all zero never returns from \<open>recode\<close>: no draw of the generator gives a non-zero
  combination, so the restart loop runs forever.
\<close>

theorem zero_piece_stalls_recode:
  assumes "scheme vt = SCHEME_NULL_SPACE_V1"
    and z: "z = \<lparr>coding_vector = replicate (unat (vt_k vt)) 0, data = replicate (unat (vt_piece_len vt)) 0\<rparr>"
  shows "verify xof vt z \<and> recode gen (replicate (Suc n) z) g = None"
proof -
  have "recode_loop gen (replicate (Suc n) z) (unat (vt_k vt)) (unat (vt_piece_len vt)) g = None"
    by (rule recode_loop_diverges) (auto simp: z nonzero_def list_ex_iff)
  then have "recode gen (replicate (Suc n) z) g = None"
    by (simp add: recode_def Let_def z list_ex_iff)
  with verify_accepts_zero [OF assms(1)] show ?thesis by (simp add: z)
qed

section \<open>Witnesses\<close>

definition const_xof :: "bytes \<Rightarrow> nat \<Rightarrow> bytes" where
  "const_xof x n = replicate n 1"

lemma const_xof_ok: "xof_ok const_xof"
  by (simp add: xof_ok_def const_xof_def)

lemma hd_wit: "length (hd wit_sources) = 2"
  by (simp add: wit_sources_def)

theorem verify_accepts_valid_witness:
  "\<exists>vt g'. generate const_xof ramp_fill wit_sources 0 = (Inr vt, g') \<and> verify const_xof vt (wit_pieces ! 1)"
proof -
  obtain ts g' where "generate_tags const_xof ramp_fill wit_sources (length (hd wit_sources)) L 0 = (ts, g')"
    by (cases "generate_tags const_xof ramp_fill wit_sources (length (hd wit_sources)) L 0")
  then obtain vt where "generate const_xof ramp_fill wit_sources 0 = (Inr vt, g')"
    by (simp add: generate_def wit_sources_def Let_def)
  moreover have "verify const_xof vt (wit_pieces ! 1)"
    by (rule verify_accepts_valid [OF const_xof_ok calculation]) (simp_all add: hd_wit wit_valid)
  ultimately show ?thesis by blast
qed

theorem zero_piece_stalls_recode_witness:
  "verify const_xof \<lparr>scheme = 1, vt_k = 1, vt_piece_len = 1, tags = [\<lparr>seed = [], coeff_part = [7]\<rparr>]\<rparr>
      \<lparr>coding_vector = [0], data = [0]\<rparr>
   \<and> recode one_gen [\<lparr>coding_vector = [0], data = [0]\<rparr>] 0 = None"
  using zero_piece_stalls_recode [of "\<lparr>scheme = 1, vt_k = 1, vt_piece_len = 1, tags = [\<lparr>seed = [], coeff_part = [7]\<rparr>]\<rparr>"
      "\<lparr>coding_vector = [0], data = [0]\<rparr>" const_xof one_gen 0 0]
  by (simp add: SCHEME_NULL_SPACE_V1_def)

end
