(* ===== verification/Token.thy ===== *)
theory Token
  imports Zeph_Prelude
begin

text \<open>
  The token program, \<open>src/crates/token/src/lib.rs\<close>: the supply counter and its mint gate,
  the literal pool, and the account-chain transition \<open>apply_token\<close>. The serialisation
  (postcard) is a parameter of \<open>run_transition\<close>; a \<open>BTreeSet\<close> used only for membership is a set.
\<close>

section \<open>The supply counter and the pool\<close>

definition DECIMALS :: u8 where "DECIMALS = 8"

definition ONE_TOKEN :: u64 where "ONE_TOKEN = 100000000"

record supply_state =
  minted :: u64
  sup_cap :: u64

definition supply_new :: "u64 \<Rightarrow> u64 \<Rightarrow> supply_state" where
  "supply_new m c = \<lparr>minted = m, sup_cap = c\<rparr>"

definition total_supply :: "supply_state \<Rightarrow> u64" where
  "total_supply s = minted s"

definition headroom :: "supply_state \<Rightarrow> u64" where
  "headroom s = sat_sub (sup_cap s) (minted s)"

definition set_cap :: "u64 \<Rightarrow> supply_state \<Rightarrow> supply_state" where
  "set_cap c s = s\<lparr>sup_cap := c\<rparr>"

definition observe_minted :: "u64 \<Rightarrow> supply_state \<Rightarrow> supply_state" where
  "observe_minted v s = s\<lparr>minted := max (minted s) v\<rparr>"

definition authorize_mint :: "u64 \<Rightarrow> supply_state \<Rightarrow> u64 \<times> supply_state" where
  "authorize_mint want s = (let granted = min want (headroom s) in
     (granted, s\<lparr>minted := sat_add (minted s) granted\<rparr>))"

record protocol_state =
  ps_supply :: supply_state
  pool :: u64

definition fold_pay :: "u64 \<Rightarrow> protocol_state \<Rightarrow> protocol_state" where
  "fold_pay amount p = p\<lparr>pool := sat_add (pool p) amount\<rparr>"

definition mint_into_pool :: "u64 \<Rightarrow> protocol_state \<Rightarrow> u64 \<times> protocol_state" where
  "mint_into_pool want p = (case authorize_mint want (ps_supply p) of (granted, s) \<Rightarrow>
     (granted, p\<lparr>ps_supply := s, pool := sat_add (pool p) granted\<rparr>))"

definition debit_for_claim :: "u64 \<Rightarrow> protocol_state \<Rightarrow> bool \<times> protocol_state" where
  "debit_for_claim amount p = (case checked_sub (pool p) amount of
     Some rest \<Rightarrow> (True, p\<lparr>pool := rest\<rparr>) | None \<Rightarrow> (False, p))"

definition set_pool :: "u64 \<Rightarrow> protocol_state \<Rightarrow> protocol_state" where
  "set_pool v p = p\<lparr>pool := v\<rparr>"

definition conserves :: "u64 \<Rightarrow> protocol_state \<Rightarrow> bool" where
  "conserves sum_of_balances p \<longleftrightarrow> sat_add sum_of_balances (pool p) = total_supply (ps_supply p)"

text \<open>Decimal rendering: \<open>{whole}.{frac:08}\<close> with trailing zeros stripped.\<close>

fun digits :: "nat \<Rightarrow> string" where
  "digits n = (if n < 10 then [char_of (48 + n)] else digits (n div 10) @ [char_of (48 + n mod 10)])"

declare digits.simps [simp del]

fun pad_digits :: "nat \<Rightarrow> nat \<Rightarrow> string" where
  "pad_digits 0 n = []"
| "pad_digits (Suc w) n = pad_digits w (n div 10) @ [char_of (48 + n mod 10)]"

definition strip_zeros :: "string \<Rightarrow> string" where
  "strip_zeros s = rev (dropWhile (\<lambda>c. c = CHR ''0'') (rev s))"

definition format_amount :: "u64 \<Rightarrow> string" where
  "format_amount base_units =
     (let whole = base_units div ONE_TOKEN; frac = base_units mod ONE_TOKEN;
          s = strip_zeros (digits (unat whole) @ ''.'' @ pad_digits (unat DECIMALS) (unat frac))
      in if last s = CHR ''.'' then s @ ''0'' else s)"

section \<open>The account-chain transition\<close>

record transfer_op =
  to :: bytes32
  amount :: u64
  memo :: bytes32

record claim_op =
  debit_account :: bytes32
  debit_nonce :: u64

datatype ledger_op = Transfer transfer_op | Claim claim_op | Pay u64 | RewardClaim u64

record token_state =
  balance :: u64
  processed_claims :: "(bytes32 \<times> u64) set"
  claimed_epochs :: "u64 set"

definition token_default :: token_state where
  "token_default = \<lparr>balance = 0, processed_claims = {}, claimed_epochs = {}\<rparr>"

record resolved =
  debit :: "transfer_op option"
  reward_share :: "u64 option"

definition resolved_default :: resolved where
  "resolved_default = \<lparr>debit = None, reward_share = None\<rparr>"

record ledger_input =
  li_account :: bytes32
  li_op :: ledger_op
  li_resolved :: resolved

fun apply_token :: "token_state \<Rightarrow> ledger_op \<Rightarrow> bytes32 \<Rightarrow> resolved \<Rightarrow> token_state option" where
  "apply_token st (Transfer t) caller r =
     (if amount t = 0 then None
      else case checked_sub (balance st) (amount t) of
        None \<Rightarrow> None | Some b \<Rightarrow> Some (st\<lparr>balance := b\<rparr>))"
| "apply_token st (Claim c) caller r =
     (case debit r of None \<Rightarrow> None | Some d \<Rightarrow>
        if to d \<noteq> caller then None
        else let key = (debit_account c, debit_nonce c) in
          if key \<in> processed_claims st then None
          else case checked_add (balance st) (amount d) of
            None \<Rightarrow> None
          | Some b \<Rightarrow> Some (st\<lparr>processed_claims := insert key (processed_claims st), balance := b\<rparr>))"
| "apply_token st (Pay amt) caller r =
     (if amt = 0 then None
      else case checked_sub (balance st) amt of None \<Rightarrow> None | Some b \<Rightarrow> Some (st\<lparr>balance := b\<rparr>))"
| "apply_token st (RewardClaim epoch) caller r =
     (case reward_share r of None \<Rightarrow> None | Some share \<Rightarrow>
        if share = 0 then None
        else if epoch \<in> claimed_epochs st then None
        else case checked_add (balance st) share of
          None \<Rightarrow> None
        | Some b \<Rightarrow> Some (st\<lparr>claimed_epochs := insert epoch (claimed_epochs st), balance := b\<rparr>))"

definition token_decode :: "(bytes \<Rightarrow> token_state option) \<Rightarrow> bytes \<Rightarrow> token_state option" where
  "token_decode from_bytes prev = (if prev = [] then Some token_default else from_bytes prev)"

definition run_transition :: "(bytes \<Rightarrow> token_state option) \<Rightarrow> (token_state \<Rightarrow> bytes option)
    \<Rightarrow> (bytes \<Rightarrow> ledger_input option) \<Rightarrow> bytes \<Rightarrow> bytes \<Rightarrow> bytes option" where
  "run_transition from_bytes to_allocvec input_from_bytes prev_state input =
     (case token_decode from_bytes prev_state of None \<Rightarrow> None | Some state \<Rightarrow>
        (case input_from_bytes input of None \<Rightarrow> None | Some inp \<Rightarrow>
           (case apply_token state (li_op inp) (li_account inp) (li_resolved inp) of
              None \<Rightarrow> None | Some next \<Rightarrow> to_allocvec next)))"

section \<open>Supply lemmas\<close>

lemma unat_min_word [u_simps]: "unat (min a b) = min (unat a) (unat b)" for a b :: "'a::len word"
  by (simp add: min_def word_le_nat_alt)

lemma unat_max_word_op [u_simps]: "unat (max a b) = max (unat a) (unat b)" for a b :: "'a::len word"
  by (simp add: max_def word_le_nat_alt)

lemma headroom_room: "unat (minted s) + unat (headroom s) = max (unat (minted s)) (unat (sup_cap s))"
  by (simp add: headroom_def u_simps)

lemma authorize_mint_exact:
  assumes "authorize_mint want s = (g, s')"
  shows "unat (minted s') = unat (minted s) + unat g" "unat g = min (unat want) (unat (headroom s))"
    "sup_cap s' = sup_cap s"
proof -
  have g: "g = min want (headroom s)" and s': "s' = s\<lparr>minted := sat_add (minted s) g\<rparr>"
    using assms by (auto simp: authorize_mint_def Let_def)
  show gm: "unat g = min (unat want) (unat (headroom s))" by (simp add: g u_simps)
  have "unat (minted s) + unat g \<le> max (unat (minted s)) (unat (sup_cap s))"
    using headroom_room [of s] gm by linarith
  also have "\<dots> \<le> 2 ^ LENGTH(64) - 1" using unat_le_max [of "minted s"] unat_le_max [of "sup_cap s"] by simp
  finally show "unat (minted s') = unat (minted s) + unat g" by (simp add: s' u_simps)
  show "sup_cap s' = sup_cap s" by (simp add: s')
qed

text \<open>The operations of the protocol state as one vocabulary, to speak of their sequences.\<close>

datatype proto_op = FoldPay u64 | Mint u64 | DebitClaim u64 | SetCap u64 | ObserveMinted u64 | SetPool u64

fun proto_step :: "proto_op \<Rightarrow> protocol_state \<Rightarrow> protocol_state" where
  "proto_step (FoldPay a) p = fold_pay a p"
| "proto_step (Mint w) p = snd (mint_into_pool w p)"
| "proto_step (DebitClaim a) p = snd (debit_for_claim a p)"
| "proto_step (SetCap c) p = p\<lparr>ps_supply := set_cap c (ps_supply p)\<rparr>"
| "proto_step (ObserveMinted v) p = p\<lparr>ps_supply := observe_minted v (ps_supply p)\<rparr>"
| "proto_step (SetPool v) p = set_pool v p"

text \<open>What an operation brings into the pool and takes out of it, and what it creates.\<close>

fun inflow :: "proto_op \<Rightarrow> protocol_state \<Rightarrow> nat" where
  "inflow (FoldPay a) p = unat a"
| "inflow (Mint w) p = unat (fst (mint_into_pool w p))"
| "inflow _ p = 0"

fun outflow :: "proto_op \<Rightarrow> protocol_state \<Rightarrow> nat" where
  "outflow (DebitClaim a) p = (if fst (debit_for_claim a p) then unat a else 0)"
| "outflow _ p = 0"

text \<open>What the adoption of an attested pool adds to the figure held and takes from it.\<close>

fun adopted_up :: "proto_op \<Rightarrow> protocol_state \<Rightarrow> nat" where
  "adopted_up (SetPool v) p = unat v - unat (pool p)"
| "adopted_up _ p = 0"

fun adopted_down :: "proto_op \<Rightarrow> protocol_state \<Rightarrow> nat" where
  "adopted_down (SetPool v) p = unat (pool p) - unat v"
| "adopted_down _ p = 0"

fun created :: "proto_op \<Rightarrow> protocol_state \<Rightarrow> nat" where
  "created (Mint w) p = unat (fst (mint_into_pool w p))"
| "created (ObserveMinted v) p = unat v - unat (total_supply (ps_supply p))"
| "created _ p = 0"

fun total_over :: "(proto_op \<Rightarrow> protocol_state \<Rightarrow> nat) \<Rightarrow> proto_op list \<Rightarrow> protocol_state \<Rightarrow> nat" where
  "total_over f [] p = 0"
| "total_over f (op # ops) p = f op p + total_over f ops (proto_step op p)"

lemma mint_into_pool_exact:
  assumes "mint_into_pool want p = (g, p')"
  shows "unat (minted (ps_supply p')) = unat (minted (ps_supply p)) + unat g"
    "unat (pool p') = min (unat (pool p) + unat g) (2 ^ 64 - 1)"
    "unat g = min (unat want) (unat (headroom (ps_supply p)))" "sup_cap (ps_supply p') = sup_cap (ps_supply p)"
  using assms authorize_mint_exact [of want "ps_supply p" g "ps_supply p'"]
  by (auto simp: mint_into_pool_def u_simps split: prod.splits)

lemma debit_for_claim_exact:
  "debit_for_claim a p = (ok, p') \<Longrightarrow> (ok \<longleftrightarrow> unat a \<le> unat (pool p))
     \<and> unat (pool p') + (if ok then unat a else 0) = unat (pool p) \<and> ps_supply p' = ps_supply p"
  by (auto simp: debit_for_claim_def checked_sub_def word_le_nat_alt unat_sub split: option.splits if_splits)

lemma proto_step_created: "unat (total_supply (ps_supply (proto_step op p))) = unat (total_supply (ps_supply p)) + created op p"
  by (cases op) (auto simp: total_supply_def fold_pay_def set_cap_def set_pool_def observe_minted_def u_simps
      mint_into_pool_exact [OF surjective_pairing] debit_for_claim_def split: option.splits)

lemma proto_step_pool:
  assumes "unat (pool p) + inflow op p < 2 ^ 64"
  shows "unat (pool (proto_step op p)) + outflow op p + adopted_down op p = unat (pool p) + inflow op p + adopted_up op p"
proof (cases op)
  case (DebitClaim a)
  obtain ok p' where "debit_for_claim a p = (ok, p')" by (cases "debit_for_claim a p")
  with DebitClaim debit_for_claim_exact [OF this] show ?thesis by (auto split: if_splits)
qed (use assms in \<open>auto simp: fold_pay_def set_cap_def set_pool_def u_simps mint_into_pool_exact [OF surjective_pairing]\<close>)

lemma proto_step_cap:
  "sup_cap (ps_supply (proto_step op p)) = (case op of SetCap c \<Rightarrow> c | _ \<Rightarrow> sup_cap (ps_supply p))"
  by (cases op) (simp_all add: fold_pay_def set_cap_def set_pool_def observe_minted_def debit_for_claim_def
      mint_into_pool_exact [OF surjective_pairing] split: option.splits)

section \<open>Transition lemmas\<close>

fun op_debit :: "ledger_op \<Rightarrow> nat" where
  "op_debit (Transfer t) = unat (amount t)"
| "op_debit (Pay a) = unat a"
| "op_debit _ = 0"

fun op_credit :: "ledger_op \<Rightarrow> resolved \<Rightarrow> nat" where
  "op_credit (Claim c) r = (case debit r of None \<Rightarrow> 0 | Some d \<Rightarrow> unat (amount d))"
| "op_credit (RewardClaim e) r = (case reward_share r of None \<Rightarrow> 0 | Some s \<Rightarrow> unat s)"
| "op_credit _ r = 0"

text \<open>An accepted operation moves exactly its amount; nothing wraps.\<close>

lemma apply_token_balance:
  "apply_token st op caller r = Some st' \<Longrightarrow> unat (balance st') + op_debit op = unat (balance st) + op_credit op r"
  by (cases op) (auto simp: checked_sub_Some_iff checked_add_Some_iff Let_def split: option.splits if_splits)

lemma apply_token_grows:
  "apply_token st op caller r = Some st' \<Longrightarrow>
     processed_claims st \<subseteq> processed_claims st' \<and> claimed_epochs st \<subseteq> claimed_epochs st'"
  by (cases op) (auto simp: Let_def split: option.splits if_splits)

lemma apply_token_Claim:
  "apply_token st (Claim c) caller r = Some st' \<Longrightarrow> \<exists>d. debit r = Some d \<and> to d = caller
     \<and> (debit_account c, debit_nonce c) \<notin> processed_claims st \<and> (debit_account c, debit_nonce c) \<in> processed_claims st'"
  by (auto simp: Let_def split: option.splits if_splits)

lemma apply_token_RewardClaim:
  "apply_token st (RewardClaim e) caller r = Some st' \<Longrightarrow> \<exists>s. reward_share r = Some s \<and> s \<noteq> 0
     \<and> e \<notin> claimed_epochs st \<and> e \<in> claimed_epochs st'"
  by (auto split: option.splits if_splits)

section \<open>Properties\<close>

text \<open>
  (C20) Over any sequence of the operations of the protocol state whose additions fit in 64 bits, no token is lost or made up: the
  pool holds what it held plus what was paid and minted in, minus the claims it funded, corrected by exactly what each adoption of an
  attested pool (\<open>set_pool\<close>) added to or took from the figure held; the supply grows by exactly what was minted or observed from
  history, and in particular not by an adoption.
\<close>

theorem pool_conservation:
  assumes "unat (pool p) + total_over inflow ops p + total_over adopted_up ops p < 2 ^ 64"
  shows "unat (pool (fold proto_step ops p)) + total_over outflow ops p + total_over adopted_down ops p
      = unat (pool p) + total_over inflow ops p + total_over adopted_up ops p
    \<and> unat (total_supply (ps_supply (fold proto_step ops p))) = unat (total_supply (ps_supply p)) + total_over created ops p"
  using assms
proof (induction ops arbitrary: p)
  case (Cons op ops)
  have "unat (pool p) + inflow op p < 2 ^ 64" using Cons.prems by simp
  note step = proto_step_pool [OF this] proto_step_created [of op p]
  have "unat (pool (proto_step op p)) + total_over inflow ops (proto_step op p) + total_over adopted_up ops (proto_step op p) < 2 ^ 64"
    using Cons.prems step(1) by simp
  from Cons.IH [OF this] step show ?case by simp
qed simp

text \<open>
  The mint gate is the cap: if every cap ever in force and every figure restored from history
  is at most \<open>C\<close>, no sequence of operations brings the total supply above \<open>C\<close>.
\<close>

theorem supply_capped:
  assumes "total_supply (ps_supply p) \<le> C" "sup_cap (ps_supply p) \<le> C"
    and "\<forall>op \<in> set ops. case op of SetCap c \<Rightarrow> c \<le> C | ObserveMinted v \<Rightarrow> v \<le> C | _ \<Rightarrow> True"
  shows "total_supply (ps_supply (fold proto_step ops p)) \<le> C"
  using assms
proof (induction ops arbitrary: p)
  case (Cons op ops)
  have "unat (total_supply (ps_supply (proto_step op p))) \<le> unat C"
    using proto_step_created [of op p] Cons.prems mint_into_pool_exact(3) [OF surjective_pairing]
      headroom_room [of "ps_supply p"]
    by (cases op) (auto simp: total_supply_def word_le_nat_alt)
  moreover have "sup_cap (ps_supply (proto_step op p)) \<le> C"
    unfolding proto_step_cap using Cons.prems by (cases op) auto
  ultimately show ?case using Cons.IH [of "proto_step op p"] Cons.prems(3) by (simp add: word_le_nat_alt)
qed simp

section \<open>Witnesses\<close>

definition wit_proto :: protocol_state where
  "wit_proto = \<lparr>ps_supply = supply_new 10 100, pool = 5\<rparr>"

theorem pool_conservation_witness:
  "unat (pool (fold proto_step [FoldPay 7, Mint 200, DebitClaim 50, SetPool 30, FoldPay 1] wit_proto)) + 50 + 22 = 5 + (7 + 90 + 1) + 0"
  using pool_conservation [of wit_proto "[FoldPay 7, Mint 200, DebitClaim 50, SetPool 30, FoldPay 1]"]
  by (simp add: wit_proto_def supply_new_def fold_pay_def mint_into_pool_def authorize_mint_def headroom_def set_pool_def
      debit_for_claim_def sat_add_def sat_sub_def checked_sub_def Let_def min_def)

theorem supply_capped_witness:
  "total_supply (ps_supply (fold proto_step [Mint 200, SetCap 40, Mint 1] wit_proto)) \<le> 100"
  by (rule supply_capped) (simp_all add: wit_proto_def supply_new_def total_supply_def)

end
