(* ===== verification/BTree_Map.thy ===== *)
theory BTree_Map
  imports Zeph_Prelude
begin

text \<open>
  The ordered map the components keep their state in. Rust's \<open>BTreeMap\<close> iterates in key
  order, and the settlement and reward code depends on that order (records are compared
  by hash), so the model is the sorted association list itself. A \<open>HashMap\<close> is modelled
  by the same list: its iteration order is unspecified in Rust, and the properties only
  speak of what does not depend on it. The locale \<open>keyed_map\<close> is the interface the
  components rely on; its client lemmas are about the accumulation loop
  \<open>for x in xs { let e = m.entry(key(x)).or_default(); *e = g(x, *e); }\<close>.
\<close>

section \<open>The interface\<close>

locale keyed_map =
  fixes empty :: "'m"
    and get :: "'m \<Rightarrow> 'k \<Rightarrow> 'v option"
    and insert :: "'k \<Rightarrow> 'v \<Rightarrow> 'm \<Rightarrow> 'm"
    and remove :: "'k \<Rightarrow> 'm \<Rightarrow> 'm"
    and inv :: "'m \<Rightarrow> bool"
  assumes get_empty: "get empty k = None"
    and get_insert: "inv m \<Longrightarrow> get (insert k v m) k' = (if k' = k then Some v else get m k')"
    and get_remove: "inv m \<Longrightarrow> get (remove k m) k' = (if k' = k then None else get m k')"
    and inv_empty: "inv empty"
    and inv_insert: "inv m \<Longrightarrow> inv (insert k v m)"
    and inv_remove: "inv m \<Longrightarrow> inv (remove k m)"
    and ext: "inv m \<Longrightarrow> inv m' \<Longrightarrow> (\<And>k. get m k = get m' k) \<Longrightarrow> m = m'"
begin

lemma inv_accumulate: "inv m \<Longrightarrow> inv (fold (\<lambda>x m. insert (key x) (g x (get m (key x))) m) xs m)"
  by (induction xs arbitrary: m) (auto intro: inv_insert)

text \<open>The entry of one key after the loop only depends on the items with that key.\<close>

lemma get_accumulate:
  "inv m \<Longrightarrow> get (fold (\<lambda>x m. insert (key x) (g x (get m (key x))) m) xs m) k
     = fold (\<lambda>x acc. Some (g x acc)) (filter (\<lambda>x. key x = k) xs) (get m k)"
  by (induction xs arbitrary: m) (auto simp: get_insert inv_insert)

text \<open>Where the updates of one entry commute, the loop does not depend on the order of its input.\<close>

lemma accumulate_perm:
  assumes comm: "\<And>x y acc. g x (Some (g y acc)) = g y (Some (g x acc))"
    and m: "inv m" and perm: "mset xs = mset ys"
  shows "fold (\<lambda>x m. insert (key x) (g x (get m (key x))) m) xs m
       = fold (\<lambda>x m. insert (key x) (g x (get m (key x))) m) ys m"
proof (rule ext)
  fix k
  have "mset (filter (\<lambda>x. key x = k) xs) = mset (filter (\<lambda>x. key x = k) ys)"
    using perm by simp
  then have "fold (\<lambda>x acc. Some (g x acc)) (filter (\<lambda>x. key x = k) xs)
    = fold (\<lambda>x acc. Some (g x acc)) (filter (\<lambda>x. key x = k) ys)"
    by (rule fold_multiset_equiv [rotated]) (auto simp: comm fun_eq_iff)
  with m show "get (fold (\<lambda>x m. insert (key x) (g x (get m (key x))) m) xs m) k
    = get (fold (\<lambda>x m. insert (key x) (g x (get m (key x))) m) ys m) k"
    by (simp add: get_accumulate)
qed (use m in \<open>auto intro: inv_accumulate\<close>)

end

section \<open>Sorted association lists\<close>

type_synonym ('k, 'v) btree = "('k \<times> 'v) list"

definition bt_inv :: "('k::linorder, 'v) btree \<Rightarrow> bool" where
  "bt_inv m \<longleftrightarrow> sorted_wrt (<) (map fst m)"

definition bt_get :: "('k, 'v) btree \<Rightarrow> 'k \<Rightarrow> 'v option" where
  "bt_get m k = map_of m k"

fun bt_insert :: "'k::linorder \<Rightarrow> 'v \<Rightarrow> ('k, 'v) btree \<Rightarrow> ('k, 'v) btree" where
  "bt_insert k v [] = [(k, v)]"
| "bt_insert k v ((k', v') # m) =
     (if k < k' then (k, v) # (k', v') # m
      else if k = k' then (k, v) # m
      else (k', v') # bt_insert k v m)"

definition bt_remove :: "'k \<Rightarrow> ('k, 'v) btree \<Rightarrow> ('k, 'v) btree" where
  "bt_remove k m = filter (\<lambda>p. fst p \<noteq> k) m"

definition bt_get_or :: "'v \<Rightarrow> ('k, 'v) btree \<Rightarrow> 'k \<Rightarrow> 'v" where
  "bt_get_or d m k = (case bt_get m k of None \<Rightarrow> d | Some v \<Rightarrow> v)"

text \<open>\<open>iter().collect()\<close> into a map: later entries replace earlier ones.\<close>

definition bt_of_list :: "('k::linorder \<times> 'v) list \<Rightarrow> ('k, 'v) btree" where
  "bt_of_list xs = fold (\<lambda>(k, v). bt_insert k v) xs []"

lemma keys_bt_insert: "fst ` set (bt_insert k v m) = insert k (fst ` set m)"
  by (induction k v m rule: bt_insert.induct) auto

lemma bt_inv_Nil [simp]: "bt_inv []"
  by (simp add: bt_inv_def)

lemma bt_inv_Cons [simp]: "bt_inv ((k, v) # m) \<longleftrightarrow> (\<forall>k' \<in> fst ` set m. k < k') \<and> bt_inv m"
  by (auto simp: bt_inv_def)

lemma bt_inv_insert [simp]: "bt_inv m \<Longrightarrow> bt_inv (bt_insert k v m)"
proof (induction k v m rule: bt_insert.induct)
  case (2 k v k' v' m)
  then show ?case
    by (auto simp: ball_Un keys_bt_insert image_iff dest: less_trans)
qed simp

lemma bt_get_Cons [simp]: "bt_get ((k', v) # m) k = (if k = k' then Some v else bt_get m k)"
  by (simp add: bt_get_def)

lemma bt_get_Nil [simp]: "bt_get [] k = None"
  by (simp add: bt_get_def)

lemma bt_get_insert [simp]:
  "bt_get (bt_insert k v m) k' = (if k' = k then Some v else bt_get m k')"
  by (induction k v m rule: bt_insert.induct) auto

lemma bt_get_None_iff: "bt_get m k = None \<longleftrightarrow> k \<notin> fst ` set m"
  by (simp add: bt_get_def map_of_eq_None_iff)

lemma bt_get_remove [simp]: "bt_get (bt_remove k m) k' = (if k' = k then None else bt_get m k')"
  by (induction m) (auto simp: bt_remove_def)

lemma bt_inv_filter: "bt_inv m \<Longrightarrow> bt_inv (filter P m)"
  by (induction m) auto

lemma bt_inv_remove [simp]: "bt_inv m \<Longrightarrow> bt_inv (bt_remove k m)"
  by (simp add: bt_remove_def bt_inv_filter)

lemma bt_inv_distinct: "bt_inv m \<Longrightarrow> distinct (map fst m)"
  by (simp add: bt_inv_def strict_sorted_iff)

lemma bt_get_Some_iff: "bt_inv m \<Longrightarrow> bt_get m k = Some v \<longleftrightarrow> (k, v) \<in> set m"
  by (auto simp: bt_get_def dest: bt_inv_distinct)

lemma bt_ext:
  assumes "bt_inv m" and "bt_inv m'" and "\<And>k. bt_get m k = bt_get m' k"
  shows "m = m'"
proof -
  have "set m = set m'"
    using assms bt_get_Some_iff by (metis prod.exhaust subsetI subset_antisym)
  moreover have "sorted (map fst m)" "sorted (map fst m')" "distinct (map fst m)" "distinct (map fst m')"
    using assms(1,2) by (auto simp: bt_inv_def strict_sorted_iff)
  moreover have "inj_on fst (set m \<union> set m')"
    using calculation(1,4) by (simp add: distinct_map)
  ultimately show ?thesis
    by (intro map_sorted_distinct_set_unique [of fst])
qed

interpretation bt: keyed_map "[]" bt_get bt_insert bt_remove bt_inv
proof
  fix m m' :: "('k::linorder, 'v) btree"
  assume "bt_inv m" "bt_inv m'" "\<And>k. bt_get m k = bt_get m' k"
  then show "m = m'" by (rule bt_ext)
qed simp_all

section \<open>Maps of maps\<close>

text \<open>\<open>m.entry(k).or_default().insert(j, v)\<close>: no inner map is ever empty.\<close>

definition bt2_get :: "('k::linorder, ('j::linorder, 'v) btree) btree \<Rightarrow> 'k \<times> 'j \<Rightarrow> 'v option" where
  "bt2_get m k = Option.bind (bt_get m (fst k)) (\<lambda>n. bt_get n (snd k))"

definition bt2_inv :: "('k::linorder, ('j::linorder, 'v) btree) btree \<Rightarrow> bool" where
  "bt2_inv m \<longleftrightarrow> bt_inv m \<and> (\<forall>(k, n) \<in> set m. n \<noteq> [] \<and> bt_inv n)"

definition bt2_insert :: "'k::linorder \<times> 'j::linorder \<Rightarrow> 'v \<Rightarrow> ('k, ('j, 'v) btree) btree \<Rightarrow> ('k, ('j, 'v) btree) btree" where
  "bt2_insert k v m = bt_insert (fst k) (bt_insert (snd k) v (bt_get_or [] m (fst k))) m"

lemma bt_insert_not_Nil [simp]: "bt_insert k v m \<noteq> []"
  by (metis bt_get_Nil bt_get_insert option.distinct(1))

lemma set_bt_insert_subset: "set (bt_insert k v m) \<subseteq> insert (k, v) (set m)"
  by (induction k v m rule: bt_insert.induct) auto

lemma bt2_get_Nil [simp]: "bt2_get [] k = None" and bt2_inv_Nil [simp]: "bt2_inv []"
  by (simp_all add: bt2_get_def bt2_inv_def)

lemma bt2_get_insert [simp]: "bt2_get (bt2_insert k v m) k' = (if k' = k then Some v else bt2_get m k')"
  by (cases k; cases k') (auto simp: bt2_get_def bt2_insert_def bt_get_or_def split: option.split)

lemma bt2_inv_inner: "bt2_inv m \<Longrightarrow> bt_get m k = Some n \<Longrightarrow> n \<noteq> [] \<and> bt_inv n"
  by (auto simp: bt2_inv_def bt_get_Some_iff)

lemma bt2_inv_insert [simp]:
  assumes "bt2_inv m"
  shows "bt2_inv (bt2_insert k v m)"
proof -
  have "bt_inv (bt_get_or [] m (fst k))" using bt2_inv_inner [OF assms] by (auto simp: bt_get_or_def split: option.split)
  then have "\<forall>x \<in> insert (fst k, bt_insert (snd k) v (bt_get_or [] m (fst k))) (set m). snd x \<noteq> [] \<and> bt_inv (snd x)"
    using assms by (auto simp: bt2_inv_def)
  then show ?thesis using assms set_bt_insert_subset [of "fst k" _ m] unfolding bt2_inv_def bt2_insert_def split_beta
    by (meson bt_inv_insert subsetD)
qed

lemma bt2_ext:
  assumes "bt2_inv m" "bt2_inv m'" "\<And>k. bt2_get m k = bt2_get m' k"
  shows "m = m'"
proof (rule bt_ext)
  have half: "bt_get x k \<noteq> None \<Longrightarrow> bt_get y k = bt_get x k"
    if xy: "bt2_inv x" "bt2_inv y" "\<And>k. bt2_get x k = bt2_get y k" for x y :: "('a, ('b, 'c) btree) btree" and k
  proof -
    assume "bt_get x k \<noteq> None"
    then obtain n where n: "bt_get x k = Some n" by blast
    then have ok: "n \<noteq> []" "bt_inv n" using bt2_inv_inner [OF xy(1)] by auto
    then obtain j v n0 where "n = (j, v) # n0" by (cases n) auto
    then have "bt_get n j = Some v" by simp
    then have "bt2_get y (k, j) = Some v" using xy(3) [of "(k, j)", symmetric] n by (simp add: bt2_get_def)
    then obtain n' where n': "bt_get y k = Some n'" by (auto simp: bt2_get_def bind_eq_Some_conv)
    have "n' = n"
    proof (rule bt_ext)
      show "bt_inv n'" "bt_inv n" using bt2_inv_inner [OF xy(2) n'] ok by auto
      show "bt_get n' j = bt_get n j" for j using xy(3) [of "(k, j)"] n n' by (simp add: bt2_get_def)
    qed
    then show "bt_get y k = bt_get x k" using n n' by simp
  qed
  show "bt_get m k = bt_get m' k" for k
    using half [OF assms, of k] half [OF assms(2,1) assms(3) [symmetric], of k]
    by (cases "bt_get m k"; cases "bt_get m' k") simp_all
qed (use assms in \<open>auto simp: bt2_inv_def\<close>)

lemma bt2_get_Some_iff:
  assumes "bt2_inv m"
  shows "bt2_get m (k, j) = Some v \<longleftrightarrow> (\<exists>n. (k, n) \<in> set m \<and> (j, v) \<in> set n)"
proof -
  have "bt2_get m (k, j) = Some v \<longleftrightarrow> (\<exists>n. bt_get m k = Some n \<and> bt_get n j = Some v)"
    by (simp add: bt2_get_def bind_eq_Some_conv)
  also have "\<dots> \<longleftrightarrow> (\<exists>n. bt_get m k = Some n \<and> (j, v) \<in> set n)"
    by (intro ex_cong1 conj_cong refl bt_get_Some_iff) (simp add: bt2_inv_inner [OF assms])
  also have "\<dots> \<longleftrightarrow> (\<exists>n. (k, n) \<in> set m \<and> (j, v) \<in> set n)"
    using assms by (simp add: bt2_inv_def bt_get_Some_iff)
  finally show ?thesis .
qed

end
