(* ===== verification/Quorum.thy ===== *)
theory Quorum
  imports BTree_Map
begin

text \<open>
  The k-of-n substrate, \<open>src/crates/com/src/attestation.rs\<close>: the named quorum, the one
  signature count, self-amendment, and the durable chain of attestations with its owner
  signature. Ed25519 verification is the parameter \<open>ver\<close> (public key, message, 64-byte
  signature); the postcard encodings are parameters too. Sizes of in-memory collections
  (\<open>usize\<close>) are natural numbers; the \<open>u64\<close> sequence number keeps its width, and since its
  increment panics on overflow the operations that make it return \<open>None\<close> there.
\<close>

section \<open>The quorum\<close>

type_synonym verifier = "bytes32 \<Rightarrow> bytes \<Rightarrow> bytes \<Rightarrow> bool"

definition ATTEST_DOMAIN :: bytes where "ATTEST_DOMAIN = ascii ''craftec/attest/1''"

definition GENESIS_DOMAIN :: bytes where "GENESIS_DOMAIN = ascii ''craftec/attest-genesis/1''"

record member_signature =
  member :: bytes32
  signature :: bytes

datatype member_change = AddM bytes32 | RemoveM bytes32 | SetThresholdM u64

record quorum =
  members :: "bytes32 list"
  threshold :: nat
  q_seq :: u64

definition clamp :: "nat \<Rightarrow> nat \<Rightarrow> nat \<Rightarrow> nat" where
  "clamp x lo hi = (if x < lo then lo else if hi < x then hi else x)"

definition genesis :: "bytes32 list \<Rightarrow> nat \<Rightarrow> quorum" where
  "genesis ms t = (let m = remdups_adj (sort ms) in
     \<lparr>members = m, threshold = clamp t 1 (max (length m) 1), q_seq = 0\<rparr>)"

text \<open>
  \<open>slice::binary_search\<close> of the standard library: halve the window \<open>[base, base + sz)\<close>
  until one element is left, then compare.
\<close>

function bsearch_base :: "'a::linorder list \<Rightarrow> 'a \<Rightarrow> nat \<Rightarrow> nat \<Rightarrow> nat" where
  "bsearch_base xs x base sz =
     (if sz > 1
      then let half = sz div 2; mid = base + half in
           bsearch_base xs x (if xs ! mid > x then base else mid) (sz - half)
      else base)"
  by pat_completeness auto
termination
  by (relation "measure (\<lambda>(xs, x, base, sz). sz)") auto

declare bsearch_base.simps [simp del]

definition binary_search :: "'a::linorder list \<Rightarrow> 'a \<Rightarrow> bool" where
  "binary_search xs x \<longleftrightarrow> xs \<noteq> [] \<and> xs ! bsearch_base xs x 0 (length xs) = x"

definition is_member :: "quorum \<Rightarrow> bytes32 \<Rightarrow> bool" where
  "is_member q x = binary_search (members q) x"

definition is_intersection_sized :: "quorum \<Rightarrow> bool" where
  "is_intersection_sized q \<longleftrightarrow> 2 * threshold q > length (members q)"

definition byzantine_tolerance :: "quorum \<Rightarrow> nat" where
  "byzantine_tolerance q = 2 * threshold q - (length (members q) + 1)"

definition owner_signing_bytes :: "(quorum \<Rightarrow> bytes) \<Rightarrow> quorum \<Rightarrow> bytes32 \<Rightarrow> bytes" where
  "owner_signing_bytes enc q program_cid = GENESIS_DOMAIN @ be_bytes 32 program_cid @ enc q"

definition valid_sig :: "verifier \<Rightarrow> bytes32 \<Rightarrow> bytes \<Rightarrow> bytes \<Rightarrow> bool" where
  "valid_sig ver pk msg sig \<longleftrightarrow> length sig = 64 \<and> ver pk msg sig"

definition signers :: "verifier \<Rightarrow> quorum \<Rightarrow> bytes \<Rightarrow> member_signature list \<Rightarrow> bytes32 list" where
  "signers ver q msg sigs = remdups (map member
     (filter (\<lambda>s. is_member q (member s) \<and> valid_sig ver (member s) msg (signature s)) sigs))"

definition count_signers :: "verifier \<Rightarrow> quorum \<Rightarrow> bytes \<Rightarrow> member_signature list \<Rightarrow> nat" where
  "count_signers ver q msg sigs = length (signers ver q msg sigs)"

definition advance :: "quorum \<Rightarrow> member_change option \<Rightarrow> quorum option" where
  "advance q change = (case checked_add (q_seq q) 1 of None \<Rightarrow> None | Some n \<Rightarrow>
     let nxt = q\<lparr>q_seq := n\<rparr> in
     Some (case change of
         Some (AddM m) \<Rightarrow> if \<not> binary_search (members nxt) m then nxt\<lparr>members := sort (members nxt @ [m])\<rparr> else nxt
       | Some (RemoveM m) \<Rightarrow>
           let ms = filter (\<lambda>x. x \<noteq> m) (members nxt) in
           nxt\<lparr>members := ms, threshold := min (threshold nxt) (max (length ms) 1)\<rparr>
       | Some (SetThresholdM t) \<Rightarrow> nxt\<lparr>threshold := clamp (unat t) 1 (max (length (members nxt)) 1)\<rparr>
       | None \<Rightarrow> nxt))"

section \<open>Attestations and their chain\<close>

datatype attest_action =
    Statement bytes
  | AddMember bytes32
  | RemoveMember bytes32
  | SetThreshold u64

record attest_proposal =
  ap_action :: attest_action
  ap_seq :: u64

record attestation =
  at_proposal :: attest_proposal
  at_signatures :: "member_signature list"

definition attest_signing_bytes :: "(attest_proposal \<Rightarrow> bytes) \<Rightarrow> attest_proposal \<Rightarrow> bytes" where
  "attest_signing_bytes enc p = ATTEST_DOMAIN @ enc p"

fun attest_member_change :: "attest_action \<Rightarrow> member_change option" where
  "attest_member_change (AddMember m) = Some (AddM m)"
| "attest_member_change (RemoveMember m) = Some (RemoveM m)"
| "attest_member_change (SetThreshold t) = Some (SetThresholdM t)"
| "attest_member_change (Statement s) = None"

text \<open>\<open>authorizes\<close>: the outer \<open>None\<close> is the overflow panic of \<open>q.seq + 1\<close>.\<close>

definition attest_authorizes :: "verifier \<Rightarrow> (attest_proposal \<Rightarrow> bytes) \<Rightarrow> attestation \<Rightarrow> quorum \<Rightarrow> bool option" where
  "attest_authorizes ver enc a q = (case checked_add (q_seq q) 1 of None \<Rightarrow> None | Some n \<Rightarrow>
     Some (ap_seq (at_proposal a) = n \<and>
       count_signers ver q (attest_signing_bytes enc (at_proposal a)) (at_signatures a) \<ge> threshold q))"

definition attest_apply_to :: "verifier \<Rightarrow> (attest_proposal \<Rightarrow> bytes) \<Rightarrow> attestation \<Rightarrow> quorum \<Rightarrow> quorum option option" where
  "attest_apply_to ver enc a q = (case attest_authorizes ver enc a q of
       None \<Rightarrow> None
     | Some False \<Rightarrow> Some None
     | Some True \<Rightarrow> (case advance q (attest_member_change (ap_action (at_proposal a))) of
          None \<Rightarrow> None | Some q' \<Rightarrow> Some (Some q')))"

text \<open>The fold both chains use: \<open>for a in .. { q = a.apply_to(&q)?; }\<close>.\<close>

fun fold_chain :: "('a \<Rightarrow> quorum \<Rightarrow> quorum option option) \<Rightarrow> quorum \<Rightarrow> 'a list \<Rightarrow> quorum option option" where
  "fold_chain f q [] = Some (Some q)"
| "fold_chain f q (a # as) = (case f a q of
     None \<Rightarrow> None | Some None \<Rightarrow> Some None | Some (Some q') \<Rightarrow> fold_chain f q' as)"

record quorum_chain =
  qc_genesis :: quorum
  attestations :: "attestation list"

definition qc_new :: "quorum \<Rightarrow> quorum_chain" where
  "qc_new g = \<lparr>qc_genesis = g, attestations = []\<rparr>"

definition qc_current :: "verifier \<Rightarrow> (attest_proposal \<Rightarrow> bytes) \<Rightarrow> quorum_chain \<Rightarrow> quorum option option" where
  "qc_current ver enc c = fold_chain (attest_apply_to ver enc) (qc_genesis c) (attestations c)"

definition qc_append :: "verifier \<Rightarrow> (attest_proposal \<Rightarrow> bytes) \<Rightarrow> quorum_chain \<Rightarrow> attestation
    \<Rightarrow> (bool \<times> quorum_chain) option" where
  "qc_append ver enc c a = (case qc_current ver enc c of
       None \<Rightarrow> None
     | Some None \<Rightarrow> Some (False, c)
     | Some (Some cur) \<Rightarrow> (case attest_apply_to ver enc a cur of
          None \<Rightarrow> None
        | Some None \<Rightarrow> Some (False, c)
        | Some (Some _) \<Rightarrow> Some (True, c\<lparr>attestations := attestations c @ [a]\<rparr>)))"

fun statements_from :: "verifier \<Rightarrow> (attest_proposal \<Rightarrow> bytes) \<Rightarrow> quorum \<Rightarrow> attestation list \<Rightarrow> bytes list option" where
  "statements_from ver enc q [] = Some []"
| "statements_from ver enc q (a # as) = (case attest_apply_to ver enc a q of
       None \<Rightarrow> None
     | Some None \<Rightarrow> Some []
     | Some (Some q') \<Rightarrow> (case statements_from ver enc q' as of
          None \<Rightarrow> None
        | Some rest \<Rightarrow> Some ((case ap_action (at_proposal a) of Statement s \<Rightarrow> [s] | _ \<Rightarrow> []) @ rest)))"

definition authorized_statements :: "verifier \<Rightarrow> (attest_proposal \<Rightarrow> bytes) \<Rightarrow> quorum_chain \<Rightarrow> bytes list option" where
  "authorized_statements ver enc c = statements_from ver enc (qc_genesis c) (attestations c)"

definition is_authorized :: "verifier \<Rightarrow> (attest_proposal \<Rightarrow> bytes) \<Rightarrow> quorum_chain \<Rightarrow> bytes \<Rightarrow> bool option" where
  "is_authorized ver enc c s = map_option (\<lambda>ss. list_ex (\<lambda>x. x = s) ss) (authorized_statements ver enc c)"

record attested_chain =
  ac_owner :: bytes32
  owner_sig :: bytes
  ac_chain :: quorum_chain

definition attested_verify :: "verifier \<Rightarrow> (quorum \<Rightarrow> bytes) \<Rightarrow> (attest_proposal \<Rightarrow> bytes) \<Rightarrow> attested_chain \<Rightarrow> bytes32
    \<Rightarrow> bool option" where
  "attested_verify ver encq enc c program_cid =
     (if length (owner_sig c) \<noteq> 64 then Some False
      else if \<not> ver (ac_owner c) (owner_signing_bytes encq (qc_genesis (ac_chain c)) program_cid) (owner_sig c)
        then Some False
        else map_option (\<lambda>r. r \<noteq> None) (qc_current ver enc (ac_chain c)))"

section \<open>Quorum lemmas\<close>

definition quorum_wf :: "quorum \<Rightarrow> bool" where
  "quorum_wf q \<longleftrightarrow> sorted (members q) \<and> distinct (members q) \<and> 1 \<le> threshold q
     \<and> threshold q \<le> max (length (members q)) 1"

lemma bsearch_base_inv:
  assumes "sorted xs" "x \<in> set xs" "base + sz \<le> length xs" "0 < sz"
    and "\<exists>i. base \<le> i \<and> i < base + sz \<and> xs ! i = x"
  shows "xs ! bsearch_base xs x base sz = x"
  using assms
proof (induction xs x base sz rule: bsearch_base.induct)
  case (1 xs x base sz)
  show ?case
  proof (cases "sz > 1")
    case True
    define half where "half = sz div 2"
    have half: "0 < half" "half < sz" using True by (simp_all add: half_def)
    obtain i where i: "base \<le> i" "i < base + sz" "xs ! i = x" using "1.prems"(5) by blast
    define b where "b = (if xs ! (base + half) > x then base else base + half)"
    have "\<exists>j. b \<le> j \<and> j < b + (sz - half) \<and> xs ! j = x"
    proof (cases "xs ! (base + half) > x")
      case gt: True
      have "i < base + half"
        using sorted_nth_mono [OF "1.prems"(1), of "base + half" i] gt i "1.prems"(3) by (force simp: not_less)
      moreover have "half \<le> sz - half" by (simp add: half_def)
      ultimately show ?thesis using gt i by (auto simp: b_def)
    next
      case le: False
      show ?thesis
      proof (cases "base + half \<le> i")
        case True
        then show ?thesis using le i half by (auto simp: b_def)
      next
        case False
        then have "x \<le> xs ! (base + half)"
          using sorted_nth_mono [OF "1.prems"(1), of i "base + half"] i half "1.prems"(3) by simp
        with le have "xs ! (base + half) = x" by simp
        then show ?thesis using le half by (intro exI [of _ "base + half"]) (auto simp: b_def)
      qed
    qed
    moreover have "b + (sz - half) \<le> length xs" using "1.prems"(3) half by (auto simp: b_def)
    ultimately have "xs ! bsearch_base xs x b (sz - half) = x"
      using "1.IH" [OF True half_def refl] "1.prems"(1,2) half by (simp add: b_def)
    then show ?thesis
      using True unfolding b_def half_def by (subst bsearch_base.simps) (simp add: Let_def split: if_splits)
  next
    case False
    from "1.prems"(5) obtain i where "base \<le> i" "i < base + sz" "xs ! i = x" by blast
    moreover from this False have "i = base" by simp
    ultimately show ?thesis using False by (subst bsearch_base.simps) simp
  qed
qed

lemma bsearch_base_bound: "base < n \<Longrightarrow> base + sz \<le> n \<Longrightarrow> bsearch_base xs x base sz < n"
proof (induction xs x base sz rule: bsearch_base.induct)
  case (1 xs x base sz)
  show ?case
  proof (cases "sz > 1")
    case True
    then show ?thesis using "1.IH" [OF True refl refl] "1.prems"
      by (subst bsearch_base.simps) (auto simp: Let_def)
  qed (use "1.prems" in \<open>simp add: bsearch_base.simps\<close>)
qed

lemma binary_search_iff: "sorted xs \<Longrightarrow> binary_search xs x \<longleftrightarrow> x \<in> set xs"
proof
  assume "binary_search xs x"
  then show "x \<in> set xs"
    using bsearch_base_bound [of 0 "length xs" "length xs" xs x] nth_mem [of "bsearch_base xs x 0 (length xs)" xs]
    by (auto simp: binary_search_def)
next
  assume s: "sorted xs" and x: "x \<in> set xs"
  then have "\<exists>i. 0 \<le> i \<and> i < 0 + length xs \<and> xs ! i = x" by (auto simp: in_set_conv_nth)
  moreover have "xs \<noteq> []" using x by auto
  ultimately show "binary_search xs x"
    using bsearch_base_inv [OF s x, of 0 "length xs"] by (simp add: binary_search_def)
qed

lemma is_member_iff: "quorum_wf q \<Longrightarrow> is_member q x \<longleftrightarrow> x \<in> set (members q)"
  by (simp add: is_member_def quorum_wf_def binary_search_iff)

lemma distinct_remdups_adj_sorted: "sorted xs \<Longrightarrow> distinct (remdups_adj xs)"
  by (induction xs rule: remdups_adj.induct) auto

lemma genesis_wf: "quorum_wf (genesis ms t)"
  by (auto simp: quorum_wf_def genesis_def Let_def clamp_def distinct_remdups_adj_sorted)

lemma clamp_bounds: "lo \<le> hi \<Longrightarrow> lo \<le> clamp x lo hi \<and> clamp x lo hi \<le> hi"
  by (simp add: clamp_def)

lemma advance_seq: "advance q c = Some q' \<Longrightarrow> checked_add (q_seq q) 1 = Some (q_seq q')"
  by (auto simp: advance_def Let_def split: option.splits member_change.splits)

lemma advance_wf: "quorum_wf q \<Longrightarrow> advance q c = Some q' \<Longrightarrow> quorum_wf q'"
  by (auto simp: advance_def Let_def quorum_wf_def binary_search_iff clamp_def sorted_filter [of id, simplified]
      split: option.splits member_change.splits if_splits)

lemma signers_subset: "quorum_wf q \<Longrightarrow> set (signers ver q msg sigs) \<subseteq> set (members q)"
  by (auto simp: signers_def is_member_iff)

lemma signers_valid: "m \<in> set (signers ver q msg sigs) \<Longrightarrow> \<exists>sig. valid_sig ver m msg sig"
  by (auto simp: signers_def)

lemma count_signers_card: "count_signers ver q msg sigs = card (set (signers ver q msg sigs))"
  by (simp add: count_signers_def signers_def distinct_card [symmetric])

lemma count_signers_le: "quorum_wf q \<Longrightarrow> count_signers ver q msg sigs \<le> length (members q)"
  unfolding count_signers_card by (metis card_mono distinct_card finite_set quorum_wf_def signers_subset)

text \<open>
  Counting: two sets of at least \<open>k\<close> of the \<open>n\<close> members share more members than the sizing
  tolerates faults, so at least one of them is outside any set of faulty members that small.
\<close>

lemma quorum_intersection:
  assumes wf: "quorum_wf q" and sized: "is_intersection_sized q"
    and A: "A \<subseteq> set (members q)" "threshold q \<le> card A" and B: "B \<subseteq> set (members q)" "threshold q \<le> card B"
    and F: "card (F \<inter> set (members q)) \<le> byzantine_tolerance q"
  shows "\<exists>m. m \<in> A \<and> m \<in> B \<and> m \<notin> F"
proof -
  have fin: "finite A" "finite B" using A B finite_subset by blast+
  have "card A + card B = card (A \<union> B) + card (A \<inter> B)" by (rule card_Un_Int [OF fin])
  moreover have "card (A \<union> B) \<le> card (set (members q))" using A(1) B(1) by (intro card_mono) auto
  moreover have "card (set (members q)) = length (members q)" using wf by (simp add: quorum_wf_def distinct_card)
  ultimately have "byzantine_tolerance q < card (A \<inter> B)"
    using A(2) B(2) sized by (simp add: byzantine_tolerance_def is_intersection_sized_def)
  moreover have "card (A \<inter> B) \<le> card (F \<inter> set (members q))" if "A \<inter> B \<subseteq> F"
    using A that by (intro card_mono) auto
  ultimately have "\<not> A \<inter> B \<subseteq> F" using F by linarith
  then show ?thesis by blast
qed

section \<open>Chains of approvals\<close>

text \<open>
  The contract the two kinds of approvals (attestations here, governance approvals elsewhere)
  share: an accepted one advances the sequence number by one and keeps the quorum well formed.
  What follows for the folded chain is proved once.
\<close>

locale approval_chain =
  fixes apply_to :: "'a \<Rightarrow> quorum \<Rightarrow> quorum option option"
  assumes seq_step: "apply_to a q = Some (Some q') \<Longrightarrow> checked_add (q_seq q) 1 = Some (q_seq q')"
    and wf_step: "quorum_wf q \<Longrightarrow> apply_to a q = Some (Some q') \<Longrightarrow> quorum_wf q'"
begin

lemma fold_append:
  "fold_chain apply_to q (as @ bs) = (case fold_chain apply_to q as of
     None \<Rightarrow> None | Some None \<Rightarrow> Some None | Some (Some q') \<Rightarrow> fold_chain apply_to q' bs)"
  by (induction as arbitrary: q) (simp_all split: option.split)

lemma fold_seq: "fold_chain apply_to q as = Some (Some r) \<Longrightarrow> unat (q_seq r) = unat (q_seq q) + length as"
proof (induction as arbitrary: q)
  case (Cons a as)
  then obtain q' where "apply_to a q = Some (Some q')" "fold_chain apply_to q' as = Some (Some r)"
    by (auto split: option.splits)
  with Cons.IH [of q'] seq_step [of a q q'] show ?case unfolding checked_add_Some_iff by simp
qed simp

lemma fold_wf: "quorum_wf q \<Longrightarrow> fold_chain apply_to q as = Some (Some r) \<Longrightarrow> quorum_wf r"
proof (induction as arbitrary: q)
  case (Cons a as)
  then obtain q' where "apply_to a q = Some (Some q')" "fold_chain apply_to q' as = Some (Some r)"
    by (auto split: option.splits)
  with Cons.IH [of q'] wf_step [OF Cons.prems(1)] show ?case by blast
qed simp

end

lemma attest_apply_to_Some:
  "attest_apply_to ver enc a q = Some (Some q') \<longleftrightarrow>
     attest_authorizes ver enc a q = Some True \<and> advance q (attest_member_change (ap_action (at_proposal a))) = Some q'"
  by (auto simp: attest_apply_to_def split: option.splits bool.splits)

interpretation att: approval_chain "attest_apply_to ver enc"
  by unfold_locales (auto simp only: attest_apply_to_Some intro: advance_seq advance_wf)

lemma statements_fold:
  "fold_chain (attest_apply_to ver enc) q as = Some (Some r) \<Longrightarrow>
   statements_from ver enc q as = Some (concat (map (\<lambda>a. case ap_action (at_proposal a) of Statement s \<Rightarrow> [s] | _ \<Rightarrow> []) as))"
  by (induction as arbitrary: q) (auto split: option.splits)

text \<open>The members and the threshold in force at a place of a chain, from the actions before it.\<close>

fun quorum_after :: "attest_action \<Rightarrow> bytes32 set \<times> nat \<Rightarrow> bytes32 set \<times> nat" where
  "quorum_after (AddMember m) (M, t) = (insert m M, t)"
| "quorum_after (RemoveMember m) (M, t) = (M - {m}, min t (max (card (M - {m})) 1))"
| "quorum_after (SetThreshold n) (M, t) = (M, clamp (unat n) 1 (max (card M) 1))"
| "quorum_after (Statement s) (M, t) = (M, t)"

definition in_force :: "quorum \<Rightarrow> attestation list \<Rightarrow> nat \<Rightarrow> bytes32 set \<times> nat" where
  "in_force g as i = fold (\<lambda>a. quorum_after (ap_action (at_proposal a))) (take i as) (set (members g), threshold g)"

text \<open>The attestation at a place has the sequence number of the place and carries valid signatures of at least the threshold of distinct
  members in force there.\<close>

definition signed_at :: "verifier \<Rightarrow> (attest_proposal \<Rightarrow> bytes) \<Rightarrow> quorum \<Rightarrow> attestation list \<Rightarrow> nat \<Rightarrow> bool" where
  "signed_at ver enc g as i \<longleftrightarrow> (let a = as ! i in unat (ap_seq (at_proposal a)) = unat (q_seq g) + i + 1
     \<and> snd (in_force g as i) \<le> card {m \<in> fst (in_force g as i). \<exists>s \<in> set (at_signatures a). member s = m
          \<and> valid_sig ver m (attest_signing_bytes enc (at_proposal a)) (signature s)})"

lemma advance_in_force:
  assumes "quorum_wf q" "advance q (attest_member_change act) = Some q'"
  shows "(set (members q'), threshold q') = quorum_after act (set (members q), threshold q)"
proof -
  have d: "distinct (members q)" "sorted (members q)" using assms(1) by (simp_all add: quorum_wf_def)
  have "card (set (members q) - {m}) = length (filter (\<lambda>x. x \<noteq> m) (members q))" for m
  proof -
    have "set (members q) - {m} = set (filter (\<lambda>x. x \<noteq> m) (members q))" by auto
    then show ?thesis using d(1) by (simp only: distinct_card distinct_filter)
  qed
  moreover have "card (set (members q)) = length (members q)" using d(1) by (rule distinct_card)
  ultimately show ?thesis using assms(2) d
    by (cases act) (auto simp: advance_def Let_def binary_search_iff insert_absorb split: option.splits if_splits)
qed

lemma signers_set: "quorum_wf q \<Longrightarrow> set (signers ver q msg sigs) = {m \<in> set (members q). \<exists>s \<in> set sigs. member s = m \<and> valid_sig ver m msg (signature s)}"
  by (auto simp: signers_def is_member_iff)

lemma authorizes_signed:
  assumes "quorum_wf q" "attest_authorizes ver enc a q = Some ok"
  shows "ok \<longleftrightarrow> signed_at ver enc q (a # as) 0"
  using assms(2) by (auto simp: attest_authorizes_def signed_at_def in_force_def Let_def count_signers_card signers_set [OF assms(1)]
      checked_add_Some_iff word_unat_eq_iff split: option.splits)

lemma signed_later:
  assumes "quorum_wf q" "attest_apply_to ver enc a q = Some (Some q')"
  shows "signed_at ver enc q (a # as) (Suc j) \<longleftrightarrow> signed_at ver enc q' as j"
proof -
  have "advance q (attest_member_change (ap_action (at_proposal a))) = Some q'" using assms(2) by (simp add: attest_apply_to_Some)
  from advance_in_force [OF assms(1) this] advance_seq [OF this] show ?thesis
    by (simp add: signed_at_def in_force_def Let_def checked_add_Some_iff)
qed

lemma statements_from_iff:
  "quorum_wf q \<Longrightarrow> statements_from ver enc q as = Some ss \<Longrightarrow>
   s \<in> set ss \<longleftrightarrow> (\<exists>i < length as. ap_action (at_proposal (as ! i)) = Statement s \<and> (\<forall>j \<le> i. signed_at ver enc q as j))"
proof (induction as arbitrary: q ss)
  case (Cons a as)
  obtain r where r: "attest_apply_to ver enc a q = Some r" using Cons.prems(2) by (auto split: option.splits)
  then obtain ok where ok: "attest_authorizes ver enc a q = Some ok" by (auto simp: attest_apply_to_def split: option.splits)
  note first = authorizes_signed [OF Cons.prems(1) ok, of as]
  show ?case
  proof (cases r)
    case None
    then have "\<not> ok" using r ok by (auto simp: attest_apply_to_def split: option.splits bool.splits)
    then show ?thesis using Cons.prems(2) r None first by auto
  next
    case (Some q')
    then have app: "attest_apply_to ver enc a q = Some (Some q')" using r by simp
    then have ok': "ok" using ok by (simp add: attest_apply_to_Some)
    obtain rest where rest: "statements_from ver enc q' as = Some rest" "ss = (case ap_action (at_proposal a) of Statement s \<Rightarrow> [s] | _ \<Rightarrow> []) @ rest"
      using app Cons.prems(2) by (auto split: option.splits)
    have wf: "quorum_wf q'" using att.fold_wf [OF Cons.prems(1), of ver enc "[a]" q'] app by simp
    have all: "(\<forall>j \<le> Suc i. signed_at ver enc q (a # as) j) \<longleftrightarrow> (\<forall>j \<le> i. signed_at ver enc q' as j)" for i
      using first ok' signed_later [OF Cons.prems(1) app] by (metis Suc_le_mono le0 not0_implies_Suc)
    have "s \<in> set ss \<longleftrightarrow> ap_action (at_proposal a) = Statement s \<or> s \<in> set rest" by (auto simp: rest(2) split: attest_action.splits)
    also have "\<dots> \<longleftrightarrow> (\<exists>i < length (a # as). ap_action (at_proposal ((a # as) ! i)) = Statement s \<and> (\<forall>j \<le> i. signed_at ver enc q (a # as) j))"
      unfolding Cons.IH [OF wf rest(1)] using first ok' all by (simp add: Ex_less_Suc2)
    finally show ?thesis .
  qed
qed simp

lemma in_force_wf: "1 \<le> threshold g \<Longrightarrow> 1 \<le> snd (in_force g as i)"
proof -
  assume t: "1 \<le> threshold g"
  have "1 \<le> t \<Longrightarrow> 1 \<le> snd (fold (\<lambda>a. quorum_after (ap_action (at_proposal a))) xs (M, t))" for xs M t
  proof (induction xs arbitrary: M t)
    case (Cons a xs)
    then show ?case by (cases "ap_action (at_proposal a)") (auto simp: clamp_def)
  qed simp
  then show ?thesis using t by (simp add: in_force_def)
qed

text \<open>
  (C19) A statement is seen as authorized exactly when it stands in the chain at a place where it, and every attestation before it,
  is signed by at least the threshold, never zero, of distinct members of the quorum in force at its own place: the genesis quorum
  with the additions, removals and threshold changes before that place applied in order.
\<close>

theorem authorized_statement_signed:
  assumes "quorum_wf (qc_genesis c)" "is_authorized ver enc c s = Some ok"
  shows "(ok \<longleftrightarrow> (\<exists>i < length (attestations c). ap_action (at_proposal (attestations c ! i)) = Statement s
      \<and> (\<forall>j \<le> i. signed_at ver enc (qc_genesis c) (attestations c) j)))
    \<and> (\<forall>j. 1 \<le> snd (in_force (qc_genesis c) (attestations c) j))"
proof -
  obtain ss where "statements_from ver enc (qc_genesis c) (attestations c) = Some ss" "ok \<longleftrightarrow> s \<in> set ss"
    using assms(2) by (auto simp: is_authorized_def authorized_statements_def list_ex_iff)
  moreover have "1 \<le> threshold (qc_genesis c)" using assms(1) by (simp add: quorum_wf_def)
  ultimately show ?thesis using statements_from_iff [OF assms(1)] in_force_wf by blast
qed

text \<open>Chains as nodes build them: from a genesis, only by \<open>append\<close>.\<close>

inductive built :: "verifier \<Rightarrow> (attest_proposal \<Rightarrow> bytes) \<Rightarrow> quorum_chain \<Rightarrow> bool" for ver enc where
  start: "built ver enc (qc_new (genesis ms t))"
| append: "built ver enc c \<Longrightarrow> qc_append ver enc c a = Some (ok, c') \<Longrightarrow> built ver enc c'"

text \<open>
  A chain built from a genesis by \<open>append\<close> folds cleanly: its current quorum exists, has
  sorted distinct members and a threshold within them, and its sequence number is the number of
  attestations accepted.
\<close>

theorem built_chain_current:
  assumes "built ver enc c"
  shows "\<exists>q. qc_current ver enc c = Some (Some q) \<and> quorum_wf q \<and> unat (q_seq q) = length (attestations c)"
proof -
  have "(\<exists>q. qc_current ver enc c = Some (Some q)) \<and> quorum_wf (qc_genesis c) \<and> q_seq (qc_genesis c) = 0"
    using assms
  proof (induction rule: built.induct)
    case (start ms t)
    then show ?case using genesis_wf by (simp add: qc_new_def qc_current_def genesis_def Let_def)
  next
    case (append c a ok c')
    then obtain cur where cur: "qc_current ver enc c = Some (Some cur)" by blast
    show ?case
    proof (cases "c' = c")
      case False
      then obtain q' where "attest_apply_to ver enc a cur = Some (Some q')" "c' = c\<lparr>attestations := attestations c @ [a]\<rparr>"
        using append(2) cur by (auto simp: qc_append_def split: option.splits)
      with append cur show ?thesis by (simp add: qc_current_def att.fold_append)
    qed (use append in blast)
  qed
  then obtain q where q: "qc_current ver enc c = Some (Some q)" and g: "quorum_wf (qc_genesis c)" "q_seq (qc_genesis c) = 0"
    by blast
  from att.fold_wf [OF g(1) q [unfolded qc_current_def]] att.fold_seq [OF q [unfolded qc_current_def]] g(2) q
  show ?thesis by simp
qed

section \<open>Witnesses\<close>

definition any_ver :: verifier where
  "any_ver pk msg sig \<longleftrightarrow> True"

definition no_enc :: "'a \<Rightarrow> bytes" where
  "no_enc x = []"

definition wit_att :: attestation where
  "wit_att = \<lparr>at_proposal = \<lparr>ap_action = Statement [7], ap_seq = 1\<rparr>,
     at_signatures = [\<lparr>member = 3, signature = replicate 64 0\<rparr>]\<rparr>"

definition wit_quorum :: quorum where
  "wit_quorum = genesis [3, 1, 3] 1"

definition wit_chain :: quorum_chain where
  "wit_chain = \<lparr>qc_genesis = wit_quorum, attestations = [wit_att]\<rparr>"

lemma wit_genesis: "wit_quorum = \<lparr>members = [1, 3], threshold = 1, q_seq = 0\<rparr>"
  by (simp add: wit_quorum_def genesis_def clamp_def word_le_nat_alt)

lemma wit_member: "is_member (wit_quorum) 3"
  by (subst is_member_iff [OF genesis_wf [of "[3, 1, 3]" 1, folded wit_quorum_def]]) (simp add: wit_genesis)

lemma wit_apply: "attest_apply_to any_ver no_enc wit_att (wit_quorum) = Some (Some ((wit_quorum)\<lparr>q_seq := 1\<rparr>))"
  using wit_member
  by (simp add: attest_apply_to_Some attest_authorizes_def wit_att_def count_signers_def signers_def valid_sig_def
      any_ver_def advance_def Let_def wit_genesis checked_add_def)

theorem authorized_statement_signed_witness:
  "signed_at any_ver no_enc (qc_genesis wit_chain) (attestations wit_chain) 0 \<and> ap_action (at_proposal (attestations wit_chain ! 0)) = Statement [7]"
proof -
  have "is_authorized any_ver no_enc wit_chain [7] = Some True"
    by (simp add: is_authorized_def authorized_statements_def wit_chain_def wit_apply wit_att_def [THEN arg_cong, of "\<lambda>a. ap_action (at_proposal a)"])
  moreover have "quorum_wf (qc_genesis wit_chain)" by (simp add: wit_chain_def wit_quorum_def genesis_wf)
  ultimately show ?thesis using authorized_statement_signed [of wit_chain any_ver no_enc "[7]" True] by (auto simp: wit_chain_def)
qed

theorem built_chain_current_witness:
  "\<exists>q. qc_current any_ver no_enc wit_chain = Some (Some q) \<and> quorum_wf q \<and> unat (q_seq q) = 1"
proof -
  have "qc_append any_ver no_enc (qc_new (wit_quorum)) wit_att = Some (True, wit_chain)"
    by (simp add: qc_append_def qc_current_def qc_new_def wit_apply wit_chain_def)
  from built_chain_current [OF built.append [OF built.start this [unfolded wit_quorum_def]]] show ?thesis by (simp add: wit_chain_def)
qed

end
