(* ===== verification/Sequencer.thy ===== *)
theory Sequencer
  imports Quorum "HOL-Library.Sublist"
begin

text \<open>
  Ordered writes: \<open>src/crates/com/src/sequencer.rs\<close> (the write, its commit, the per-account
  sequence, the signing member with its non-equivocation rule) and the store on top of it in
  \<open>src/crates/noded/src/sequence.rs\<close> (submit, adopt, sync, the persistent signed-set, signature
  collection). The network is a parameter: the head record of each peer with the sequence it
  points at, and the replies of solicited members. \<open>sg\<close> is a node's Ed25519 signing function.
\<close>

section \<open>Writes, commits and sequences\<close>

definition SEQUENCER_DOMAIN :: bytes where "SEQUENCER_DOMAIN = ascii ''craftec/sequencer/1''"

definition OWNER_DOMAIN :: bytes where "OWNER_DOMAIN = ascii ''craftec/sequencer-owner/1''"

type_synonym signer = "bytes32 \<Rightarrow> bytes \<Rightarrow> bytes"

record sequenced_write =
  account :: bytes32
  nonce :: u64
  payload :: bytes
  w_owner_sig :: bytes

definition authored_bytes :: "bytes32 \<Rightarrow> u64 \<Rightarrow> bytes \<Rightarrow> bytes" where
  "authored_bytes acct n p = OWNER_DOMAIN @ be_bytes 32 acct @ le_bytes 8 n @ p"

definition author :: "signer \<Rightarrow> bytes32 \<Rightarrow> u64 \<Rightarrow> bytes \<Rightarrow> sequenced_write" where
  "author sg acct n p = \<lparr>account = acct, nonce = n, payload = p, w_owner_sig = sg acct (authored_bytes acct n p)\<rparr>"

definition owner_authentic :: "verifier \<Rightarrow> sequenced_write \<Rightarrow> bool" where
  "owner_authentic ver w = valid_sig ver (account w) (authored_bytes (account w) (nonce w) (payload w)) (w_owner_sig w)"

definition write_signing_bytes :: "(sequenced_write \<Rightarrow> bytes) \<Rightarrow> sequenced_write \<Rightarrow> bytes" where
  "write_signing_bytes enc w = SEQUENCER_DOMAIN @ enc w"

definition write_sign :: "signer \<Rightarrow> (sequenced_write \<Rightarrow> bytes) \<Rightarrow> bytes32 \<Rightarrow> sequenced_write \<Rightarrow> member_signature" where
  "write_sign sg enc self_id w = \<lparr>member = self_id, signature = sg self_id (write_signing_bytes enc w)\<rparr>"

record sequenced_commit =
  c_write :: sequenced_write
  c_signatures :: "member_signature list"

definition commit_authorizes :: "verifier \<Rightarrow> (sequenced_write \<Rightarrow> bytes) \<Rightarrow> sequenced_commit \<Rightarrow> quorum \<Rightarrow> bool" where
  "commit_authorizes ver enc c q \<longleftrightarrow> owner_authentic ver (c_write c) \<and> is_intersection_sized q
     \<and> count_signers ver q (write_signing_bytes enc (c_write c)) (c_signatures c) \<ge> threshold q"

record account_sequence =
  s_account :: bytes32
  commits :: "sequenced_commit list"

definition seq_new :: "bytes32 \<Rightarrow> account_sequence" where
  "seq_new acct = \<lparr>s_account = acct, commits = []\<rparr>"

definition next_nonce :: "account_sequence \<Rightarrow> u64" where
  "next_nonce s = of_nat (length (commits s))"

definition seq_append :: "verifier \<Rightarrow> (sequenced_write \<Rightarrow> bytes) \<Rightarrow> account_sequence \<Rightarrow> sequenced_commit \<Rightarrow> quorum
    \<Rightarrow> bool \<times> account_sequence" where
  "seq_append ver enc s c q =
     (if account (c_write c) = s_account s \<and> nonce (c_write c) = next_nonce s \<and> commit_authorizes ver enc c q
      then (True, s\<lparr>commits := commits s @ [c]\<rparr>) else (False, s))"

definition seq_verify :: "verifier \<Rightarrow> (sequenced_write \<Rightarrow> bytes) \<Rightarrow> account_sequence \<Rightarrow> quorum \<Rightarrow> bool" where
  "seq_verify ver enc s q = list_all (\<lambda>(i, c). account (c_write c) = s_account s \<and> nonce (c_write c) = of_nat i
     \<and> commit_authorizes ver enc c q) (enumerate 0 (commits s))"

definition payload_at :: "account_sequence \<Rightarrow> u64 \<Rightarrow> bytes option" where
  "payload_at s n = (if unat n < length (commits s) then Some (payload (c_write (commits s ! unat n))) else None)"

section \<open>The signing member\<close>

record sequencer_member =
  sm_id :: bytes32
  sm_signed :: "(bytes32 \<times> u64) \<Rightarrow> sequenced_write option"

definition member_new :: "bytes32 \<Rightarrow> sequencer_member" where
  "member_new self_id = \<lparr>sm_id = self_id, sm_signed = Map.empty\<rparr>"

definition member_sign :: "verifier \<Rightarrow> signer \<Rightarrow> (sequenced_write \<Rightarrow> bytes) \<Rightarrow> sequencer_member \<Rightarrow> sequenced_write
    \<Rightarrow> member_signature option \<times> sequencer_member" where
  "member_sign ver sg enc m w =
     (if \<not> owner_authentic ver w then (None, m)
      else let slot = (account w, nonce w);
               sign = (Some (write_sign sg enc (sm_id m) w), m\<lparr>sm_signed := (sm_signed m)(slot \<mapsto> w)\<rparr>) in
        case sm_signed m slot of
          Some prev \<Rightarrow> if prev \<noteq> w then (None, m) else sign
        | None \<Rightarrow> sign)"

text \<open>The writes a member signs over a run of requests.\<close>

fun signed_writes :: "verifier \<Rightarrow> signer \<Rightarrow> (sequenced_write \<Rightarrow> bytes) \<Rightarrow> sequencer_member \<Rightarrow> sequenced_write list
    \<Rightarrow> sequenced_write list" where
  "signed_writes ver sg enc m [] = []"
| "signed_writes ver sg enc m (w # ws) = (case member_sign ver sg enc m w of
     (None, m') \<Rightarrow> signed_writes ver sg enc m' ws
   | (Some _, m') \<Rightarrow> w # signed_writes ver sg enc m' ws)"

section \<open>The store\<close>

type_synonym seq_key = "bytes32 \<times> bytes32 \<times> bytes32"
type_synonym signed_key = "bytes32 \<times> bytes32 \<times> bytes32 \<times> u64"

record seq_store =
  me :: bytes32
  sequences :: "seq_key \<Rightarrow> account_sequence option"
  st_signed :: "signed_key \<Rightarrow> bytes32 option"

datatype head_reply = Newer account_sequence | UpToDate | NoAnswer

text \<open>
  \<open>heads\<close> gives, per peer, the version of its published head record and the sequence its
  content decodes to, if any of it resolves.
\<close>

type_synonym heads = "bytes32 \<Rightarrow> (u64 \<times> account_sequence option) option"

definition fetch_if_newer :: "heads \<Rightarrow> bytes32 \<Rightarrow> nat \<Rightarrow> head_reply" where
  "fetch_if_newer heads peer local_len = (case heads peer of None \<Rightarrow> NoAnswer
     | Some (version, content) \<Rightarrow>
        if unat version \<le> local_len + 1 then UpToDate
        else (case content of Some s \<Rightarrow> Newer s | None \<Rightarrow> NoAnswer))"

definition local_len :: "seq_store \<Rightarrow> seq_key \<Rightarrow> nat" where
  "local_len st key = (case sequences st key of None \<Rightarrow> 0 | Some s \<Rightarrow> length (commits s))"

definition extends :: "account_sequence \<Rightarrow> account_sequence \<Rightarrow> bool" where
  "extends base longer \<longleftrightarrow> length (commits longer) \<ge> length (commits base)
     \<and> list_all (\<lambda>(a, b). a = b) (zip (commits base) (commits longer))"

definition adopt :: "verifier \<Rightarrow> (sequenced_write \<Rightarrow> bytes) \<Rightarrow> seq_store \<Rightarrow> seq_key \<Rightarrow> account_sequence \<Rightarrow> quorum
    \<Rightarrow> bool \<times> seq_store" where
  "adopt ver enc st key fetched q =
     (if s_account fetched \<noteq> snd (snd key) \<or> \<not> seq_verify ver enc fetched q then (False, st)
      else if (case sequences st key of None \<Rightarrow> False | Some c \<Rightarrow> \<not> extends c fetched) then (False, st)
      else if length (commits fetched) > local_len st key
        then (True, st\<lparr>sequences := (sequences st)(key \<mapsto> fetched)\<rparr>)
        else (True, st))"

fun adopt_from :: "verifier \<Rightarrow> (sequenced_write \<Rightarrow> bytes) \<Rightarrow> heads \<Rightarrow> seq_key \<Rightarrow> quorum \<Rightarrow> bytes32 list \<Rightarrow> seq_store
    \<Rightarrow> seq_store" where
  "adopt_from ver enc heads key q [] st = st"
| "adopt_from ver enc heads key q (p # ps) st = (case fetch_if_newer heads p (local_len st key) of
       Newer fetched \<Rightarrow> adopt_from ver enc heads key q ps (snd (adopt ver enc st key fetched q))
     | _ \<Rightarrow> adopt_from ver enc heads key q ps st)"

text \<open>
  \<open>sync\<close>: \<open>full_due\<close> is the outcome of the timer of the full round, \<open>census\<close> the peers of the
  membership, \<open>None\<close> while it is not set.
\<close>

definition sync :: "verifier \<Rightarrow> (sequenced_write \<Rightarrow> bytes) \<Rightarrow> (bytes32 \<Rightarrow> bytes32 \<Rightarrow> quorum option) \<Rightarrow> bool \<Rightarrow> heads
    \<Rightarrow> bytes32 list option \<Rightarrow> seq_key \<Rightarrow> seq_store \<Rightarrow> seq_store" where
  "sync ver enc quorum_for full_due heads census key st =
     (case quorum_for (fst key) (fst (snd key)) of None \<Rightarrow> st | Some q \<Rightarrow>
        if \<not> is_intersection_sized q then st
        else let walk = (\<lambda>st. case census of None \<Rightarrow> st
                          | Some ps \<Rightarrow> adopt_from ver enc heads key q (filter (\<lambda>p. p \<noteq> me st) ps) st) in
          if full_due then walk st
          else if snd (snd key) = me st \<and> local_len st key > 0 then st
          else (case fetch_if_newer heads (snd (snd key)) (local_len st key) of
              Newer fetched \<Rightarrow> (case adopt ver enc st key fetched q of
                 (True, st') \<Rightarrow> st' | (False, st') \<Rightarrow> walk st')
            | UpToDate \<Rightarrow> st
            | NoAnswer \<Rightarrow> walk st))"

definition submit :: "verifier \<Rightarrow> (sequenced_write \<Rightarrow> bytes) \<Rightarrow> (bytes32 \<Rightarrow> bytes32 \<Rightarrow> quorum option) \<Rightarrow> bool \<Rightarrow> heads
    \<Rightarrow> bytes32 list option \<Rightarrow> bytes32 \<Rightarrow> bytes32 \<Rightarrow> sequenced_commit \<Rightarrow> seq_store \<Rightarrow> bool \<times> seq_store" where
  "submit ver enc quorum_for full_due heads census owner program_cid c st =
     (case quorum_for owner program_cid of None \<Rightarrow> (False, st) | Some q \<Rightarrow>
        let acct = account (c_write c); key = (owner, program_cid, acct);
            st = sync ver enc quorum_for full_due heads census key st;
            s = (case sequences st key of None \<Rightarrow> seq_new acct | Some s \<Rightarrow> s) in
        case seq_append ver enc s c q of
          (False, _) \<Rightarrow> (False, st)
        | (True, s') \<Rightarrow> (True, st\<lparr>sequences := (sequences st)(key \<mapsto> s')\<rparr>))"

definition sign_write_locally :: "verifier \<Rightarrow> signer \<Rightarrow> (sequenced_write \<Rightarrow> bytes) \<Rightarrow> (bytes \<Rightarrow> bytes32)
    \<Rightarrow> (bytes32 \<Rightarrow> bytes32 \<Rightarrow> quorum option) \<Rightarrow> bytes32 \<Rightarrow> bytes32 \<Rightarrow> sequenced_write \<Rightarrow> seq_store
    \<Rightarrow> member_signature option \<times> seq_store" where
  "sign_write_locally ver sg enc cid_of quorum_for owner program_cid w st =
     (case quorum_for owner program_cid of None \<Rightarrow> (None, st) | Some q \<Rightarrow>
        if \<not> is_member q (me st) \<or> \<not> is_intersection_sized q \<or> \<not> owner_authentic ver w then (None, st)
        else let key = (owner, program_cid, account w, nonce w); h = cid_of (write_signing_bytes enc w) in
          case st_signed st key of
            Some prev \<Rightarrow> if prev \<noteq> h then (None, st)
                         else (Some (write_sign sg enc (me st) w), st\<lparr>st_signed := (st_signed st)(key \<mapsto> h)\<rparr>)
          | None \<Rightarrow> (Some (write_sign sg enc (me st) w), st\<lparr>st_signed := (st_signed st)(key \<mapsto> h)\<rparr>))"

text \<open>Signature collection; \<open>solicit\<close> is the reply of a remote member, \<open>None\<close> for none.\<close>

fun collect_sigs :: "(seq_store \<Rightarrow> member_signature option \<times> seq_store) \<Rightarrow> (bytes32 \<Rightarrow> member_signature option)
    \<Rightarrow> nat \<Rightarrow> bytes32 list \<Rightarrow> member_signature list \<Rightarrow> seq_store \<Rightarrow> member_signature list \<times> seq_store" where
  "collect_sigs local solicit k [] sigs st = (sigs, st)"
| "collect_sigs local solicit k (m # ms) sigs st =
     (if length sigs \<ge> k then (sigs, st)
      else case (if m = me st then local st else (solicit m, st)) of
        (None, st') \<Rightarrow> collect_sigs local solicit k ms sigs st'
      | (Some s, st') \<Rightarrow>
          collect_sigs local solicit k ms
            (if list_ex (\<lambda>x. member x = member s) sigs then sigs else sigs @ [s]) st')"

definition sequence_write :: "verifier \<Rightarrow> signer \<Rightarrow> (sequenced_write \<Rightarrow> bytes) \<Rightarrow> (bytes \<Rightarrow> bytes32)
    \<Rightarrow> (bytes32 \<Rightarrow> bytes32 \<Rightarrow> quorum option) \<Rightarrow> bool \<Rightarrow> heads \<Rightarrow> bytes32 list option
    \<Rightarrow> (bytes32 \<Rightarrow> member_signature option) \<Rightarrow> bytes32 \<Rightarrow> bytes32 \<Rightarrow> sequenced_write \<Rightarrow> seq_store \<Rightarrow> bool \<times> seq_store" where
  "sequence_write ver sg enc cid_of quorum_for full_due heads census solicit owner program_cid w st =
     (case quorum_for owner program_cid of None \<Rightarrow> (False, st) | Some q \<Rightarrow>
        if \<not> is_intersection_sized q \<or> \<not> owner_authentic ver w then (False, st)
        else case collect_sigs (sign_write_locally ver sg enc cid_of quorum_for owner program_cid w) solicit
               (threshold q) (members q) [] st of
          (sigs, st') \<Rightarrow>
            if length sigs < threshold q then (False, st')
            else submit ver enc quorum_for full_due heads census owner program_cid
                   \<lparr>c_write = w, c_signatures = sigs\<rparr> st')"

section \<open>Sequence lemmas\<close>

lemma seq_verify_nth:
  "seq_verify ver enc s q \<longleftrightarrow> (\<forall>i < length (commits s). account (c_write (commits s ! i)) = s_account s
     \<and> nonce (c_write (commits s ! i)) = of_nat i \<and> commit_authorizes ver enc (commits s ! i) q)"
  by (auto simp: seq_verify_def list_all_length nth_enumerate_eq)

lemma seq_append_verify:
  assumes "seq_verify ver enc s q" "seq_append ver enc s c q = (ok, s')"
  shows "seq_verify ver enc s' q" "s_account s' = s_account s" "prefix (commits s) (commits s')"
  using assms by (auto simp: seq_append_def seq_verify_nth next_nonce_def nth_append less_Suc_eq split: if_splits)

lemma extends_prefix: "extends a b \<longleftrightarrow> prefix (commits a) (commits b)"
proof
  assume "extends a b"
  then have le: "length (commits a) \<le> length (commits b)"
    and all: "\<forall>i < length (commits a). commits a ! i = commits b ! i"
    by (auto simp: extends_def list_all_length)
  then have "commits a = take (length (commits a)) (commits b)" by (intro nth_equalityI) auto
  then show "prefix (commits a) (commits b)" by (metis take_is_prefix)
qed (auto simp: extends_def list_all_length prefix_def nth_append)

section \<open>Non-equivocation\<close>

text \<open>A signed slot keeps its write for the rest of the run.\<close>

lemma member_sign_keeps:
  "member_sign ver sg enc m w = (r, m') \<Longrightarrow> sm_signed m slot = Some x \<Longrightarrow> sm_signed m' slot = Some x"
  by (auto simp: member_sign_def Let_def split: if_splits option.splits)

lemma member_sign_Some:
  "member_sign ver sg enc m w = (Some sig, m') \<Longrightarrow> sm_signed m' (account w, nonce w) = Some w"
  by (auto simp: member_sign_def Let_def split: if_splits option.splits)

lemma signed_writes_slot:
  "sm_signed m (account w, nonce w) = Some x \<Longrightarrow> w \<in> set (signed_writes ver sg enc m ws) \<Longrightarrow> w = x"
proof (induction ver sg enc m ws rule: signed_writes.induct)
  case (2 ver sg enc m v ws)
  obtain r m' where sign: "member_sign ver sg enc m v = (r, m')" by (cases "member_sign ver sg enc m v")
  note keep = member_sign_keeps [OF sign "2.prems"(1)]
  show ?case
  proof (cases r)
    case None
    then show ?thesis using "2.IH"(1) [OF sign [symmetric] None keep] "2.prems"(2) sign by simp
  next
    case (Some sig)
    then have "w = v \<Longrightarrow> w = x" using member_sign_Some [OF sign [unfolded Some]] keep by auto
    then show ?thesis using "2.IH"(2) [OF sign [symmetric] Some keep] "2.prems"(2) sign Some by auto
  qed
qed simp

lemma signed_writes_unique:
  "w1 \<in> set (signed_writes ver sg enc m ws) \<Longrightarrow> w2 \<in> set (signed_writes ver sg enc m ws) \<Longrightarrow>
   account w1 = account w2 \<Longrightarrow> nonce w1 = nonce w2 \<Longrightarrow> w1 = w2"
proof (induction ver sg enc m ws rule: signed_writes.induct)
  case (2 ver sg enc m v ws)
  obtain r m' where sign: "member_sign ver sg enc m v = (r, m')" by (cases "member_sign ver sg enc m v")
  show ?case
  proof (cases r)
    case None
    then show ?thesis using "2.IH"(1) [OF sign [symmetric] None] "2.prems" sign by simp
  next
    case (Some sig)
    have mem: "w = v \<or> w \<in> set (signed_writes ver sg enc m' ws)" if "w \<in> set (signed_writes ver sg enc m (v # ws))" for w
      using that sign Some by auto
    have same: "w = v" if "w \<in> set (signed_writes ver sg enc m' ws)" "account w = account v" "nonce w = nonce v" for w
      using signed_writes_slot [of m' w v ver sg enc ws] member_sign_Some [OF sign [unfolded Some]] that by simp
    note IH = "2.IH"(2) [OF sign [symmetric] Some]
    from mem [OF "2.prems"(1)] mem [OF "2.prems"(2)] show ?thesis
      using "2.prems"(3,4) by (elim disjE) (simp, metis same, metis same, rule IH)
  qed
qed simp

text \<open>
  What the argument takes from Ed25519 and postcard: a signature of an honest member over the
  ordering bytes of a write exists only if that member's run signed a write with these bytes, and
  distinct writes have distinct encodings.
\<close>

definition unforgeable :: "verifier \<Rightarrow> signer \<Rightarrow> (sequenced_write \<Rightarrow> bytes) \<Rightarrow> bytes32 set \<Rightarrow> (bytes32 \<Rightarrow> sequenced_write list)
    \<Rightarrow> bool" where
  "unforgeable ver sg enc honest requests \<longleftrightarrow> (\<forall>h \<in> honest. \<forall>w sig. valid_sig ver h (write_signing_bytes enc w) sig \<longrightarrow>
     (\<exists>w' \<in> set (signed_writes ver sg enc (member_new h) (requests h)). write_signing_bytes enc w' = write_signing_bytes enc w))"

lemma commits_agree:
  assumes wf: "quorum_wf q" and unf: "unforgeable ver sg enc honest requests" and inj: "inj enc"
    and F: "card (set (members q) - honest) \<le> byzantine_tolerance q"
    and c1: "commit_authorizes ver enc c1 q" and c2: "commit_authorizes ver enc c2 q"
    and slot: "account (c_write c1) = account (c_write c2)" "nonce (c_write c1) = nonce (c_write c2)"
  shows "c_write c1 = c_write c2"
proof -
  define A where "A = (\<lambda>c :: sequenced_commit. set (signers ver q (write_signing_bytes enc (c_write c)) (c_signatures c)))"
  have A: "A c \<subseteq> set (members q)" "commit_authorizes ver enc c q \<Longrightarrow> threshold q \<le> card (A c)" for c
    using signers_subset [OF wf] by (auto simp: A_def commit_authorizes_def count_signers_card)
  have "is_intersection_sized q" using c1 by (simp add: commit_authorizes_def)
  moreover have "card ((set (members q) - honest) \<inter> set (members q)) \<le> byzantine_tolerance q"
    using F by (simp add: Diff_Int2 inf.absorb1 Diff_subset)
  ultimately obtain m where m: "m \<in> A c1" "m \<in> A c2" "m \<notin> set (members q) - honest"
    using quorum_intersection [OF wf _ A(1) A(2) [OF c1] A(1) A(2) [OF c2]] by blast
  then have h: "m \<in> honest" using A(1) [of c1] by blast
  have signed: "c_write c \<in> set (signed_writes ver sg enc (member_new m) (requests m))" if "m \<in> A c" for c
  proof -
    from that obtain sig where "valid_sig ver m (write_signing_bytes enc (c_write c)) sig"
      using signers_valid [of m] unfolding A_def by blast
    then obtain w' where "w' \<in> set (signed_writes ver sg enc (member_new m) (requests m))"
      "write_signing_bytes enc w' = write_signing_bytes enc (c_write c)"
      using unf h by (auto simp: unforgeable_def)
    with inj show ?thesis by (auto simp: write_signing_bytes_def dest: injD)
  qed
  from signed_writes_unique [OF signed [OF m(1)] signed [OF m(2)] slot] show ?thesis .
qed

text \<open>An owner's authorisation can never pass as a member's ordering signature.\<close>

lemma domains_separated: "write_signing_bytes enc w \<noteq> authored_bytes a n p"
proof
  assume "write_signing_bytes enc w = authored_bytes a n p"
  then have "write_signing_bytes enc w ! 17 = authored_bytes a n p ! 17" by simp
  then show False
    by (simp add: write_signing_bytes_def authored_bytes_def SEQUENCER_DOMAIN_def OWNER_DOMAIN_def ascii_def nth_append
        of_char_of)
qed

section \<open>The store only appends\<close>

definition grows :: "seq_store \<Rightarrow> seq_store \<Rightarrow> bool" where
  "grows st st' \<longleftrightarrow> (\<forall>key s. sequences st key = Some s \<longrightarrow>
     (\<exists>s'. sequences st' key = Some s' \<and> prefix (commits s) (commits s')))"

lemma grows_refl [simp]: "grows st st"
  by (simp add: grows_def)

lemma grows_trans [trans]: "grows a b \<Longrightarrow> grows b c \<Longrightarrow> grows a c"
  unfolding grows_def by (meson prefix_order.trans)

lemma grows_update:
  "(\<And>s. sequences st key = Some s \<Longrightarrow> prefix (commits s) (commits s')) \<Longrightarrow>
   grows st (st\<lparr>sequences := (sequences st)(key \<mapsto> s')\<rparr>)"
  by (auto simp: grows_def)

lemma adopt_grows: "grows st (snd (adopt ver enc st key f q))"
  by (auto simp: adopt_def extends_prefix intro!: grows_update split: option.splits)

lemma adopt_from_grows: "grows st (adopt_from ver enc heads key q ps st)"
proof (induction ver enc heads key q ps st rule: adopt_from.induct)
  case (2 ver enc heads key q p ps st)
  show ?case
  proof (cases "fetch_if_newer heads p (local_len st key)")
    case (Newer f)
    from adopt_grows "2.IH"(1) [OF Newer] show ?thesis by (simp add: Newer) (rule grows_trans)
  qed (use "2.IH" in simp_all)
qed simp

lemma sync_grows: "grows st (sync ver enc quorum_for full_due heads census key st)"
proof -
  have walk: "grows st' (case census of None \<Rightarrow> st' | Some ps \<Rightarrow> adopt_from ver enc heads key q (filter (\<lambda>p. p \<noteq> me st') ps) st')" for st' q
    by (simp add: adopt_from_grows split: option.split)
  have adopted: "grows st (case adopt ver enc st key f q of (True, st') \<Rightarrow> st'
      | (False, st') \<Rightarrow> (case census of None \<Rightarrow> st' | Some ps \<Rightarrow> adopt_from ver enc heads key q (filter (\<lambda>p. p \<noteq> me st') ps) st'))" for f q
  proof -
    obtain ok st' where a: "adopt ver enc st key f q = (ok, st')" by (cases "adopt ver enc st key f q")
    then have "grows st st'" using adopt_grows [of st ver enc key f q] by simp
    with a grows_trans [OF this walk] show ?thesis by (cases ok) simp_all
  qed
  show ?thesis
    unfolding sync_def Let_def
    by (simp add: walk adopted split del: if_split split: option.split head_reply.split)
      (simp add: walk adopted adopt_from_grows)
qed

lemma submit_grows: "grows st (snd (submit ver enc quorum_for full_due heads census owner program_cid c st))"
proof (cases "quorum_for owner program_cid")
  case (Some q)
  let ?key = "(owner, program_cid, account (c_write c))"
  let ?st = "sync ver enc quorum_for full_due heads census ?key st"
  let ?s = "case sequences ?st ?key of None \<Rightarrow> seq_new (account (c_write c)) | Some s \<Rightarrow> s"
  obtain ok s' where app: "seq_append ver enc ?s c q = (ok, s')" by (cases "seq_append ver enc ?s c q")
  then have "prefix (commits ?s) (commits s')" by (auto simp: seq_append_def split: if_splits)
  then have "grows ?st (?st\<lparr>sequences := (sequences ?st)(?key \<mapsto> s')\<rparr>)" by (intro grows_update) simp
  with sync_grows [of st ver enc quorum_for full_due heads census ?key] app Some show ?thesis
    by (auto simp: submit_def Let_def intro: grows_trans split: bool.split)
qed (simp add: submit_def)

lemma sign_grows: "grows st (snd (sign_write_locally ver sg enc cid_of quorum_for owner program_cid w st))"
  by (auto simp: sign_write_locally_def Let_def grows_def split: option.split)

text \<open>Everything a node does to its store: pull, commit, sign; the network answers anything.\<close>

inductive store_step :: "verifier \<Rightarrow> signer \<Rightarrow> (sequenced_write \<Rightarrow> bytes) \<Rightarrow> (bytes \<Rightarrow> bytes32) \<Rightarrow> seq_store \<Rightarrow> seq_store \<Rightarrow> bool"
  for ver sg enc cid_of where
  pulled: "store_step ver sg enc cid_of st (sync ver enc quorum_for full_due heads census key st)"
| committed: "store_step ver sg enc cid_of st (snd (submit ver enc quorum_for full_due heads census owner program_cid c st))"
| signed: "store_step ver sg enc cid_of st (snd (sign_write_locally ver sg enc cid_of quorum_for owner program_cid w st))"

lemma store_steps_grow: "(store_step ver sg enc cid_of)\<^sup>*\<^sup>* st st' \<Longrightarrow> grows st st'"
proof (induction rule: rtranclp_induct)
  case (step b c)
  have "grows b c" using step(2) by (cases rule: store_step.cases) (simp_all add: sync_grows submit_grows sign_grows)
  with step.IH show ?case by (rule grows_trans)
qed simp

lemma sign_ok_authorizes:
  assumes "\<And>pk msg. valid_sig ver pk msg (sg pk msg)" "quorum_wf q" "is_intersection_sized q" "owner_authentic ver w"
    and "members q \<noteq> []"
  shows "commit_authorizes ver enc \<lparr>c_write = w, c_signatures = map (\<lambda>m. write_sign sg enc m w) (members q)\<rparr> q"
proof -
  have "set (signers ver q (write_signing_bytes enc w) (map (\<lambda>m. write_sign sg enc m w) (members q))) = set (members q)"
    using assms(1,2) by (auto simp: signers_def write_sign_def is_member_iff)
  then have "count_signers ver q (write_signing_bytes enc w) (map (\<lambda>m. write_sign sg enc m w) (members q)) = length (members q)"
    using assms(2) by (simp add: count_signers_card quorum_wf_def distinct_card)
  moreover have "threshold q \<le> length (members q)"
    using assms(2,5) by (cases "members q") (auto simp: quorum_wf_def)
  ultimately show ?thesis using assms(3,4) by (simp add: commit_authorizes_def)
qed

section \<open>Properties\<close>

text \<open>
  (C2) No fork: under one intersection-sized quorum whose dishonest members stay within the
  tolerance its sizing gives, any two sequences of an account that verify, wherever they come
  from, hold the same writes on their common length.
\<close>

theorem no_fork:
  assumes wf: "quorum_wf q" and unf: "unforgeable ver sg enc honest requests" and inj: "inj enc"
    and F: "card (set (members q) - honest) \<le> byzantine_tolerance q"
    and s1: "seq_verify ver enc s1 q" and s2: "seq_verify ver enc s2 q" and acct: "s_account s1 = s_account s2"
    and i: "i < length (commits s1)" "i < length (commits s2)"
  shows "c_write (commits s1 ! i) = c_write (commits s2 ! i)"
proof (rule commits_agree [OF wf unf inj F])
  show "commit_authorizes ver enc (commits s1 ! i) q" "commit_authorizes ver enc (commits s2 ! i) q"
    using s1 s2 i by (auto simp: seq_verify_nth)
  show "account (c_write (commits s1 ! i)) = account (c_write (commits s2 ! i))"
    "nonce (c_write (commits s1 ! i)) = nonce (c_write (commits s2 ! i))"
    using s1 s2 i acct by (auto simp: seq_verify_nth)
qed

text \<open>
  (C11) A signing member never equivocates: over any run of requests, whatever their order and
  repetition, the writes it signs at one account and nonce are all the same write.
\<close>

theorem member_never_equivocates:
  assumes "w1 \<in> set (signed_writes ver sg enc m ws)" "w2 \<in> set (signed_writes ver sg enc m ws)"
    and "account w1 = account w2" "nonce w1 = nonce w2"
  shows "w1 = w2"
  using signed_writes_unique [OF assms] .

text \<open>
  (C27) The log is append-only on every node: whatever it pulls, commits or signs, and whatever the
  network answers, a payload once committed at a nonce is still there afterwards.
\<close>

theorem committed_payload_stable:
  assumes "(store_step ver sg enc cid_of)\<^sup>*\<^sup>* st st'" "sequences st key = Some s" "payload_at s n = Some p"
  shows "\<exists>s'. sequences st' key = Some s' \<and> payload_at s' n = Some p"
proof -
  obtain s' where "sequences st' key = Some s'" "prefix (commits s) (commits s')"
    using store_steps_grow [OF assms(1)] assms(2) unfolding grows_def by blast
  with assms(3) show ?thesis by (auto simp: payload_at_def prefix_def nth_append split: if_splits)
qed

text \<open>
  Across programs the guarantee is lost. The signed-set of a node is keyed by owner and
  program, the bytes a member signs contain neither: a member of the quorum of two programs signs
  two different writes of one account at one nonce, one per program, and each of the two commits
  verifies as a sequence of that account under that quorum.
\<close>

theorem cross_program_double_sign:
  assumes ok: "\<And>pk msg. valid_sig ver pk msg (sg pk msg)"
    and q: "quorum_for o1 p1 = Some q" "quorum_for o2 p2 = Some q" "(o1, p1) \<noteq> (o2, p2)"
    and wf: "quorum_wf q" "is_intersection_sized q" "me st \<in> set (members q)"
    and w: "owner_authentic ver w1" "owner_authentic ver w2" "account w1 = account w2" "nonce w1 = 0" "nonce w2 = 0"
    and fresh: "\<And>key. st_signed st key = None"
  shows "\<exists>st1 st2. sign_write_locally ver sg enc cid_of quorum_for o1 p1 w1 st = (Some (write_sign sg enc (me st) w1), st1)
    \<and> sign_write_locally ver sg enc cid_of quorum_for o2 p2 w2 st1 = (Some (write_sign sg enc (me st) w2), st2)
    \<and> (\<forall>w \<in> {w1, w2}. seq_verify ver enc \<lparr>s_account = account w1,
         commits = [\<lparr>c_write = w, c_signatures = map (\<lambda>m. write_sign sg enc m w) (members q)\<rparr>]\<rparr> q)"
proof -
  have m: "is_member q (me st)" using wf by (simp add: is_member_iff)
  have "\<exists>st1 st2. sign_write_locally ver sg enc cid_of quorum_for o1 p1 w1 st = (Some (write_sign sg enc (me st) w1), st1)
    \<and> sign_write_locally ver sg enc cid_of quorum_for o2 p2 w2 st1 = (Some (write_sign sg enc (me st) w2), st2)"
    using q m wf w fresh by (auto simp: sign_write_locally_def Let_def)
  moreover have "members q \<noteq> []" using wf(3) by auto
  ultimately show ?thesis
    using sign_ok_authorizes [OF ok wf(1,2) w(1)] sign_ok_authorizes [OF ok wf(1,2) w(2)] w by (auto simp: seq_verify_nth)
qed

text \<open>
  A longer valid sequence with the same writes is still refused when it carries another subset
  of the members' signatures on a commit already held: \<open>extends\<close> compares whole commits.
\<close>

theorem adopt_refuses_other_signers:
  assumes "sequences st key = Some s" "i < length (commits s)" "i < length (commits f)"
    and "c_signatures (commits s ! i) \<noteq> c_signatures (commits f ! i)"
  shows "adopt ver enc st key f q = (False, st)"
proof -
  have "\<not> prefix (commits s) (commits f)" using assms(2-4) by (auto simp: prefix_def nth_append)
  then show ?thesis using assms(1) by (simp add: adopt_def extends_prefix)
qed

section \<open>Witnesses\<close>

text \<open>A concrete injective encoding, and a signature scheme in which only one write is ever signed.\<close>

definition unary :: "nat \<Rightarrow> bytes \<Rightarrow> bytes" where
  "unary n rest = replicate n 0 @ 1 # rest"

definition unary_enc :: "sequenced_write \<Rightarrow> bytes" where
  "unary_enc w = unary (unat (account w)) (unary (unat (nonce w)) (unary (length (payload w)) (payload w @ w_owner_sig w)))"

lemma unary_inj: "unary n xs = unary m ys \<longleftrightarrow> n = m \<and> xs = ys"
  unfolding unary_def by (induction n arbitrary: m) (case_tac m; auto)+

lemma unary_enc_inj: "inj unary_enc"
  by (rule injI) (auto simp: unary_enc_def unary_inj dest!: unsigned_word_eqI)

definition wit_w :: sequenced_write where
  "wit_w = \<lparr>account = 9, nonce = 0, payload = [5], w_owner_sig = replicate 64 0\<rparr>"

definition wit_ver :: verifier where
  "wit_ver pk msg sig \<longleftrightarrow> msg = write_signing_bytes unary_enc wit_w \<or> msg = authored_bytes 9 0 [5]"

definition wit_sg :: signer where
  "wit_sg pk msg = replicate 64 0"

definition wit_q :: quorum where
  "wit_q = genesis [1, 2, 3] 2"

definition wit_seq :: "bytes32 list \<Rightarrow> account_sequence" where
  "wit_seq ms = \<lparr>s_account = 9, commits = [\<lparr>c_write = wit_w, c_signatures = map (\<lambda>m. write_sign wit_sg unary_enc m wit_w) ms\<rparr>]\<rparr>"

lemma wit_q_eq: "wit_q = \<lparr>members = [1, 2, 3], threshold = 2, q_seq = 0\<rparr>"
  by (simp add: wit_q_def genesis_def clamp_def word_le_nat_alt)

lemma wit_q_wf: "quorum_wf wit_q"
  by (simp add: wit_q_def genesis_wf)

lemma wit_member_iff: "is_member wit_q m \<longleftrightarrow> m \<in> {1, 2, 3}"
  using is_member_iff [OF wit_q_wf] by (simp add: wit_q_eq)

lemma wit_authentic: "owner_authentic wit_ver wit_w"
  by (simp add: owner_authentic_def valid_sig_def wit_ver_def wit_w_def)

lemma wit_signed: "signed_writes wit_ver wit_sg unary_enc (member_new h) [wit_w] = [wit_w]"
  by (simp add: member_sign_def wit_authentic member_new_def)

lemma wit_unforgeable: "unforgeable wit_ver wit_sg unary_enc {1, 2, 3} (\<lambda>h. [wit_w])"
  unfolding unforgeable_def wit_signed by (auto simp: valid_sig_def wit_ver_def domains_separated)

lemma wit_seq_verify: "seq_verify wit_ver unary_enc (wit_seq [1, 2]) wit_q" "seq_verify wit_ver unary_enc (wit_seq [2, 3]) wit_q"
  by (auto simp: seq_verify_nth wit_seq_def commit_authorizes_def wit_authentic is_intersection_sized_def
      count_signers_def signers_def wit_member_iff valid_sig_def wit_ver_def write_sign_def wit_sg_def)
    (simp_all add: wit_w_def wit_q_eq)

theorem no_fork_witness:
  "c_write (commits (wit_seq [1, 2]) ! 0) = c_write (commits (wit_seq [2, 3]) ! 0) \<and> wit_seq [1, 2] \<noteq> wit_seq [2, 3]"
proof
  have "card (set (members wit_q) - {1, 2, 3}) \<le> byzantine_tolerance wit_q" by (simp add: wit_q_eq)
  from no_fork [OF wit_q_wf wit_unforgeable unary_enc_inj this wit_seq_verify, of 0]
  show "c_write (commits (wit_seq [1, 2]) ! 0) = c_write (commits (wit_seq [2, 3]) ! 0)" by (simp add: wit_seq_def)
  show "wit_seq [1, 2] \<noteq> wit_seq [2, 3]" by (simp add: wit_seq_def write_sign_def)
qed

theorem member_never_equivocates_witness:
  "wit_w \<in> set (signed_writes wit_ver wit_sg unary_enc (member_new 1) [wit_w]) \<and> wit_w = wit_w"
  using member_never_equivocates [of wit_w wit_ver wit_sg unary_enc "member_new 1" "[wit_w]" wit_w] wit_signed [of 1] by simp

definition wit_store :: seq_store where
  "wit_store = \<lparr>me = 1, sequences = [(0, 0, 9) \<mapsto> wit_seq [1, 2]], st_signed = Map.empty\<rparr>"

theorem committed_payload_stable_witness:
  "\<exists>s'. sequences (sync wit_ver unary_enc (\<lambda>ow p. Some wit_q) True (\<lambda>p. Some (5, Some (wit_seq [2, 3]))) (Some [2]) (0, 0, 9) wit_store)
      (0, 0, 9) = Some s' \<and> payload_at s' 0 = Some [5]"
proof (rule committed_payload_stable)
  show "(store_step wit_ver wit_sg unary_enc (\<lambda>b. 0))\<^sup>*\<^sup>* wit_store
      (sync wit_ver unary_enc (\<lambda>ow p. Some wit_q) True (\<lambda>p. Some (5, Some (wit_seq [2, 3]))) (Some [2]) (0, 0, 9) wit_store)"
    by (rule r_into_rtranclp, rule store_step.pulled)
  show "sequences wit_store (0, 0, 9) = Some (wit_seq [1, 2])" by (simp add: wit_store_def)
  show "payload_at (wit_seq [1, 2]) 0 = Some [5]" by (simp add: payload_at_def wit_seq_def wit_w_def)
qed

theorem cross_program_double_sign_witness:
  "\<exists>st1 st2. sign_write_locally any_ver wit_sg unary_enc (\<lambda>b. 0) (\<lambda>ow p. Some wit_q) 0 0 wit_w wit_store
       = (Some (write_sign wit_sg unary_enc 1 wit_w), st1)
    \<and> sign_write_locally any_ver wit_sg unary_enc (\<lambda>b. 0) (\<lambda>ow p. Some wit_q) 0 1 (wit_w\<lparr>payload := [6]\<rparr>) st1
       = (Some (write_sign wit_sg unary_enc 1 (wit_w\<lparr>payload := [6]\<rparr>)), st2)"
proof -
  have me: "me wit_store = 1" by (simp add: wit_store_def)
  have ok: "\<And>pk msg. valid_sig any_ver pk msg (wit_sg pk msg)" by (simp add: valid_sig_def any_ver_def wit_sg_def)
  have auth: "owner_authentic any_ver wit_w" "owner_authentic any_ver (wit_w\<lparr>payload := [6]\<rparr>)"
    by (simp_all add: owner_authentic_def valid_sig_def any_ver_def wit_w_def)
  show ?thesis
    using cross_program_double_sign [OF ok, where quorum_for = "\<lambda>ow p. Some wit_q" and q = wit_q and ?o1.0 = 0 and ?p1.0 = 0
        and ?o2.0 = 0 and ?p2.0 = 1 and st = wit_store and ?w1.0 = wit_w and ?w2.0 = "wit_w\<lparr>payload := [6]\<rparr>"
        and enc = unary_enc and cid_of = "\<lambda>b. 0"] auth wit_q_wf
    by (simp add: me wit_q_eq is_intersection_sized_def) (auto simp: wit_w_def wit_store_def)
qed

theorem adopt_refuses_other_signers_witness:
  "seq_verify wit_ver unary_enc (wit_seq [2, 3]) wit_q
   \<and> adopt wit_ver unary_enc wit_store (0, 0, 9) (wit_seq [2, 3]) wit_q = (False, wit_store)"
  using adopt_refuses_other_signers [of wit_store "(0, 0, 9)" "wit_seq [1, 2]" 0 "wit_seq [2, 3]" wit_ver unary_enc wit_q]
    wit_seq_verify
  by (simp add: wit_store_def) (simp add: wit_seq_def write_sign_def)

end
