(* ===== verification/Ledger.thy ===== *)
theory Ledger
  imports Token Sequencer
begin

text \<open>
  The ledger service, \<open>src/crates/noded/src/ledger.rs\<close>: the balance of an account as the fold of
  its committed sequence, the resolution of a claim's debit, and the cached scan of its payments.
  \<open>seq_of\<close> is the committed sequence of an account, \<open>dec\<close> the postcard decoding of a payload,
  \<open>share\<close> the reward share the economy service resolves for an epoch and account.
\<close>

section \<open>The model\<close>

type_synonym chains = "bytes32 \<Rightarrow> account_sequence option"
type_synonym op_decoder = "bytes \<Rightarrow> ledger_op option"
type_synonym shares = "u64 \<Rightarrow> bytes32 \<Rightarrow> u64"

definition op_at :: "op_decoder \<Rightarrow> account_sequence \<Rightarrow> u64 \<Rightarrow> ledger_op option" where
  "op_at dec s n = (case payload_at s n of None \<Rightarrow> None | Some p \<Rightarrow> dec p)"

definition resolve_debit :: "chains \<Rightarrow> op_decoder \<Rightarrow> bytes32 \<Rightarrow> u64 \<Rightarrow> transfer_op option" where
  "resolve_debit seq_of dec acct n = (case seq_of acct of None \<Rightarrow> None | Some s \<Rightarrow>
     (case op_at dec s n of Some (Transfer t) \<Rightarrow> Some t | _ \<Rightarrow> None))"

fun resolve_op :: "chains \<Rightarrow> op_decoder \<Rightarrow> shares \<Rightarrow> bytes32 \<Rightarrow> ledger_op \<Rightarrow> resolved" where
  "resolve_op seq_of dec share acct (Claim c) =
     \<lparr>debit = resolve_debit seq_of dec (debit_account c) (debit_nonce c), reward_share = None\<rparr>"
| "resolve_op seq_of dec share acct (RewardClaim e) = \<lparr>debit = None, reward_share = Some (share e acct)\<rparr>"
| "resolve_op seq_of dec share acct _ = resolved_default"

text \<open>The loop of \<open>balance\<close>: an undecodable payload is skipped, a rejected write is a no-op.\<close>

fun balance_from :: "chains \<Rightarrow> op_decoder \<Rightarrow> shares \<Rightarrow> bytes32 \<Rightarrow> account_sequence \<Rightarrow> u64 list \<Rightarrow> token_state \<Rightarrow> token_state" where
  "balance_from seq_of dec share acct s [] st = st"
| "balance_from seq_of dec share acct s (n # ns) st = (case payload_at s n of
       None \<Rightarrow> st
     | Some p \<Rightarrow> (case dec p of
          None \<Rightarrow> balance_from seq_of dec share acct s ns st
        | Some op \<Rightarrow> (case apply_token st op acct (resolve_op seq_of dec share acct op) of
             None \<Rightarrow> balance_from seq_of dec share acct s ns st
           | Some st' \<Rightarrow> balance_from seq_of dec share acct s ns st')))"

definition nonces :: "account_sequence \<Rightarrow> u64 list" where
  "nonces s = map of_nat [0..<unat (next_nonce s)]"

definition ledger_balance :: "chains \<Rightarrow> op_decoder \<Rightarrow> shares \<Rightarrow> bytes32 \<Rightarrow> token_state" where
  "ledger_balance seq_of dec share acct = (case seq_of acct of
     None \<Rightarrow> token_default | Some s \<Rightarrow> balance_from seq_of dec share acct s (nonces s) token_default)"

type_synonym paid_cache = "bytes32 \<Rightarrow> (u64 \<times> u64) option"

function paid_scan :: "op_decoder \<Rightarrow> account_sequence \<Rightarrow> u64 \<Rightarrow> u64 \<Rightarrow> u64 \<Rightarrow> u64 \<times> u64" where
  "paid_scan dec s end_n next tot =
     (if next < end_n then (case payload_at s next of
         None \<Rightarrow> (next, tot)
       | Some p \<Rightarrow> paid_scan dec s end_n (next + 1)
           (case dec p of Some (Pay amt) \<Rightarrow> sat_add tot amt | _ \<Rightarrow> tot))
      else (next, tot))"
  by pat_completeness auto
termination
proof (relation "measure (\<lambda>(dec, s, e, n, t). unat e - unat n)")
  fix e n :: u64 assume "n < e"
  then have "unat n < unat e" and "unat (n + 1) = unat n + 1"
    using unat_lt [of e] by (simp_all add: word_less_nat_alt unat_word_ariths del: unsigned_less)
  then show "((dec, s, e, n + 1, t'), (dec, s, e, n, t)) \<in> measure (\<lambda>(dec, s, e, n, t). unat e - unat n)"
    for dec :: op_decoder and s :: account_sequence and t t' :: u64 by simp
qed simp

declare paid_scan.simps [simp del]

definition paid_total :: "chains \<Rightarrow> op_decoder \<Rightarrow> paid_cache \<Rightarrow> bytes32 \<Rightarrow> u64 \<times> paid_cache" where
  "paid_total seq_of dec cache acct = (case seq_of acct of
       None \<Rightarrow> (case cache acct of None \<Rightarrow> 0 | Some (_, t) \<Rightarrow> t, cache)
     | Some s \<Rightarrow>
        let (next, tot) = (case cache acct of None \<Rightarrow> (0, 0) | Some c \<Rightarrow> c);
            (next', tot') = paid_scan dec s (next_nonce s) next tot
        in (tot', cache(acct \<mapsto> (next', tot'))))"

section \<open>Accepted writes\<close>

fun accepted :: "chains \<Rightarrow> op_decoder \<Rightarrow> shares \<Rightarrow> bytes32 \<Rightarrow> account_sequence \<Rightarrow> u64 list \<Rightarrow> token_state \<Rightarrow> (u64 \<times> ledger_op) list" where
  "accepted seq_of dec share acct s [] st = []"
| "accepted seq_of dec share acct s (n # ns) st = (case payload_at s n of
       None \<Rightarrow> []
     | Some p \<Rightarrow> (case dec p of
          None \<Rightarrow> accepted seq_of dec share acct s ns st
        | Some op \<Rightarrow> (case apply_token st op acct (resolve_op seq_of dec share acct op) of
             None \<Rightarrow> accepted seq_of dec share acct s ns st
           | Some st' \<Rightarrow> (n, op) # accepted seq_of dec share acct s ns st')))"

definition accepted_writes :: "chains \<Rightarrow> op_decoder \<Rightarrow> shares \<Rightarrow> bytes32 \<Rightarrow> (u64 \<times> ledger_op) list" where
  "accepted_writes seq_of dec share acct = (case seq_of acct of
     None \<Rightarrow> [] | Some s \<Rightarrow> accepted seq_of dec share acct s (nonces s) token_default)"

fun transfer_amount :: "ledger_op \<Rightarrow> nat" where
  "transfer_amount (Transfer t) = unat (amount t)"
| "transfer_amount _ = 0"

fun pay_amount :: "ledger_op \<Rightarrow> nat" where
  "pay_amount (Pay a) = unat a"
| "pay_amount _ = 0"

fun reward_amount :: "shares \<Rightarrow> bytes32 \<Rightarrow> ledger_op \<Rightarrow> nat" where
  "reward_amount share acct (RewardClaim e) = unat (share e acct)"
| "reward_amount share acct _ = 0"

fun claim_amount :: "chains \<Rightarrow> op_decoder \<Rightarrow> ledger_op \<Rightarrow> nat" where
  "claim_amount seq_of dec (Claim c) =
     (case resolve_debit seq_of dec (debit_account c) (debit_nonce c) of None \<Rightarrow> 0 | Some t \<Rightarrow> unat (amount t))"
| "claim_amount seq_of dec _ = 0"

definition total_of :: "(ledger_op \<Rightarrow> nat) \<Rightarrow> (u64 \<times> ledger_op) list \<Rightarrow> nat" where
  "total_of f ws = (\<Sum>(n, op)\<leftarrow>ws. f op)"

lemma total_of_simps [simp]: "total_of f [] = 0" "total_of f ((n, op) # ws) = f op + total_of f ws"
  by (simp_all add: total_of_def)

lemma op_flows: "op_debit op = transfer_amount op + pay_amount op"
  "op_credit op (resolve_op seq_of dec share acct op) = claim_amount seq_of dec op + reward_amount share acct op"
  by (cases op; simp)+

text \<open>The balance of a fold is exactly what its accepted writes moved.\<close>

lemma balance_from_flows:
  "unat (balance (balance_from seq_of dec share acct s ns st))
     + total_of transfer_amount (accepted seq_of dec share acct s ns st)
     + total_of pay_amount (accepted seq_of dec share acct s ns st)
   = unat (balance st) + total_of (claim_amount seq_of dec) (accepted seq_of dec share acct s ns st)
     + total_of (reward_amount share acct) (accepted seq_of dec share acct s ns st)"
proof (induction seq_of dec share acct s ns st rule: balance_from.induct)
  case (2 seq_of dec share acct s n ns st)
  show ?case
  proof (cases "payload_at s n")
    case (Some p)
    show ?thesis
    proof (cases "dec p")
      case op: (Some op)
      show ?thesis
      proof (cases "apply_token st op acct (resolve_op seq_of dec share acct op)")
        case (Some st')
        with \<open>payload_at s n = Some p\<close> op "2.IH"(3) [OF \<open>payload_at s n = Some p\<close> op Some]
          apply_token_balance [OF Some] show ?thesis by (simp add: op_flows)
      qed (use \<open>payload_at s n = Some p\<close> op "2.IH"(2) in simp)
    qed (use Some "2.IH"(1) in simp)
  qed simp
qed simp

lemma accepted_step:
  "accepted seq_of dec share acct s (n # ns) st = [] \<or>
   accepted seq_of dec share acct s (n # ns) st = accepted seq_of dec share acct s ns st \<or>
   (\<exists>op st'. op_at dec s n = Some op \<and> apply_token st op acct (resolve_op seq_of dec share acct op) = Some st' \<and>
     accepted seq_of dec share acct s (n # ns) st = (n, op) # accepted seq_of dec share acct s ns st')"
  by (auto simp: op_at_def split: option.splits)

declare accepted.simps(2) [simp del]

lemma accepted_ops:
  "(n, op) \<in> set (accepted seq_of dec share acct s ns st) \<Longrightarrow> n \<in> set ns \<and> op_at dec s n = Some op"
proof (induction ns arbitrary: st)
  case (Cons m ns)
  from accepted_step [of seq_of dec share acct s m ns st] Cons.prems
  have "(n, op) \<in> set (accepted seq_of dec share acct s ns st) \<or> n = m \<and> op_at dec s n = Some op
      \<or> (\<exists>st'. (n, op) \<in> set (accepted seq_of dec share acct s ns st'))"
    by (elim disjE exE conjE) auto
  with Cons.IH show ?case by (meson list.set_intros)
qed simp

lemma accepted_distinct: "distinct ns \<Longrightarrow> distinct (map fst (accepted seq_of dec share acct s ns st))"
proof (induction ns arbitrary: st)
  case (Cons m ns)
  then show ?case
    using accepted_step [of seq_of dec share acct s m ns st] accepted_ops [of m _ seq_of dec share acct s ns] by auto
qed simp

fun claim_key :: "u64 \<times> ledger_op \<Rightarrow> (bytes32 \<times> u64) option" where
  "claim_key (n, Claim c) = Some (debit_account c, debit_nonce c)"
| "claim_key (n, op) = None"

definition claim_keys :: "(u64 \<times> ledger_op) list \<Rightarrow> (bytes32 \<times> u64) list" where
  "claim_keys ws = List.map_filter claim_key ws"

lemma claim_keys_simps [simp]: "claim_keys [] = []"
  "claim_keys (w # ws) = (case claim_key w of None \<Rightarrow> claim_keys ws | Some key \<Rightarrow> key # claim_keys ws)"
  by (simp_all add: claim_keys_def map_filter_simps split: option.split)

text \<open>Claims are single-use: the accepted claims of an account have distinct keys.\<close>

lemma accepted_claims:
  "distinct (claim_keys (accepted seq_of dec share acct s ns st))
   \<and> set (claim_keys (accepted seq_of dec share acct s ns st)) \<inter> processed_claims st = {}
   \<and> (\<forall>key \<in> set (claim_keys (accepted seq_of dec share acct s ns st)).
        \<exists>t. resolve_debit seq_of dec (fst key) (snd key) = Some t \<and> to t = acct)"
proof (induction ns arbitrary: st)
  case (Cons n ns)
  let ?acc = "accepted seq_of dec share acct s"
  consider "?acc (n # ns) st = []" | "?acc (n # ns) st = ?acc ns st"
    | op st' where "apply_token st op acct (resolve_op seq_of dec share acct op) = Some st'" "?acc (n # ns) st = (n, op) # ?acc ns st'"
    using accepted_step by blast
  then show ?case
  proof cases
    case 3
    show ?thesis
    proof (cases "claim_key (n, op)")
      case None
      then show ?thesis using Cons.IH [of st'] 3 apply_token_grows [OF 3(1)] by auto
    next
      case (Some key)
      then obtain c where op: "op = Claim c" and key: "key = (debit_account c, debit_nonce c)" by (cases op) auto
      from apply_token_Claim [OF 3(1) [unfolded op]] obtain d where
        "resolve_debit seq_of dec (debit_account c) (debit_nonce c) = Some d" "to d = acct"
        "key \<notin> processed_claims st" "key \<in> processed_claims st'" by (auto simp: key)
      then show ?thesis using Cons.IH [of st'] 3(2) apply_token_grows [OF 3(1)] Some by (auto simp: key)
    qed
  qed (use Cons.IH in simp_all)
qed simp

definition debit_amount :: "chains \<Rightarrow> op_decoder \<Rightarrow> bytes32 \<times> u64 \<Rightarrow> nat" where
  "debit_amount seq_of dec key = (case resolve_debit seq_of dec (fst key) (snd key) of None \<Rightarrow> 0 | Some t \<Rightarrow> unat (amount t))"

lemma claims_total: "total_of (claim_amount seq_of dec) ws = (\<Sum>key\<leftarrow>claim_keys ws. debit_amount seq_of dec key)"
proof (induction ws)
  case (Cons w ws)
  obtain n op where "w = (n, op)" by (cases w)
  with Cons show ?case by (cases op) (simp_all add: debit_amount_def)
qed simp

lemma transfers_total:
  assumes d: "distinct (map fst ws)" and N: "\<And>n t. n \<in> N \<Longrightarrow> f n = (case g n of None \<Rightarrow> 0 | Some t \<Rightarrow> unat (amount t))"
    and eff: "\<And>n t. n \<in> N \<Longrightarrow> g n = Some t \<Longrightarrow> (n, Transfer t) \<in> set ws" and fin: "finite N"
  shows "(\<Sum>n\<in>N. f n) \<le> total_of transfer_amount ws"
proof -
  have dist: "distinct ws" using d by (simp add: distinct_map)
  have "(\<Sum>n\<in>N. f n) = (\<Sum>n\<in>{n \<in> N. g n \<noteq> None}. f n)"
    using fin by (intro sum.mono_neutral_right) (auto simp: N)
  also have "\<dots> = (\<Sum>w \<in> (\<lambda>n. (n, Transfer (the (g n)))) ` {n \<in> N. g n \<noteq> None}. transfer_amount (snd w))"
    by (subst sum.reindex) (auto simp: inj_on_def N intro!: sum.cong)
  also have "\<dots> \<le> (\<Sum>w\<in>set ws. transfer_amount (snd w))"
    by (rule sum_mono2) (auto simp: eff)
  also have "\<dots> = total_of transfer_amount ws"
    using dist by (simp add: total_of_def sum_list_distinct_conv_sum_set case_prod_beta)
  finally show ?thesis .
qed

lemma nonces_distinct: "distinct (nonces s)"
proof -
  have "inj_on (of_nat :: nat \<Rightarrow> u64) {0..<unat (next_nonce s)}"
  proof (rule inj_onI)
    fix i j assume "i \<in> {0..<unat (next_nonce s)}" "j \<in> {0..<unat (next_nonce s)}" "(of_nat i :: u64) = of_nat j"
    then show "i = j" using unat_of_nat_less [of i, where 'a = 64] unat_of_nat_less [of j, where 'a = 64] unat_lt [of "next_nonce s"]
      by (metis atLeastLessThan_iff less_trans)
  qed
  then show ?thesis by (simp add: nonces_def distinct_map)
qed

section \<open>No inflation\<close>

text \<open>A committed transfer is effective if the fold of its own account accepted it.\<close>

definition all_transfers_effective :: "chains \<Rightarrow> op_decoder \<Rightarrow> shares \<Rightarrow> bool" where
  "all_transfers_effective seq_of dec share \<longleftrightarrow> (\<forall>acct n t. resolve_debit seq_of dec acct n = Some t \<longrightarrow>
     (n, Transfer t) \<in> set (accepted_writes seq_of dec share acct))"

lemma accepted_writes_distinct: "distinct (map fst (accepted_writes seq_of dec share acct))"
  by (auto simp: accepted_writes_def nonces_distinct accepted_distinct split: option.split)

lemma ledger_flows:
  "unat (balance (ledger_balance seq_of dec share acct))
     + total_of transfer_amount (accepted_writes seq_of dec share acct) + total_of pay_amount (accepted_writes seq_of dec share acct)
   = total_of (claim_amount seq_of dec) (accepted_writes seq_of dec share acct)
     + total_of (reward_amount share acct) (accepted_writes seq_of dec share acct)"
  using balance_from_flows [of seq_of dec share acct _ _ token_default]
  by (simp add: ledger_balance_def accepted_writes_def token_default_def split: option.split)

lemma ledger_claims:
  "distinct (claim_keys (accepted_writes seq_of dec share acct))
   \<and> (\<forall>key \<in> set (claim_keys (accepted_writes seq_of dec share acct)).
        \<exists>t. resolve_debit seq_of dec (fst key) (snd key) = Some t \<and> to t = acct)"
  using accepted_claims by (simp add: accepted_writes_def split: option.split)

text \<open>Every debit is claimed by one account at most, once at most.\<close>

lemma claims_bounded:
  "(\<Sum>a\<in>(UNIV :: bytes32 set). total_of (claim_amount seq_of dec) (accepted_writes seq_of dec share a))
     \<le> (\<Sum>key\<in>UNIV. debit_amount seq_of dec key)"
proof -
  let ?K = "\<lambda>a. set (claim_keys (accepted_writes seq_of dec share a))"
  have disj: "\<forall>a \<in> UNIV. \<forall>b \<in> UNIV. a \<noteq> b \<longrightarrow> ?K a \<inter> ?K b = {}"
    using ledger_claims [of seq_of dec share] by (metis (no_types, lifting) disjoint_iff option.inject)
  have "(\<Sum>a\<in>UNIV. total_of (claim_amount seq_of dec) (accepted_writes seq_of dec share a))
      = (\<Sum>a\<in>UNIV. \<Sum>key\<in>?K a. debit_amount seq_of dec key)"
    using ledger_claims [of seq_of dec share]
    by (intro sum.cong) (simp_all add: claims_total sum_list_distinct_conv_sum_set)
  also have "\<dots> = (\<Sum>key\<in>(\<Union>a\<in>UNIV. ?K a). debit_amount seq_of dec key)"
    using disj by (intro sum.UNION_disjoint [symmetric]) auto
  also have "\<dots> \<le> (\<Sum>key\<in>UNIV. debit_amount seq_of dec key)" by (rule sum_mono2) auto
  finally show ?thesis .
qed

lemma debits_bounded:
  assumes "all_transfers_effective seq_of dec share"
  shows "(\<Sum>key\<in>UNIV. debit_amount seq_of dec key)
     \<le> (\<Sum>a\<in>(UNIV :: bytes32 set). total_of transfer_amount (accepted_writes seq_of dec share a))"
proof -
  have "(\<Sum>key\<in>UNIV. debit_amount seq_of dec key) = (\<Sum>a\<in>UNIV. \<Sum>n\<in>UNIV. debit_amount seq_of dec (a, n))"
    by (simp add: UNIV_Times_UNIV [symmetric] sum.cartesian_product del: UNIV_Times_UNIV)
  also have "\<dots> \<le> (\<Sum>a\<in>UNIV. total_of transfer_amount (accepted_writes seq_of dec share a))"
  proof (rule sum_mono)
    fix a :: bytes32
    show "(\<Sum>n\<in>UNIV. debit_amount seq_of dec (a, n)) \<le> total_of transfer_amount (accepted_writes seq_of dec share a)"
      using assms
      by (intro transfers_total [OF accepted_writes_distinct, where g = "resolve_debit seq_of dec a"])
        (auto simp: debit_amount_def all_transfers_effective_def)
  qed
  finally show ?thesis .
qed

section \<open>The payment scan\<close>

definition pay_step :: "op_decoder \<Rightarrow> account_sequence \<Rightarrow> nat \<Rightarrow> u64 \<Rightarrow> u64" where
  "pay_step dec s i t = (case dec (payload (c_write (commits s ! i))) of Some (Pay a) \<Rightarrow> sat_add t a | _ \<Rightarrow> t)"

definition paid_upto :: "op_decoder \<Rightarrow> account_sequence \<Rightarrow> nat \<Rightarrow> u64" where
  "paid_upto dec s k = fold (pay_step dec s) [0..<k] 0"

lemma paid_upto_Suc: "paid_upto dec s (Suc k) = pay_step dec s k (paid_upto dec s k)"
  by (simp add: paid_upto_def)

lemma paid_upto_prefix:
  "prefix (commits s) (commits s') \<Longrightarrow> k \<le> length (commits s) \<Longrightarrow> paid_upto dec s' k = paid_upto dec s k"
  by (induction k) (auto simp: paid_upto_def pay_step_def prefix_def nth_append)

lemma paid_scan_upto:
  assumes "length (commits s) < 2 ^ 64" "k \<le> length (commits s)"
  shows "paid_scan dec s (next_nonce s) (of_nat k) (paid_upto dec s k) = (next_nonce s, paid_upto dec s (length (commits s)))"
  using assms
proof (induction "length (commits s) - k" arbitrary: k)
  case 0
  then show ?case by (subst paid_scan.simps) (simp add: next_nonce_def)
next
  case (Suc d)
  have u: "unat (of_nat k :: u64) = k" "unat (next_nonce s) = length (commits s)"
    using Suc.prems by (auto simp: next_nonce_def intro!: unat_of_nat_less)
  have "of_nat k + 1 = (of_nat (Suc k) :: u64)" by simp
  moreover have "paid_scan dec s (next_nonce s) (of_nat (Suc k)) (paid_upto dec s (Suc k))
      = (next_nonce s, paid_upto dec s (length (commits s)))"
    using Suc by (intro Suc.hyps(1)) auto
  moreover have "k < length (commits s)" using Suc by simp
  ultimately show ?case
    using u by (subst paid_scan.simps) (simp add: word_less_nat_alt payload_at_def paid_upto_Suc pay_step_def add.commute [of "of_nat k"])
qed

lemma paid_total_from:
  assumes "seq_of acct = Some s" "length (commits s) < 2 ^ 64"
    and "cache acct = None \<or> (\<exists>k \<le> length (commits s). cache acct = Some (of_nat k, paid_upto dec s k))"
  shows "paid_total seq_of dec cache acct
    = (paid_upto dec s (length (commits s)), cache(acct \<mapsto> (next_nonce s, paid_upto dec s (length (commits s)))))"
proof -
  obtain k where "k \<le> length (commits s)" "(case cache acct of None \<Rightarrow> (0, 0) | Some c \<Rightarrow> c) = (of_nat k, paid_upto dec s k)"
    using assms(3) by (cases "cache acct") (auto simp: paid_upto_def intro: that [of 0])
  with paid_scan_upto [OF assms(2) this(1)] assms(1) show ?thesis by (simp add: paid_total_def)
qed

lemma ledger_balance_one:
  assumes "seq_of a = Some s" "length (commits s) = 1" "op_at dec s 0 = Some op"
  shows "ledger_balance seq_of dec share a
    = (case apply_token token_default op a (resolve_op seq_of dec share a op) of None \<Rightarrow> token_default | Some st \<Rightarrow> st)"
proof -
  have "nonces s = [0]" using assms(2) by (simp add: nonces_def next_nonce_def)
  moreover obtain p where "payload_at s 0 = Some p" "dec p = Some op"
    using assms(3) by (auto simp: op_at_def split: option.splits)
  ultimately show ?thesis using assms(1) by (simp add: ledger_balance_def split: option.split)
qed

section \<open>Properties\<close>

text \<open>
  (C3) No inflation: if every committed transfer was covered by its sender's balance when it was
  folded, then over all accounts the balances together with what was paid into the pool never exceed
  the reward shares credited. Transfers and claims only move value; each debit is credited once at most.
\<close>

theorem ledger_no_inflation:
  assumes "all_transfers_effective seq_of dec share"
  shows "(\<Sum>a\<in>(UNIV :: bytes32 set). unat (balance (ledger_balance seq_of dec share a)))
      + (\<Sum>a\<in>(UNIV :: bytes32 set). total_of pay_amount (accepted_writes seq_of dec share a))
    \<le> (\<Sum>a\<in>(UNIV :: bytes32 set). total_of (reward_amount share a) (accepted_writes seq_of dec share a))"
proof -
  let ?w = "accepted_writes seq_of dec share"
  have "(\<Sum>a\<in>UNIV. unat (balance (ledger_balance seq_of dec share a)) + total_of transfer_amount (?w a) + total_of pay_amount (?w a))
      = (\<Sum>a\<in>UNIV. total_of (claim_amount seq_of dec) (?w a) + total_of (reward_amount share a) (?w a))"
    by (simp add: ledger_flows)
  moreover have "(\<Sum>a\<in>UNIV. total_of (claim_amount seq_of dec) (?w a)) \<le> (\<Sum>a\<in>UNIV. total_of transfer_amount (?w a))"
    using claims_bounded debits_bounded [OF assms] by (rule order_trans)
  ultimately show ?thesis by (simp add: sum.distrib)
qed

text \<open>
  Without that condition it fails. An account with no funds commits a transfer, which its own
  fold rejects; the recipient's claim resolves the committed transfer all the same and is credited
  the full amount.
\<close>

theorem overdraft_transfer_is_claimable:
  assumes "a \<noteq> b" "to t = a" "amount t \<noteq> 0"
    and "seq_of b = Some s" "length (commits s) = 1" "op_at dec s 0 = Some (Transfer t)"
    and "seq_of a = Some r" "length (commits r) = 1" "op_at dec r 0 = Some (Claim \<lparr>debit_account = b, debit_nonce = 0\<rparr>)"
  shows "balance (ledger_balance seq_of dec share b) = 0 \<and> balance (ledger_balance seq_of dec share a) = amount t"
proof -
  have "checked_sub 0 (amount t) = None" using assms(3) by (simp add: checked_sub_def)
  then have "balance (ledger_balance seq_of dec share b) = 0"
    unfolding ledger_balance_one [of seq_of b s dec, OF assms(4-6)] by (simp add: token_default_def)
  moreover have "resolve_debit seq_of dec b 0 = Some t" using assms(4,6) by (simp add: resolve_debit_def)
  moreover have "checked_add 0 (amount t) = Some (amount t)" by (simp add: checked_add_Some_iff)
  ultimately show ?thesis
    unfolding ledger_balance_one [of seq_of a r dec, OF assms(7-9)] using assms(2) by (simp add: token_default_def Let_def)
qed

text \<open>
  The resumed scan is exact: after any growth of an append-only chain, \<open>paid_total\<close> with the
  cache left by an earlier read returns what a scan from nonce 0 returns.
\<close>

theorem paid_total_resumes:
  assumes "seq_of0 acct = Some s0" "seq_of acct = Some s" "prefix (commits s0) (commits s)" "length (commits s) < 2 ^ 64"
  shows "fst (paid_total seq_of dec (snd (paid_total seq_of0 dec Map.empty acct)) acct)
    = fst (paid_total seq_of dec Map.empty acct)"
proof -
  have l: "length (commits s0) \<le> length (commits s)" using assms(3) by (rule prefix_length_le)
  let ?c = "snd (paid_total seq_of0 dec Map.empty acct)"
  have "?c acct = Some (next_nonce s0, paid_upto dec s0 (length (commits s0)))"
    using paid_total_from [of seq_of0 acct s0 Map.empty dec] assms(1,4) l by simp
  then have "?c acct = Some (of_nat (length (commits s0)), paid_upto dec s (length (commits s0)))"
    using paid_upto_prefix [OF assms(3), of "length (commits s0)" dec] by (simp add: next_nonce_def)
  with l have "\<exists>k \<le> length (commits s). ?c acct = Some (of_nat k, paid_upto dec s k)" by blast
  then have "fst (paid_total seq_of dec ?c acct) = paid_upto dec s (length (commits s))"
    using paid_total_from [of seq_of acct s ?c dec, OF assms(2,4)] by simp
  moreover have "fst (paid_total seq_of dec Map.empty acct) = paid_upto dec s (length (commits s))"
    using paid_total_from [of seq_of acct s Map.empty dec, OF assms(2,4)] by simp
  ultimately show ?thesis by simp
qed

text \<open>
  The scan counts payments the fold rejected: an account without funds that commits a \<open>Pay\<close>
  keeps its empty balance and is reported to have paid the full amount.
\<close>

theorem rejected_pay_counts_as_paid:
  assumes "seq_of a = Some s" "length (commits s) = 1" "op_at dec s 0 = Some (Pay amt)" "amt \<noteq> 0"
  shows "ledger_balance seq_of dec share a = token_default \<and> fst (paid_total seq_of dec Map.empty a) = amt"
proof -
  have "checked_sub 0 amt = None" using assms(4) by (simp add: checked_sub_def)
  then have "ledger_balance seq_of dec share a = token_default"
    unfolding ledger_balance_one [of seq_of a s dec, OF assms(1-3)] by (simp add: token_default_def)
  moreover have "dec (payload (c_write (commits s ! 0))) = Some (Pay amt)"
    using assms(2,3) by (simp add: op_at_def payload_at_def)
  moreover have "sat_add 0 amt = amt" using unat_lt [of amt] by (simp add: sat_add_def del: unsigned_less)
  ultimately show ?thesis
    using paid_total_from [of seq_of a s Map.empty dec] assms(1,2) by (simp add: paid_upto_def pay_step_def)
qed

section \<open>Witnesses\<close>

definition wit_write :: "bytes32 \<Rightarrow> nat \<Rightarrow> bytes \<Rightarrow> sequenced_commit" where
  "wit_write a n p = \<lparr>c_write = \<lparr>account = a, nonce = of_nat n, payload = p, w_owner_sig = []\<rparr>, c_signatures = []\<rparr>"

definition wit_tr :: transfer_op where
  "wit_tr = \<lparr>to = 2, amount = 30, memo = 0\<rparr>"

fun wit_dec :: op_decoder where
  "wit_dec [x] = (if x = 0 then Some (RewardClaim 4) else if x = 1 then Some (Transfer wit_tr)
     else if x = 2 then Some (Claim \<lparr>debit_account = 1, debit_nonce = 1\<rparr>)
     else if x = 3 then Some (Claim \<lparr>debit_account = 1, debit_nonce = 0\<rparr>) else Some (Pay 7))"
| "wit_dec _ = None"

definition wit_chains :: chains where
  "wit_chains = [1 \<mapsto> \<lparr>s_account = 1, commits = [wit_write 1 0 [0], wit_write 1 1 [1]]\<rparr>,
                 2 \<mapsto> \<lparr>s_account = 2, commits = [wit_write 2 0 [2], wit_write 2 1 [2]]\<rparr>]"

definition wit_share :: shares where
  "wit_share e a = 50"

lemma wit_nonces: "nonces \<lparr>s_account = a, commits = [x, y]\<rparr> = [0, 1]"
  by (simp add: nonces_def next_nonce_def upt_rec)

lemma wit_accepted: "accepted_writes wit_chains wit_dec wit_share 1 = [(0, RewardClaim 4), (1, Transfer wit_tr)]"
  by (simp add: accepted_writes_def wit_chains_def wit_nonces accepted.simps payload_at_def wit_write_def wit_share_def
      token_default_def checked_add_def checked_sub_def wit_tr_def word_le_nat_alt)

lemma wit_resolve: "resolve_debit wit_chains wit_dec b n = Some t \<Longrightarrow> b = 1 \<and> n = 1 \<and> t = wit_tr"
proof -
  assume r: "resolve_debit wit_chains wit_dec b n = Some t"
  then obtain s where s: "wit_chains b = Some s" "op_at wit_dec s n = Some (Transfer t)"
    by (auto simp: resolve_debit_def split: option.splits ledger_op.splits)
  then have "length (commits s) = 2" by (auto simp: wit_chains_def split: if_splits)
  then have "unat n = 0 \<or> unat n = 1" using s(2) by (auto simp: op_at_def payload_at_def split: if_splits)
  then have "n = 0 \<or> n = 1" by (metis unsigned_0 unsigned_1 unsigned_word_eqI)
  then show ?thesis using s
    by (auto simp: wit_chains_def op_at_def payload_at_def wit_write_def split: if_splits)
qed

lemma wit_effective: "all_transfers_effective wit_chains wit_dec wit_share"
  unfolding all_transfers_effective_def using wit_accepted by (auto dest!: wit_resolve)

theorem ledger_no_inflation_witness:
  "(\<Sum>a\<in>(UNIV :: bytes32 set). unat (balance (ledger_balance wit_chains wit_dec wit_share a)))
      + (\<Sum>a\<in>(UNIV :: bytes32 set). total_of pay_amount (accepted_writes wit_chains wit_dec wit_share a))
    \<le> (\<Sum>a\<in>(UNIV :: bytes32 set). total_of (reward_amount wit_share a) (accepted_writes wit_chains wit_dec wit_share a))
   \<and> balance (ledger_balance wit_chains wit_dec wit_share 2) = 30"
proof
  show "balance (ledger_balance wit_chains wit_dec wit_share 2) = 30"
    by (simp add: ledger_balance_def wit_chains_def wit_nonces payload_at_def wit_write_def token_default_def checked_add_def
        resolve_debit_def op_at_def wit_tr_def)
qed (rule ledger_no_inflation [OF wit_effective])

definition wit_chains2 :: chains where
  "wit_chains2 = [1 \<mapsto> \<lparr>s_account = 1, commits = [wit_write 1 0 [1]]\<rparr>, 2 \<mapsto> \<lparr>s_account = 2, commits = [wit_write 2 0 [3]]\<rparr>,
                  5 \<mapsto> \<lparr>s_account = 5, commits = [wit_write 5 0 [9]]\<rparr>]"

theorem overdraft_transfer_is_claimable_witness:
  "balance (ledger_balance wit_chains2 wit_dec wit_share 1) = 0 \<and> balance (ledger_balance wit_chains2 wit_dec wit_share 2) = 30"
  using overdraft_transfer_is_claimable [of 2 1 wit_tr wit_chains2 "\<lparr>s_account = 1, commits = [wit_write 1 0 [1]]\<rparr>" wit_dec
      "\<lparr>s_account = 2, commits = [wit_write 2 0 [3]]\<rparr>" wit_share]
  by (simp add: wit_chains2_def op_at_def payload_at_def wit_write_def) (simp add: wit_tr_def)

theorem rejected_pay_counts_as_paid_witness:
  "ledger_balance wit_chains2 wit_dec wit_share 5 = token_default \<and> fst (paid_total wit_chains2 wit_dec Map.empty 5) = 7"
  using rejected_pay_counts_as_paid [of wit_chains2 5 "\<lparr>s_account = 5, commits = [wit_write 5 0 [9]]\<rparr>" wit_dec 7 wit_share]
  by (simp add: wit_chains2_def op_at_def payload_at_def wit_write_def)

theorem paid_total_resumes_witness:
  "fst (paid_total [5 \<mapsto> \<lparr>s_account = 5, commits = [wit_write 5 0 [9], wit_write 5 1 [9]]\<rparr>] wit_dec
      (snd (paid_total wit_chains2 wit_dec Map.empty 5)) 5)
    = fst (paid_total [5 \<mapsto> \<lparr>s_account = 5, commits = [wit_write 5 0 [9], wit_write 5 1 [9]]\<rparr>] wit_dec Map.empty 5)"
  by (rule paid_total_resumes [of wit_chains2 5 "\<lparr>s_account = 5, commits = [wit_write 5 0 [9]]\<rparr>" _
      "\<lparr>s_account = 5, commits = [wit_write 5 0 [9], wit_write 5 1 [9]]\<rparr>"])
    (simp_all add: wit_chains2_def)

end
