(* ===== verification/Reward.thy ===== *)
theory Reward
  imports BTree_Map
begin

text \<open>
  The reward valuation, \<open>src/crates/reward/src/lib.rs\<close>: the issuance schedule, the pure
  function \<open>compute\<close> from an epoch's input to its record, and the state commitment. BLAKE3 is
  the parameter \<open>hash\<close>. The 128-bit product of a share panics when it overflows, so \<open>compute\<close>
  returns an option; the 128-bit sums cannot overflow, since a vector holds fewer than \<open>2 ^ 64\<close>
  entries of 64 bits each.
\<close>

section \<open>The issuance schedule\<close>

definition ONE_TOKEN :: u64 where "ONE_TOKEN = 100000000"

definition DEFAULT_ISSUANCE_TOKENS_PER_DAY :: u64 where "DEFAULT_ISSUANCE_TOKENS_PER_DAY = ONE_TOKEN"

definition DEFAULT_ISSUANCE_TOTAL_CAP :: u64 where "DEFAULT_ISSUANCE_TOTAL_CAP = 1000000 * ONE_TOKEN"

record issuance_params =
  tokens_per_day :: u64
  epochs_per_day :: u64
  total_cap :: u64

definition issuance_for :: "u64 \<Rightarrow> u64 \<Rightarrow> bool \<Rightarrow> issuance_params \<Rightarrow> u64" where
  "issuance_for epoch cumulative_issued has_contribution params =
     (if \<not> has_contribution \<or> tokens_per_day params = 0 \<or> epochs_per_day params = 0 then 0
      else let r = (ucast (tokens_per_day params) :: u128); e = (ucast (epochs_per_day params) :: u128);
               scheduled = (ucast (sat_sub ((ucast epoch + 1) * r div e) (ucast epoch * r div e)) :: u64);
               headroom = sat_sub (total_cap params) cumulative_issued in
           if scheduled < headroom then scheduled else headroom)"

section \<open>Input, record and commitment\<close>

record contribution =
  provider :: bytes32
  bytes_served :: u64
  cumulative_bytes :: u64

record entitlement =
  consumer :: bytes32
  spent :: u64
  remaining :: u64

type_synonym marks = "(bytes32 \<times> u64) list"
type_synonym served_marks = "((bytes32 \<times> bytes32) \<times> u64) list"

record economic_snapshot =
  es_pool :: u64
  es_minted :: u64
  paid_watermarks :: marks
  served_watermarks :: served_marks
  seeding_next :: marks
  es_claimed :: "(u64 \<times> bytes32) list"

record reward_input =
  in_epoch :: u64
  in_pool :: u64
  contributions :: "contribution list"
  in_entitlements :: "entitlement list"
  in_cumulative_issued :: u64
  issuance :: issuance_params
  in_paid_marks :: marks
  in_served_marks :: served_marks
  in_paid :: u64
  claim_payouts :: u64
  in_state :: economic_snapshot

record share =
  sh_provider :: bytes32
  sh_amount :: u64
  sh_bytes :: u64
  sh_cumulative :: u64

definition section_bytes :: "('a \<Rightarrow> bytes) \<Rightarrow> 'a list \<Rightarrow> bytes" where
  "section_bytes row xs = le_bytes 8 (of_nat (length xs) :: u64) @ concat (map row xs)"

text \<open>What is fed to the hasher, in order.\<close>

definition state_bytes :: "economic_snapshot \<Rightarrow> bytes" where
  "state_bytes s = map of_char ''zeph.econ.v1'' @ le_bytes 8 (es_pool s) @ le_bytes 8 (es_minted s)
     @ section_bytes (\<lambda>(k, v). be_bytes 32 k @ le_bytes 8 v) (paid_watermarks s)
     @ section_bytes (\<lambda>((p, c), v). be_bytes 32 p @ be_bytes 32 c @ le_bytes 8 v) (served_watermarks s)
     @ section_bytes (\<lambda>(k, v). be_bytes 32 k @ le_bytes 8 v) (seeding_next s)
     @ section_bytes (\<lambda>(e, p). le_bytes 8 e @ be_bytes 32 p) (es_claimed s)"

definition state_hash :: "(bytes \<Rightarrow> bytes32) \<Rightarrow> economic_snapshot \<Rightarrow> bytes32" where
  "state_hash hash s = hash (state_bytes s)"

definition CHECKPOINT_EVERY :: u64 where "CHECKPOINT_EVERY = 32"

definition is_checkpoint :: "u64 \<Rightarrow> bool" where
  "is_checkpoint epoch \<longleftrightarrow> epoch mod CHECKPOINT_EVERY = 0"

record reward_record =
  r_epoch :: u64
  r_pool :: u64
  shares :: "share list"
  entitlements :: "entitlement list"
  issued :: u64
  checkpoint :: "economic_snapshot option"
  paid_marks :: marks
  r_served_marks :: served_marks
  committed_pool :: u64
  r_state_hash :: bytes32
  cumulative_issued :: u64

definition share_of :: "reward_record \<Rightarrow> bytes32 \<Rightarrow> u64" where
  "share_of r p = (case List.find (\<lambda>s. sh_provider s = p) (shares r) of None \<Rightarrow> 0 | Some s \<Rightarrow> sh_amount s)"

definition bytes_of :: "reward_record \<Rightarrow> bytes32 \<Rightarrow> u64" where
  "bytes_of r p = (case List.find (\<lambda>s. sh_provider s = p) (shares r) of None \<Rightarrow> 0 | Some s \<Rightarrow> sh_bytes s)"

definition spent_by :: "reward_record \<Rightarrow> bytes32 \<Rightarrow> u64" where
  "spent_by r c = (case List.find (\<lambda>e. consumer e = c) (entitlements r) of None \<Rightarrow> 0 | Some e \<Rightarrow> spent e)"

definition remaining_for :: "reward_record \<Rightarrow> bytes32 \<Rightarrow> u64 option" where
  "remaining_for r c = map_option remaining (List.find (\<lambda>e. consumer e = c) (entitlements r))"

definition cumulative_bytes_of :: "reward_record \<Rightarrow> bytes32 \<Rightarrow> u64 option" where
  "cumulative_bytes_of r p = map_option sh_cumulative (List.find (\<lambda>s. sh_provider s = p) (shares r))"

definition pool_remaining :: "reward_record \<Rightarrow> u64 option" where
  "pool_remaining r = map_option (sat_sub (r_pool r)) (checked_sum (map sh_amount (shares r)) 0)"

section \<open>The valuation\<close>

definition add_contribution :: "contribution \<Rightarrow> (u128 \<times> u64) option \<Rightarrow> u128 \<times> u64" where
  "add_contribution c e = (case (case e of None \<Rightarrow> (0, 0) | Some x \<Rightarrow> x) of (b, m) \<Rightarrow>
     (b + ucast (bytes_served c), max m (cumulative_bytes c)))"

definition by_provider :: "contribution list \<Rightarrow> (bytes32, u128 \<times> u64) btree" where
  "by_provider cs = fold (\<lambda>c m. bt_insert (provider c) (add_contribution c (bt_get m (provider c))) m) cs []"

definition total_bytes :: "(bytes32, u128 \<times> u64) btree \<Rightarrow> u128" where
  "total_bytes m = sum_list (map (\<lambda>(p, b, u). b) m)"

definition share_amount :: "u64 \<Rightarrow> u128 \<Rightarrow> u128 \<Rightarrow> u64 option" where
  "share_amount distributable b tot = (if tot = 0 then Some 0
     else case checked_mul (ucast distributable) b of None \<Rightarrow> None | Some x \<Rightarrow> Some (ucast (x div tot)))"

definition make_share :: "u64 \<Rightarrow> u128 \<Rightarrow> bytes32 \<times> u128 \<times> u64 \<Rightarrow> share option" where
  "make_share distributable tot row = (case row of (p, b, u) \<Rightarrow>
     map_option (\<lambda>a. \<lparr>sh_provider = p, sh_amount = a, sh_bytes = ucast b, sh_cumulative = u\<rparr>)
       (share_amount distributable b tot))"

definition add_entitlement :: "entitlement \<Rightarrow> (u64 \<times> u64) option \<Rightarrow> u64 \<times> u64" where
  "add_entitlement e r = (case (case r of None \<Rightarrow> (0, 0) | Some x \<Rightarrow> x) of (s, m) \<Rightarrow>
     (sat_add s (spent e), max m (remaining e)))"

definition by_consumer :: "entitlement list \<Rightarrow> (bytes32, u64 \<times> u64) btree" where
  "by_consumer es = fold (\<lambda>e m. bt_insert (consumer e) (add_entitlement e (bt_get m (consumer e))) m) es []"

definition canonical_marks :: "('k::linorder \<times> u64) list \<Rightarrow> ('k \<times> u64) list" where
  "canonical_marks v = dedup_by_key fst (sort v)"

definition next_state :: "reward_input \<Rightarrow> u64 \<Rightarrow> economic_snapshot" where
  "next_state i iss = (let st = in_state i in
     st\<lparr>es_pool := sat_sub (sat_add (sat_add (es_pool st) (in_paid i)) iss) (claim_payouts i),
        es_minted := sat_add (in_cumulative_issued i) iss,
        paid_watermarks := canonical_marks (paid_watermarks st),
        served_watermarks := canonical_marks (served_watermarks st),
        seeding_next := canonical_marks (seeding_next st),
        es_claimed := remdups_adj (sort (es_claimed st))\<rparr>)"

definition compute :: "(bytes \<Rightarrow> bytes32) \<Rightarrow> reward_input \<Rightarrow> reward_record option" where
  "compute hash i =
     (let m = by_provider (contributions i); tot = total_bytes m;
          iss = issuance_for (in_pool i) (in_cumulative_issued i) (tot > 0) (issuance i);
          distributable = sat_add (in_pool i) iss;
          st = next_state i iss in
      map_option (\<lambda>sh.
        \<lparr>r_epoch = in_epoch i, r_pool = distributable, shares = sh,
         entitlements = map (\<lambda>(c, s, r). \<lparr>consumer = c, spent = s, remaining = r\<rparr>) (by_consumer (in_entitlements i)),
         issued = iss, checkpoint = (if is_checkpoint (in_epoch i) then Some st else None),
         paid_marks = canonical_marks (in_paid_marks i), r_served_marks = canonical_marks (in_served_marks i),
         committed_pool = es_pool st, r_state_hash = state_hash hash st,
         cumulative_issued = sat_add (in_cumulative_issued i) iss\<rparr>)
        (those (map (make_share distributable tot) m)))"

definition run_reward :: "(bytes \<Rightarrow> bytes32) \<Rightarrow> (bytes \<Rightarrow> reward_input option) \<Rightarrow> (reward_record \<Rightarrow> bytes option) \<Rightarrow> bytes
    \<Rightarrow> bytes option option" where
  "run_reward hash from_bytes to_allocvec input = (case from_bytes input of
     None \<Rightarrow> Some None | Some inp \<Rightarrow> map_option to_allocvec (compute hash inp))"

section \<open>The schedule\<close>

lemma unat_div_word [u_simps]: "unat (a div b) = unat a div unat b" for a b :: "'a::len word"
  by (rule unat_div)

text \<open>The 128-bit schedule computes on natural numbers: nothing overflows and the cast keeps the value.\<close>

definition scheduled :: "nat \<Rightarrow> nat \<Rightarrow> nat \<Rightarrow> nat" where
  "scheduled r e n = (n + 1) * r div e - n * r div e"

lemma scheduled_le: "0 < e \<Longrightarrow> scheduled r e n \<le> r"
proof -
  assume "0 < e"
  have "(n + 1) * r div e = (n * r + r) div e" by (simp add: algebra_simps)
  also have "\<dots> \<le> (n * r + r * e) div e" using \<open>0 < e\<close> by (intro div_le_mono) simp
  also have "\<dots> = n * r div e + r" using \<open>0 < e\<close> by simp
  finally show ?thesis by (simp add: scheduled_def)
qed

lemma product_fits: "n \<le> 2 ^ 64 \<Longrightarrow> m < 2 ^ 64 \<Longrightarrow> n * m < (2 :: nat) ^ 128"
proof -
  assume "n \<le> 2 ^ 64" "m < 2 ^ 64"
  then have "n * m \<le> 2 ^ 64 * (2 ^ 64 - 1)" by (intro mult_le_mono) simp_all
  also have "\<dots> < 2 ^ 128" by simp
  finally show ?thesis .
qed

lemma issuance_for_nat:
  "unat (issuance_for epoch cum has p) =
     (if \<not> has \<or> tokens_per_day p = 0 \<or> epochs_per_day p = 0 then 0
      else min (scheduled (unat (tokens_per_day p)) (unat (epochs_per_day p)) (unat epoch))
               (unat (total_cap p) - unat cum))"
proof (cases "\<not> has \<or> tokens_per_day p = 0 \<or> epochs_per_day p = 0")
  case False
  define r e n where ren: "r = unat (tokens_per_day p)" "e = unat (epochs_per_day p)" "n = unat epoch"
  have lt: "r < 2 ^ 64" "n < 2 ^ 64" and e: "0 < e"
    using unat_lt [of "tokens_per_day p"] unat_lt [of epoch] False by (simp_all add: ren unat_gt_0 del: unsigned_less)
  have up: "unat (ucast x :: u128) = unat x" for x :: u64 by (rule unat_ucast_up) simp
  have a: "unat ((ucast epoch + 1) * ucast (tokens_per_day p) :: u128) = (n + 1) * r"
    using product_fits [of "n + 1" r] lt by (simp add: unat_word_ariths up ren del: unsigned_less)
  have b: "unat (ucast epoch * ucast (tokens_per_day p) :: u128) = n * r"
    using product_fits [of n r] lt by (simp add: unat_word_ariths up ren del: unsigned_less)
  let ?d = "sat_sub ((ucast epoch + 1) * ucast (tokens_per_day p) div ucast (epochs_per_day p))
      (ucast epoch * ucast (tokens_per_day p) div ucast (epochs_per_day p)) :: u128"
  have d: "unat ?d = scheduled r e n" by (simp add: u_simps a b up scheduled_def ren [symmetric])
  then have "unat (ucast ?d :: u64) = scheduled r e n"
    using scheduled_le [OF e, of r n] lt by (subst unat_ucast_down) simp_all
  then show ?thesis
    using False by (simp add: issuance_for_def Let_def u_simps word_less_nat_alt min_def ren)
qed (auto simp: issuance_for_def)

lemma scheduled_telescope: "(\<Sum>n = a..<a + k. scheduled r e n) = (a + k) * r div e - a * r div e"
proof (induction k)
  case (Suc k)
  have "a * r div e \<le> (a + k) * r div e" "(a + k) * r div e \<le> (a + k + 1) * r div e"
    by (intro div_le_mono mult_le_mono; simp)+
  then show ?case using Suc by (simp add: scheduled_def)
qed simp

lemma scheduled_day: "0 < e \<Longrightarrow> (\<Sum>n = a..<a + e. scheduled r e n) = r"
  by (simp add: scheduled_telescope algebra_simps)

section \<open>Contributions\<close>

definition served_by :: "contribution list \<Rightarrow> bytes32 \<Rightarrow> nat" where
  "served_by cs p = (\<Sum>c\<leftarrow>filter (\<lambda>c. provider c = p) cs. unat (bytes_served c))"

definition served_total :: "contribution list \<Rightarrow> nat" where
  "served_total cs = (\<Sum>c\<leftarrow>cs. unat (bytes_served c))"

lemma served_total_fits: "length cs < 2 ^ 64 \<Longrightarrow> served_total cs < 2 ^ 128"
proof -
  assume "length cs < 2 ^ 64"
  have le: "unat (bytes_served c) \<le> 2 ^ 64 - 1" for c using unat_le_max [of "bytes_served c"] by simp
  have "served_total cs \<le> length cs * (2 ^ 64 - 1)"
    unfolding served_total_def
  proof (induction cs)
    case (Cons c cs)
    then show ?case using le [of c] by simp
  qed simp
  also have "\<dots> < 2 ^ 128" using product_fits [of "length cs" "2 ^ 64 - 1"] \<open>length cs < 2 ^ 64\<close> by simp
  finally show ?thesis .
qed

lemma served_by_le: "served_by cs p \<le> served_total cs"
  unfolding served_by_def served_total_def by (induction cs) simp_all

lemma by_provider_inv: "bt_inv (by_provider cs)"
  unfolding by_provider_def by (rule bt.inv_accumulate) simp

lemma by_provider_get:
  "bt_get (by_provider cs) p = fold (\<lambda>c acc. Some (add_contribution c acc)) (filter (\<lambda>c. provider c = p) cs) None"
  unfolding by_provider_def by (subst bt.get_accumulate) simp_all

lemma fold_contributions:
  assumes "unat (fst x) + (\<Sum>c\<leftarrow>cs. unat (bytes_served c)) < 2 ^ 128"
  shows "\<exists>y. fold (\<lambda>c acc. Some (add_contribution c acc)) cs (Some x) = Some y
      \<and> unat (fst y) = unat (fst x) + (\<Sum>c\<leftarrow>cs. unat (bytes_served c))"
  using assms
proof (induction cs arbitrary: x)
  case (Cons c cs)
  have up: "unat (ucast (bytes_served c) :: u128) = unat (bytes_served c)" by (rule unat_ucast_up) simp
  let ?y = "add_contribution c (Some x)"
  have "unat (fst ?y) = unat (fst x) + unat (bytes_served c)"
    using Cons.prems by (cases x) (simp add: add_contribution_def up unat_word_ariths)
  with Cons.IH [of ?y] Cons.prems show ?case by (simp add: add.assoc)
qed simp

lemma by_provider_bytes:
  assumes "length cs < 2 ^ 64"
  shows "(case bt_get (by_provider cs) p of None \<Rightarrow> 0 | Some (b, u) \<Rightarrow> unat b) = served_by cs p"
    and "bt_get (by_provider cs) p = None \<longleftrightarrow> p \<notin> provider ` set cs"
proof -
  let ?f = "filter (\<lambda>c. provider c = p) cs"
  have fits: "served_by cs p < 2 ^ 128" using served_by_le served_total_fits [OF assms] by (rule le_less_trans)
  have "(case bt_get (by_provider cs) p of None \<Rightarrow> 0 | Some (b, u) \<Rightarrow> unat b) = served_by cs p
    \<and> (bt_get (by_provider cs) p = None \<longleftrightarrow> p \<notin> provider ` set cs)"
  proof (cases ?f)
    case Nil
    then show ?thesis by (auto simp: by_provider_get served_by_def filter_empty_conv)
  next
    case (Cons c ds)
    have "fold (\<lambda>c acc. Some (add_contribution c acc)) ?f None = fold (\<lambda>c acc. Some (add_contribution c acc)) ?f (Some (0, 0))"
      by (simp add: Cons add_contribution_def)
    moreover have "\<exists>y. fold (\<lambda>c acc. Some (add_contribution c acc)) ?f (Some (0, 0)) = Some y \<and> unat (fst y) = served_by cs p"
      using fold_contributions [of "(0, 0)" ?f] fits by (simp add: served_by_def)
    ultimately obtain y where y: "bt_get (by_provider cs) p = Some y" "unat (fst y) = served_by cs p"
      by (auto simp: by_provider_get)
    have "c \<in> set ?f" by (simp add: Cons)
    then have "p \<in> provider ` set cs" by auto
    with y show ?thesis by (simp add: case_prod_beta)
  qed
  then show "(case bt_get (by_provider cs) p of None \<Rightarrow> 0 | Some (b, u) \<Rightarrow> unat b) = served_by cs p"
    and "bt_get (by_provider cs) p = None \<longleftrightarrow> p \<notin> provider ` set cs" by blast+
qed

lemma sum_by_key: "(\<Sum>p\<in>provider ` set cs. served_by cs p) = served_total cs"
proof -
  have "(\<Sum>p\<in>P. served_by cs p) = served_total cs" if "finite P" "provider ` set cs \<subseteq> P" for P
    using that
  proof (induction cs)
    case (Cons c cs)
    have "(\<Sum>p\<in>P. served_by (c # cs) p) = (\<Sum>p\<in>P. (if p = provider c then unat (bytes_served c) else 0) + served_by cs p)"
      by (intro sum.cong) (auto simp: served_by_def)
    also have "\<dots> = unat (bytes_served c) + served_total cs" using Cons by (simp add: sum.distrib sum.delta)
    finally show ?case by (simp add: served_total_def)
  qed (simp add: served_by_def served_total_def)
  from this [of "provider ` set cs"] show ?thesis by simp
qed

lemma by_provider_rows:
  assumes "length cs < 2 ^ 64" "(p, b, u) \<in> set (by_provider cs)"
  shows "unat b = served_by cs p"
proof -
  have "bt_get (by_provider cs) p = Some (b, u)" using bt_get_Some_iff [OF by_provider_inv] assms(2) by blast
  with by_provider_bytes(1) [OF assms(1), of p] show ?thesis by simp
qed

lemma by_provider_keys: "length cs < 2 ^ 64 \<Longrightarrow> fst ` set (by_provider cs) = provider ` set cs"
  using by_provider_bytes(2) [of cs] bt_get_None_iff [of "by_provider cs"] by blast

lemma sum_rows:
  assumes "length cs < 2 ^ 64"
  shows "(\<Sum>(p, b, u)\<leftarrow>by_provider cs. unat b) = served_total cs"
proof -
  have "(\<Sum>(p, b, u)\<leftarrow>by_provider cs. unat b) = (\<Sum>p\<leftarrow>map fst (by_provider cs). served_by cs p)"
    using by_provider_rows [OF assms] by (auto intro!: arg_cong [of _ _ sum_list] simp: comp_def)
  also have "\<dots> = (\<Sum>p\<in>set (map fst (by_provider cs)). served_by cs p)"
    using bt_inv_distinct [OF by_provider_inv] by (rule sum_list_distinct_conv_sum_set)
  also have "\<dots> = served_total cs" using by_provider_keys [OF assms] sum_by_key by simp
  finally show ?thesis .
qed

lemma total_bytes_nat: "length cs < 2 ^ 64 \<Longrightarrow> unat (total_bytes (by_provider cs)) = served_total cs"
  using sum_rows [of cs] served_total_fits [of cs] unat_sum_list [of "map (\<lambda>(p, b, u). b) (by_provider cs)"]
  by (simp add: total_bytes_def comp_def case_prod_beta')

section \<open>Shares\<close>

lemma those_map_Some: "those (map f xs) = Some ys \<longleftrightarrow> list_all2 (\<lambda>x y. f x = Some y) xs ys"
  by (induction xs arbitrary: ys) (auto simp: list_all2_Cons1 split: option.splits)

lemma those_map_not_None: "(\<And>x. x \<in> set xs \<Longrightarrow> f x \<noteq> None) \<Longrightarrow> those (map f xs) \<noteq> None"
  by (induction xs) (auto split: option.splits)

lemma floor_sum_le:
  fixes d t :: nat
  assumes "(\<Sum>b\<leftarrow>bs. b) \<le> t"
  shows "(\<Sum>b\<leftarrow>bs. d * b div t) \<le> d"
proof (cases "t = 0")
  case False
  have "(\<Sum>b\<leftarrow>bs. d * b div t) * t \<le> d * (\<Sum>b\<leftarrow>bs. b)"
  proof (induction bs)
    case (Cons b bs)
    have "d * b div t * t \<le> d * b" by (rule div_times_less_eq_dividend)
    with Cons show ?case by (simp add: distrib_right distrib_left add_mono)
  qed simp
  also have "\<dots> \<le> d * t" using assms by simp
  finally show ?thesis using False by simp
qed simp

lemma floor_sum_gt:
  fixes d t :: nat
  assumes "(\<Sum>b\<leftarrow>bs. b) = t" "0 < t"
  shows "d < (\<Sum>b\<leftarrow>bs. d * b div t) + length bs"
proof -
  have "d * (\<Sum>b\<leftarrow>xs. b) \<le> ((\<Sum>b\<leftarrow>xs. d * b div t) + length xs) * t \<and> (xs \<noteq> [] \<longrightarrow>
      d * (\<Sum>b\<leftarrow>xs. b) < ((\<Sum>b\<leftarrow>xs. d * b div t) + length xs) * t)" for xs
  proof (induction xs)
    case (Cons b xs)
    have "d * b < (d * b div t + 1) * t" using assms(2) dividend_less_div_times [of t "d * b"] by (simp add: algebra_simps)
    with Cons show ?case by (simp add: distrib_right distrib_left)
  qed simp
  moreover have "bs \<noteq> []" using assms by auto
  ultimately have "d * t < ((\<Sum>b\<leftarrow>bs. d * b div t) + length bs) * t" using assms(1) by metis
  then show ?thesis by simp
qed

lemma share_amount_nat:
  assumes "share_amount d b tot = Some a" "unat b \<le> unat tot"
  shows "unat a = unat d * unat b div unat tot"
proof (cases "tot = 0")
  case False
  have up: "unat (ucast d :: u128) = unat d" by (rule unat_ucast_up) simp
  from assms(1) False obtain x where x: "checked_mul (ucast d) b = Some x" and a: "a = ucast (x div tot)"
    by (auto simp: share_amount_def split: option.splits)
  have "unat x = unat d * unat b" using x by (auto simp: checked_mul_def up unat_word_ariths split: if_splits)
  moreover have "unat d * unat b div unat tot \<le> unat d"
  proof -
    have "unat d * unat b div unat tot \<le> unat d * unat tot div unat tot" using assms(2) by (intro div_le_mono) simp
    then show ?thesis using False by (simp add: unat_eq_zero)
  qed
  ultimately have "unat (x div tot) < 2 ^ 64" using unat_lt [of d] by (simp add: unat_div del: unsigned_less)
  then show ?thesis using a \<open>unat x = _\<close> by (simp add: unat_ucast_down unat_div)
qed (use assms in \<open>simp add: share_amount_def\<close>)

lemma compute_shares:
  assumes "compute hash i = Some r"
  shows "list_all2 (\<lambda>x y. make_share (r_pool r) (total_bytes (by_provider (contributions i))) x = Some y)
      (by_provider (contributions i)) (shares r)"
  using assms by (auto simp: compute_def Let_def those_map_Some)

lemma make_share_fields:
  "make_share d tot (p, b, u) = Some s \<longleftrightarrow> (\<exists>a. share_amount d b tot = Some a \<and>
     s = \<lparr>sh_provider = p, sh_amount = a, sh_bytes = ucast b, sh_cumulative = u\<rparr>)"
  by (auto simp: make_share_def)

lemma share_rows:
  assumes "compute hash i = Some r" "length (contributions i) < 2 ^ 64"
  shows "list_all2 (\<lambda>row s. case row of (p, b, u) \<Rightarrow> sh_provider s = p
      \<and> unat (sh_amount s) = unat (r_pool r) * unat b div served_total (contributions i))
      (by_provider (contributions i)) (shares r)"
proof (rule list.rel_mono_strong [OF compute_shares [OF assms(1)]])
  fix row s
  let ?T = "total_bytes (by_provider (contributions i))"
  assume "s \<in> set (shares r)"
  assume row: "row \<in> set (by_provider (contributions i))" and s: "make_share (r_pool r) ?T row = Some s"
  obtain p b u where pbu: "row = (p, b, u)" by (cases row)
  have tot: "unat ?T = served_total (contributions i)" using assms(2) by (rule total_bytes_nat)
  have "unat b \<le> unat ?T"
    using by_provider_rows [OF assms(2)] row served_by_le [of "contributions i" p] by (simp add: pbu tot)
  then show "case row of (p, b, u) \<Rightarrow> sh_provider s = p
      \<and> unat (sh_amount s) = unat (r_pool r) * unat b div served_total (contributions i)"
    using s share_amount_nat [of "r_pool r" b ?T] by (auto simp: pbu make_share_fields tot)
qed

lemma shares_sum_rows:
  assumes "compute hash i = Some r" "length (contributions i) < 2 ^ 64"
  shows "(\<Sum>s\<leftarrow>shares r. unat (sh_amount s))
    = (\<Sum>b\<leftarrow>map (\<lambda>(p, b, u). unat b) (by_provider (contributions i)). unat (r_pool r) * b div served_total (contributions i))"
proof -
  let ?D = "unat (r_pool r)" and ?T = "served_total (contributions i)"
  have "(\<Sum>s\<leftarrow>shares r. unat (sh_amount s)) = (\<Sum>(p, b, u)\<leftarrow>by_provider (contributions i). ?D * unat b div ?T)"
    using share_rows [OF assms] by (induction rule: list_all2_induct) (auto split: prod.splits)
  then show ?thesis by (simp add: comp_def case_prod_beta')
qed

lemma shares_sum:
  assumes "compute hash i = Some r" "length (contributions i) < 2 ^ 64"
  shows "(\<Sum>s\<leftarrow>shares r. unat (sh_amount s)) \<le> unat (r_pool r)"
  unfolding shares_sum_rows [OF assms] using sum_rows [OF assms(2)] by (intro floor_sum_le) (simp add: comp_def)

lemma shares_dust:
  assumes "compute hash i = Some r" "length (contributions i) < 2 ^ 64" "0 < served_total (contributions i)"
  shows "unat (r_pool r) < (\<Sum>s\<leftarrow>shares r. unat (sh_amount s)) + length (shares r)"
  unfolding shares_sum_rows [OF assms(1,2)]
  using floor_sum_gt [of "map (\<lambda>(p, b, u). unat b) (by_provider (contributions i))" "served_total (contributions i)" "unat (r_pool r)"]
    sum_rows [OF assms(2)] assms(3) list_all2_lengthD [OF share_rows [OF assms(1,2)]]
  by (simp add: comp_def)

lemma compute_pool:
  assumes "compute hash i = Some r" "length (contributions i) < 2 ^ 64"
  shows "issued r = issuance_for (in_pool i) (in_cumulative_issued i) (0 < served_total (contributions i)) (issuance i)"
    and "unat (r_pool r) = min (unat (in_pool i) + unat (issued r)) (2 ^ 64 - 1)"
proof -
  have "0 < total_bytes (by_provider (contributions i)) \<longleftrightarrow> 0 < served_total (contributions i)"
    by (simp add: word_less_nat_alt total_bytes_nat [OF assms(2)])
  then show "issued r = issuance_for (in_pool i) (in_cumulative_issued i) (0 < served_total (contributions i)) (issuance i)"
    using assms(1) by (auto simp: compute_def Let_def)
  show "unat (r_pool r) = min (unat (in_pool i) + unat (issued r)) (2 ^ 64 - 1)"
    using assms(1) by (auto simp: compute_def Let_def unat_sat_add)
qed

lemma shares_providers:
  assumes "compute hash i = Some r"
  shows "map sh_provider (shares r) = map fst (by_provider (contributions i))"
  using compute_shares [OF assms]
  by (induction rule: list_all2_induct) (auto simp: make_share_fields)

lemma compute_returns:
  assumes "length (contributions i) < 2 ^ 64" "\<And>p. served_by (contributions i) p < 2 ^ 64"
  shows "\<exists>r. compute hash i = Some r"
proof -
  have "make_share d t row \<noteq> None" if "row \<in> set (by_provider (contributions i))" for d t row
  proof -
    obtain p b u where row: "row = (p, b, u)" by (cases row)
    have "unat b < 2 ^ 64" using by_provider_rows [OF assms(1)] that assms(2) [of p] by (simp add: row)
    moreover have "unat (ucast d :: u128) < 2 ^ 64"
      using unat_lt [of d] by (simp add: unat_ucast_up del: unsigned_less)
    ultimately have "unat (ucast d :: u128) * unat b < 2 ^ 128"
      using product_fits [of "unat (ucast d :: u128)" "unat b"] by (simp del: unsigned_less)
    then show ?thesis by (simp add: make_share_def row share_amount_def checked_mul_def)
  qed
  then have "those (map (make_share d t) (by_provider (contributions i))) \<noteq> None" for d t
    by (intro those_map_not_None) blast
  then show ?thesis by (auto simp: compute_def Let_def)
qed


section \<open>Canonical records\<close>

text \<open>The same input with its vectors in another order.\<close>

definition same_state :: "economic_snapshot \<Rightarrow> economic_snapshot \<Rightarrow> bool" where
  "same_state s t \<longleftrightarrow> es_pool s = es_pool t \<and> es_minted s = es_minted t
     \<and> mset (paid_watermarks s) = mset (paid_watermarks t)
     \<and> mset (served_watermarks s) = mset (served_watermarks t)
     \<and> mset (seeding_next s) = mset (seeding_next t) \<and> mset (es_claimed s) = mset (es_claimed t)"

definition same_input :: "reward_input \<Rightarrow> reward_input \<Rightarrow> bool" where
  "same_input i j \<longleftrightarrow> in_epoch i = in_epoch j \<and> in_pool i = in_pool j
     \<and> in_cumulative_issued i = in_cumulative_issued j \<and> issuance i = issuance j
     \<and> in_paid i = in_paid j \<and> claim_payouts i = claim_payouts j
     \<and> mset (contributions i) = mset (contributions j) \<and> mset (in_entitlements i) = mset (in_entitlements j)
     \<and> mset (in_paid_marks i) = mset (in_paid_marks j) \<and> mset (in_served_marks i) = mset (in_served_marks j)
     \<and> same_state (in_state i) (in_state j)"

lemma by_provider_perm: "mset cs = mset ds \<Longrightarrow> by_provider cs = by_provider ds"
  unfolding by_provider_def
  by (rule bt.accumulate_perm) (auto simp: add_contribution_def max.commute max.left_commute algebra_simps split: prod.splits)

lemma sat_add_swap: "sat_add (sat_add s a) b = sat_add (sat_add s b) a"
proof -
  have "min (min (x + y) m + z) m = min (min (x + z) m + y) m" for x y z m :: nat by linarith
  then show ?thesis by (simp only: word_unat_eq_iff unat_sat_add)
qed

lemma by_consumer_perm: "mset cs = mset ds \<Longrightarrow> by_consumer cs = by_consumer ds"
  unfolding by_consumer_def
  by (rule bt.accumulate_perm)
    (auto simp: add_entitlement_def sat_add_swap max.commute max.left_commute split: prod.splits)

lemma canonical_marks_perm: "mset v = mset w \<Longrightarrow> canonical_marks v = canonical_marks w"
  unfolding canonical_marks_def by (drule sort_perm_eq) (rule arg_cong)

lemma next_state_perm: "same_input i j \<Longrightarrow> next_state i x = next_state j x"
proof -
  assume same: "same_input i j"
  let ?s = "in_state i" and ?t = "in_state j"
  have "canonical_marks (paid_watermarks ?s) = canonical_marks (paid_watermarks ?t)"
    and "canonical_marks (served_watermarks ?s) = canonical_marks (served_watermarks ?t)"
    and "canonical_marks (seeding_next ?s) = canonical_marks (seeding_next ?t)"
    and "sort (es_claimed ?s) = sort (es_claimed ?t)"
    by (rule canonical_marks_perm sort_perm_eq, use same in \<open>simp add: same_input_def same_state_def\<close>)+
  moreover have "es_pool ?s = es_pool ?t" "in_paid i = in_paid j" "claim_payouts i = claim_payouts j"
    "in_cumulative_issued i = in_cumulative_issued j"
    using same by (simp_all add: same_input_def same_state_def)
  ultimately show ?thesis
    by (intro economic_snapshot.equality) (simp_all add: next_state_def Let_def)
qed

text \<open>\<^bold>\<open>The record is canonical\<close> (C24). Two nodes that hand \<open>compute\<close> the same contributions,
  entitlements, watermarks and economic state in different orders obtain the same record, so the
  same hash to sign; the entitlement rows are merged per consumer and strictly sorted.\<close>

theorem compute_canonical:
  assumes "same_input i j"
  shows "compute hash i = compute hash j
    \<and> (\<forall>r. compute hash i = Some r \<longrightarrow> sorted_wrt (<) (map consumer (entitlements r)))"
proof
  have "by_provider (contributions i) = by_provider (contributions j)"
    and "by_consumer (in_entitlements i) = by_consumer (in_entitlements j)"
    and "canonical_marks (in_paid_marks i) = canonical_marks (in_paid_marks j)"
    and "canonical_marks (in_served_marks i) = canonical_marks (in_served_marks j)"
    using assms by (auto simp: same_input_def intro: by_provider_perm by_consumer_perm canonical_marks_perm)
  with next_state_perm [OF assms] show "compute hash i = compute hash j"
    using assms by (simp add: compute_def same_input_def)
  have "bt_inv (by_consumer es)" for es
    unfolding by_consumer_def by (rule bt.inv_accumulate) simp
  then show "\<forall>r. compute hash i = Some r \<longrightarrow> sorted_wrt (<) (map consumer (entitlements r))"
    by (auto simp: compute_def Let_def bt_inv_def comp_def case_prod_beta')
qed

section \<open>Emission and the pool\<close>

text \<open>The cumulative counter over \<open>n\<close> consecutive epochs that have contributions.\<close>

primrec issued_over :: "issuance_params \<Rightarrow> u64 \<Rightarrow> nat \<Rightarrow> u64 \<Rightarrow> u64" where
  "issued_over p epoch 0 cum = cum"
| "issued_over p epoch (Suc n) cum =
     (let c = issued_over p epoch n cum in sat_add c (issuance_for (epoch + of_nat n) c True p))"

lemma issued_over_cap: "unat (issued_over p s n cum) \<le> max (unat cum) (unat (total_cap p))"
proof (induction n)
  case (Suc n)
  have "unat (issuance_for (s + of_nat n) (issued_over p s n cum) True p) \<le> unat (total_cap p) - unat (issued_over p s n cum)"
    by (simp add: issuance_for_nat)
  with Suc show ?case by (simp add: Let_def unat_sat_add)
qed simp

lemma issued_over_schedule:
  assumes "0 < e" "e = unat (epochs_per_day p)" "r = unat (tokens_per_day p)"
    and "unat cum + (\<Sum>m = unat s..<unat s + n. scheduled r e m) \<le> unat (total_cap p)" "unat s + n \<le> 2 ^ 64"
  shows "unat (issued_over p s n cum) = unat cum + (\<Sum>m = unat s..<unat s + n. scheduled r e m)"
  using assms(4,5)
proof (induction n)
  case (Suc n)
  let ?c = "issued_over p s n cum"
  have c: "unat ?c = unat cum + (\<Sum>m = unat s..<unat s + n. scheduled r e m)" using Suc by simp
  have "unat (of_nat n :: u64) = n" using Suc.prems by (intro unat_of_nat_less) simp
  then have sn: "unat (s + of_nat n) = unat s + n" using Suc.prems by (simp add: unat_word_ariths)
  have "unat (issuance_for (s + of_nat n) ?c True p) = scheduled r e (unat s + n)"
    using assms(1-3) Suc.prems c
    by (auto simp: issuance_for_nat sn scheduled_def min_def unat_eq_zero)
  then show ?case using Suc.prems c unat_lt [of "total_cap p"]
    by (simp add: Let_def unat_sat_add del: unsigned_less)
qed simp

text \<open>\<^bold>\<open>Issuance is exact per day and capped\<close> . Over any \<open>epochs_per_day\<close> consecutive epochs that
  have contributions, the counter grows by exactly \<open>tokens_per_day\<close>, however little that is per
  epoch, as long as the cap leaves room; and no run of epochs takes the counter past the cap.\<close>

theorem issuance_schedule:
  assumes "0 < epochs_per_day p"
  shows "unat (issued_over p s n cum) \<le> max (unat cum) (unat (total_cap p))
    \<and> (unat s + unat (epochs_per_day p) \<le> 2 ^ 64 \<and> unat cum + unat (tokens_per_day p) \<le> unat (total_cap p) \<longrightarrow>
       unat (issued_over p s (unat (epochs_per_day p)) cum) = unat cum + unat (tokens_per_day p))"
proof
  have e: "0 < unat (epochs_per_day p)" using assms by (simp add: unat_gt_0 word_neq_0_conv)
  show "unat s + unat (epochs_per_day p) \<le> 2 ^ 64 \<and> unat cum + unat (tokens_per_day p) \<le> unat (total_cap p) \<longrightarrow>
       unat (issued_over p s (unat (epochs_per_day p)) cum) = unat cum + unat (tokens_per_day p)"
    using issued_over_schedule [OF e refl refl, of cum s "unat (epochs_per_day p)"] scheduled_day [OF e] by simp
qed (rule issued_over_cap)

text \<open>\<^bold>\<open>The committed state follows the flows\<close> . Unless a sum leaves 64 bits, the pool a record
  commits is the previous one plus payments and issuance minus the payouts; the counter grows by what
  was issued and stays under the cap; a checkpoint is present exactly at the multiples of 32, carries
  that pool, and is the preimage of the record's state hash.\<close>

theorem compute_commits_state:
  assumes "compute hash i = Some r"
  shows "(unat (es_pool (in_state i)) + unat (in_paid i) + unat (issued r) < 2 ^ 64
        \<and> unat (claim_payouts i) \<le> unat (es_pool (in_state i)) + unat (in_paid i) + unat (issued r) \<longrightarrow>
        unat (committed_pool r) + unat (claim_payouts i) = unat (es_pool (in_state i)) + unat (in_paid i) + unat (issued r))
    \<and> (in_cumulative_issued i \<le> total_cap (issuance i) \<longrightarrow>
        unat (cumulative_issued r) = unat (in_cumulative_issued i) + unat (issued r)
        \<and> cumulative_issued r \<le> total_cap (issuance i))
    \<and> (checkpoint r = None \<longleftrightarrow> unat (in_epoch i) mod 32 \<noteq> 0)
    \<and> (\<forall>s. checkpoint r = Some s \<longrightarrow> es_pool s = committed_pool r \<and> es_minted s = cumulative_issued r
          \<and> state_hash hash s = r_state_hash r)"
proof (intro conjI impI allI)
  let ?old = "in_cumulative_issued i" and ?cap = "total_cap (issuance i)"
  have r: "committed_pool r = es_pool (next_state i (issued r))" "cumulative_issued r = sat_add ?old (issued r)"
    "checkpoint r = (if is_checkpoint (in_epoch i) then Some (next_state i (issued r)) else None)"
    "r_state_hash r = state_hash hash (next_state i (issued r))"
    using assms by (auto simp: compute_def Let_def)
  have "unat (issued r) \<le> unat ?cap - unat ?old"
    using assms by (auto simp: compute_def Let_def issuance_for_nat)
  moreover assume "?old \<le> ?cap"
  ultimately have le: "unat ?old + unat (issued r) \<le> unat ?cap" by (simp add: word_le_nat_alt)
  then have "unat ?old + unat (issued r) < 2 ^ 64" using unat_lt [of ?cap] by (simp del: unsigned_less)
  then show "unat (cumulative_issued r) = unat ?old + unat (issued r)" by (simp add: r unat_sat_add)
  with le show "cumulative_issued r \<le> ?cap" by (simp add: word_le_nat_alt)
next
  have "is_checkpoint (in_epoch i) \<longleftrightarrow> unat (in_epoch i) mod 32 = 0"
    by (simp add: is_checkpoint_def CHECKPOINT_EVERY_def word_unat_eq_iff unat_mod)
  then show "checkpoint r = None \<longleftrightarrow> unat (in_epoch i) mod 32 \<noteq> 0"
    using assms by (auto simp: compute_def Let_def)
qed (use assms in \<open>auto simp: compute_def Let_def next_state_def unat_sat_add unat_sat_sub split: if_splits\<close>)

text \<open>\<^bold>\<open>The schedule is read at the pool, not at the epoch\<close> . \<open>compute\<close> passes the pool where
  \<open>issuance_for\<close> takes the epoch, so what is issued is the same at every epoch of one pool and counter;
  with an empty pool and a daily rate below the number of epochs of a day, nothing is ever issued.\<close>

theorem issued_ignores_epoch:
  assumes "compute hash i = Some r" "compute hash (i\<lparr>in_epoch := e\<rparr>) = Some r'"
  shows "issued r' = issued r
    \<and> (in_pool i = 0 \<and> tokens_per_day (issuance i) < epochs_per_day (issuance i) \<longrightarrow> issued r = 0)"
proof (intro conjI impI)
  show "issued r' = issued r" using assms by (auto simp: compute_def Let_def)
  assume z: "in_pool i = 0 \<and> tokens_per_day (issuance i) < epochs_per_day (issuance i)"
  obtain has where "issued r = issuance_for 0 (in_cumulative_issued i) has (issuance i)"
    using assms(1) z by (auto simp: compute_def Let_def)
  then have "unat (issued r) = 0" using z by (simp add: issuance_for_nat scheduled_def word_less_nat_alt)
  then show "issued r = 0" by (simp add: unat_eq_zero)
qed

section \<open>The state commitment\<close>

lemma section_bytes_inj:
  assumes row: "\<And>x y. row x = row y \<longleftrightarrow> x = y" "\<And>x. length (row x) = n"
    and len: "length xs < 2 ^ 64" "length ys < 2 ^ 64"
    and eq: "section_bytes row xs @ a = section_bytes row ys @ b"
  shows "xs = ys \<and> a = b"
proof -
  have "le_bytes 8 (of_nat (length xs) :: u64) = le_bytes 8 (of_nat (length ys) :: u64)"
    and rest: "concat (map row xs) @ a = concat (map row ys) @ b"
    using eq by (simp_all add: section_bytes_def)
  then have "(of_nat (length xs) :: u64) = of_nat (length ys)" by (intro le_bytes_inj [of 8]) simp_all
  moreover have "unat (of_nat (length xs) :: u64) = length xs" "unat (of_nat (length ys) :: u64) = length ys"
    by (rule unat_of_nat_less, use len in simp)+
  ultimately have "length xs = length ys" by metis
  then show ?thesis using rest
    by (induction xs ys rule: list_induct2) (simp_all add: row)
qed

lemma be32_inj: "be_bytes 32 x = be_bytes 32 y \<longleftrightarrow> x = y" for x y :: bytes32
  using be_bytes_inj [of 32 x y] by auto

lemma le8_inj: "le_bytes 8 x = le_bytes 8 y \<longleftrightarrow> x = y" for x y :: u64
  using le_bytes_inj [of 8 x y] by auto

lemmas row_simps = be32_inj le8_inj

lemma marks_section:
  fixes xs ys :: marks
  assumes "length xs < 2 ^ 64" "length ys < 2 ^ 64"
    "section_bytes (\<lambda>(k, v). be_bytes 32 k @ le_bytes 8 v) xs @ a = section_bytes (\<lambda>(k, v). be_bytes 32 k @ le_bytes 8 v) ys @ b"
  shows "xs = ys \<and> a = b"
  by (rule section_bytes_inj [OF _ _ assms, of 40]) (auto simp: row_simps split: prod.splits)

lemma served_section:
  fixes xs ys :: served_marks
  assumes "length xs < 2 ^ 64" "length ys < 2 ^ 64"
    "section_bytes (\<lambda>((p, c), v). be_bytes 32 p @ be_bytes 32 c @ le_bytes 8 v) xs @ a
       = section_bytes (\<lambda>((p, c), v). be_bytes 32 p @ be_bytes 32 c @ le_bytes 8 v) ys @ b"
  shows "xs = ys \<and> a = b"
  by (rule section_bytes_inj [OF _ _ assms, of 72]) (auto simp: row_simps split: prod.splits)

lemma claimed_section:
  fixes xs ys :: "(u64 \<times> bytes32) list"
  assumes "length xs < 2 ^ 64" "length ys < 2 ^ 64"
    "section_bytes (\<lambda>(e, p). le_bytes 8 e @ be_bytes 32 p) xs @ a = section_bytes (\<lambda>(e, p). le_bytes 8 e @ be_bytes 32 p) ys @ b"
  shows "xs = ys \<and> a = b"
  by (rule section_bytes_inj [OF _ _ assms, of 40]) (auto simp: row_simps split: prod.splits)

definition state_fits :: "economic_snapshot \<Rightarrow> bool" where
  "state_fits s \<longleftrightarrow> length (paid_watermarks s) < 2 ^ 64 \<and> length (served_watermarks s) < 2 ^ 64
     \<and> length (seeding_next s) < 2 ^ 64 \<and> length (es_claimed s) < 2 ^ 64"

text \<open>\<^bold>\<open>The commitment binds every field\<close> . The bytes hashed into the record determine the
  snapshot: no two different economic states feed the hasher the same bytes, because every section
  carries its length and every row its width. Under a hash without a collision on them, equal state
  hashes mean equal states.\<close>

theorem state_bytes_inj:
  assumes "state_fits s" "state_fits t" "state_hash hash s = state_hash hash t"
    and nocol: "hash (state_bytes s) = hash (state_bytes t) \<Longrightarrow> state_bytes s = state_bytes t"
  shows "s = t"
proof -
  have eq: "state_bytes s = state_bytes t" using nocol assms(3) by (simp add: state_hash_def)
  then have f: "es_pool s = es_pool t" "es_minted s = es_minted t" by (simp_all add: state_bytes_def le8_inj)
  let ?A = "section_bytes (\<lambda>(k, v). be_bytes 32 k @ le_bytes 8 v) :: marks \<Rightarrow> bytes"
  let ?B = "section_bytes (\<lambda>((p, c), v). be_bytes 32 p @ be_bytes 32 c @ le_bytes 8 v) :: served_marks \<Rightarrow> bytes"
  let ?D = "section_bytes (\<lambda>(e, p). le_bytes 8 e @ be_bytes 32 p) :: (u64 \<times> bytes32) list \<Rightarrow> bytes"
  note fits = assms(1,2) [unfolded state_fits_def]
  have "?A (paid_watermarks s) @ (?B (served_watermarks s) @ ?A (seeding_next s) @ ?D (es_claimed s) @ [])
    = ?A (paid_watermarks t) @ (?B (served_watermarks t) @ ?A (seeding_next t) @ ?D (es_claimed t) @ [])"
    using eq by (simp add: state_bytes_def f)
  from marks_section [OF _ _ this] fits have p: "paid_watermarks s = paid_watermarks t"
    and "?B (served_watermarks s) @ (?A (seeding_next s) @ ?D (es_claimed s) @ [])
      = ?B (served_watermarks t) @ (?A (seeding_next t) @ ?D (es_claimed t) @ [])" by blast+
  from served_section [OF _ _ this(2)] fits have v: "served_watermarks s = served_watermarks t"
    and "?A (seeding_next s) @ (?D (es_claimed s) @ []) = ?A (seeding_next t) @ (?D (es_claimed t) @ [])" by blast+
  from marks_section [OF _ _ this(2)] fits have n: "seeding_next s = seeding_next t"
    and "?D (es_claimed s) @ [] = ?D (es_claimed t) @ []" by blast+
  from claimed_section [OF _ _ this(2)] fits have "es_claimed s = es_claimed t" by blast
  with f p v n show ?thesis by (intro economic_snapshot.equality) simp_all
qed

section \<open>Witnesses\<close>

definition wit_state :: economic_snapshot where
  "wit_state = \<lparr>es_pool = 100, es_minted = 5, paid_watermarks = [(2, 7), (1, 3)], served_watermarks = [],
     seeding_next = [], es_claimed = [(4, 9)]\<rparr>"

definition wit_params :: issuance_params where
  "wit_params = \<lparr>tokens_per_day = 10, epochs_per_day = 288, total_cap = 1000\<rparr>"

definition wit_input :: "contribution list \<Rightarrow> reward_input" where
  "wit_input cs = \<lparr>in_epoch = 64, in_pool = 0, contributions = cs, in_entitlements = [],
     in_cumulative_issued = 5, issuance = wit_params, in_paid_marks = [(1, 3)], in_served_marks = [],
     in_paid = 40, claim_payouts = 25, in_state = wit_state\<rparr>"

definition wit_cs :: "contribution list" where
  "wit_cs = [\<lparr>provider = 2, bytes_served = 3, cumulative_bytes = 8\<rparr>, \<lparr>provider = 1, bytes_served = 1, cumulative_bytes = 1\<rparr>]"

lemma wit_total: "served_total (contributions (wit_input wit_cs)) = 4"
  by (simp add: served_total_def wit_input_def wit_cs_def)

lemma wit_length: "length (contributions (wit_input wit_cs)) < 2 ^ 64"
  by (simp add: wit_input_def wit_cs_def)

lemma wit_fits: "served_by (contributions (wit_input wit_cs)) p < 2 ^ 64"
  using served_by_le [of "contributions (wit_input wit_cs)" p] by (simp add: wit_total)

lemma wit_returns: "\<exists>r. compute hash (wit_input wit_cs) = Some r"
  using compute_returns [OF wit_length wit_fits] .


theorem compute_canonical_witness:
  "compute (\<lambda>b. 0) (wit_input wit_cs) = compute (\<lambda>b. 0) (wit_input (rev wit_cs)) \<and> rev wit_cs \<noteq> wit_cs"
  using compute_canonical [of "wit_input wit_cs" "wit_input (rev wit_cs)" "\<lambda>b. 0"]
  by (simp add: same_input_def same_state_def wit_input_def wit_cs_def)

theorem issuance_schedule_witness:
  "unat (issued_over wit_params 7 288 5) = 15 \<and> unat (issued_over wit_params 7 1000000 5) \<le> 1000"
  using issuance_schedule [of wit_params 7 1000000 5] by (simp add: wit_params_def)

theorem compute_commits_state_witness:
  "\<exists>r. compute (\<lambda>b. 0) (wit_input wit_cs) = Some r \<and> checkpoint r \<noteq> None
     \<and> unat (cumulative_issued r) = 5 + unat (issued r)"
proof -
  obtain r where r: "compute (\<lambda>b. 0) (wit_input wit_cs) = Some r" using wit_returns by blast
  from compute_commits_state [OF r] have "checkpoint r \<noteq> None" "unat (cumulative_issued r) = 5 + unat (issued r)"
    by (simp_all add: wit_input_def wit_params_def)
  with r show ?thesis by blast
qed

theorem issued_ignores_epoch_witness:
  "\<exists>r. compute (\<lambda>b. 0) (wit_input wit_cs) = Some r \<and> issued r = 0 \<and> tokens_per_day (issuance (wit_input wit_cs)) = 10"
proof -
  obtain r where r: "compute (\<lambda>b. 0) (wit_input wit_cs) = Some r" using wit_returns by blast
  have r': "compute (\<lambda>b. 0) (wit_input wit_cs\<lparr>in_epoch := 64\<rparr>) = Some r" using r by (simp add: wit_input_def)
  have "issued r = 0" using issued_ignores_epoch [OF r r'] by (simp add: wit_input_def wit_params_def)
  with r show ?thesis by (auto simp: wit_input_def wit_params_def)
qed

theorem state_bytes_inj_witness:
  "state_fits wit_state \<and> state_hash (\<lambda>b. of_nat (length b)) wit_state = 180 \<and> wit_state = wit_state"
proof -
  have fits: "state_fits wit_state" by (simp add: state_fits_def wit_state_def)
  have "state_hash (\<lambda>b. of_nat (length b)) wit_state = 180"
    by (simp add: state_hash_def state_bytes_def section_bytes_def wit_state_def)
  with fits state_bytes_inj [OF fits fits refl refl] show ?thesis by blast
qed

end
