(* ===== verification/Subscription.thy ===== *)
theory Subscription
  imports BTree_Map
begin

text \<open>
  Windowed egress entitlements, \<open>src/crates/economy-egress/src/subscription.rs\<close>: a first-in
  first-out queue of grants per consumer, bought by payments or handed out once per window while the
  network is seeded, and drawn on by serving.
\<close>

section \<open>The model\<close>

definition SEEDING_PAID_TIER_BYTES :: u64 where "SEEDING_PAID_TIER_BYTES = push_bit 40 1"

definition DEFAULT_BYTES_PER_TOKEN :: u64 where "DEFAULT_BYTES_PER_TOKEN = push_bit 40 1"

definition DEFAULT_WINDOW_SECS :: u64 where "DEFAULT_WINDOW_SECS = 30 * 24 * 3600"

definition SUB_ONE_TOKEN :: u64 where "SUB_ONE_TOKEN = 100000000"

record grant =
  expires_at :: u64
  g_remaining :: u64

record subscription_ledger =
  grants :: "(bytes32, grant list) btree"
  seeding_paid_tier :: u64
  seeding_window :: u64
  sl_seeding_next :: "(bytes32, u64) btree"

definition sub_new :: subscription_ledger where
  "sub_new = \<lparr>grants = [], seeding_paid_tier = SEEDING_PAID_TIER_BYTES, seeding_window = 0, sl_seeding_next = []\<rparr>"

definition set_seeding_paid_tier :: "u64 \<Rightarrow> u64 \<Rightarrow> subscription_ledger \<Rightarrow> subscription_ledger" where
  "set_seeding_paid_tier bytes window_epochs l = l\<lparr>seeding_paid_tier := bytes, seeding_window := window_epochs\<rparr>"

definition seeding_eligibility :: "subscription_ledger \<Rightarrow> (bytes32 \<times> u64) list" where
  "seeding_eligibility l = sl_seeding_next l"

definition restore_seeding_eligibility :: "(bytes32 \<times> u64) list \<Rightarrow> subscription_ledger \<Rightarrow> subscription_ledger" where
  "restore_seeding_eligibility rows l = l\<lparr>sl_seeding_next :=
     fold (\<lambda>(a, n) m. bt_insert a (max (bt_get_or 0 m a) n) m) rows (sl_seeding_next l)\<rparr>"

definition push_grant :: "bytes32 \<Rightarrow> grant \<Rightarrow> subscription_ledger \<Rightarrow> subscription_ledger" where
  "push_grant c g l = l\<lparr>grants := bt_insert c (bt_get_or [] (grants l) c @ [g]) (grants l)\<rparr>"

definition purchased_bytes :: "u64 \<Rightarrow> u64 \<Rightarrow> u64" where
  "purchased_bytes tokens bytes_per_token =
     ucast (sat_mul (ucast tokens :: u128) (ucast bytes_per_token) div ucast SUB_ONE_TOKEN)"

definition purchase :: "bytes32 \<Rightarrow> u64 \<Rightarrow> u64 \<Rightarrow> u64 \<Rightarrow> u64 \<Rightarrow> subscription_ledger \<Rightarrow> subscription_ledger" where
  "purchase c tokens bytes_per_token epoch window l =
     (let bytes = purchased_bytes tokens bytes_per_token in
      if bytes = 0 then l
      else push_grant c \<lparr>expires_at = sat_add epoch window, g_remaining = bytes\<rparr> l)"

definition sub_expire :: "bytes32 \<Rightarrow> u64 \<Rightarrow> subscription_ledger \<Rightarrow> subscription_ledger" where
  "sub_expire c epoch l = (case bt_get (grants l) c of None \<Rightarrow> l
     | Some q \<Rightarrow> let q' = dropWhile (\<lambda>g. expires_at g \<le> epoch) q in
         l\<lparr>grants := if q' = [] then bt_remove c (grants l) else bt_insert c q' (grants l)\<rparr>)"

text \<open>The loop of \<open>allocate\<close>; \<open>used + take\<close> never exceeds the request, so it does not overflow.\<close>

function draw :: "grant list \<Rightarrow> u64 \<Rightarrow> u64 \<Rightarrow> grant list \<times> u64" where
  "draw q want used = (if want = 0 then (q, used) else case q of
       [] \<Rightarrow> ([], used)
     | g # q' \<Rightarrow>
         let take = min (g_remaining g) want; rest = g_remaining g - take in
         draw (if rest = 0 then q' else g\<lparr>g_remaining := rest\<rparr> # q') (want - take) (used + take))"
  by pat_completeness auto
termination
proof (relation "measure (\<lambda>(q, w, u). length q + unat w)", goal_cases)
  case (2 q want used g q' take rest)
  show ?case
  proof (cases "g_remaining g \<le> want")
    case True
    then show ?thesis using 2 by (simp add: unat_sub)
  next
    case False
    then have "take = want" using 2 by (simp add: min_def)
    then show ?thesis using 2 by (simp add: unat_gt_0)
  qed
qed simp

declare draw.simps [simp del]

definition seeding_due :: "bytes32 \<Rightarrow> u64 \<Rightarrow> subscription_ledger \<Rightarrow> bool" where
  "seeding_due c epoch l \<longleftrightarrow> seeding_paid_tier l > 0 \<and> epoch \<ge> bt_get_or 0 (sl_seeding_next l) c"

definition effective_window :: "subscription_ledger \<Rightarrow> u64" where
  "effective_window l = (if seeding_window l = 0 then 1 else seeding_window l)"

definition seed :: "bytes32 \<Rightarrow> u64 \<Rightarrow> subscription_ledger \<Rightarrow> subscription_ledger" where
  "seed c epoch l = (if seeding_due c epoch l
     then let till = sat_add epoch (effective_window l) in
       (push_grant c \<lparr>expires_at = till, g_remaining = seeding_paid_tier l\<rparr> l)
         \<lparr>sl_seeding_next := bt_insert c till (sl_seeding_next l)\<rparr>
     else l)"

definition allocate :: "bytes32 \<Rightarrow> u64 \<Rightarrow> u64 \<Rightarrow> subscription_ledger \<Rightarrow> u64 \<times> subscription_ledger" where
  "allocate c bytes epoch l = (let l' = seed c epoch (sub_expire c epoch l) in
     case bt_get (grants l') c of None \<Rightarrow> (0, l')
     | Some q \<Rightarrow> (case draw q bytes 0 of (q', used) \<Rightarrow>
         (used, l'\<lparr>grants := if q' = [] then bt_remove c (grants l') else bt_insert c q' (grants l')\<rparr>)))"

definition live_sum :: "u64 \<Rightarrow> grant list \<Rightarrow> u64" where
  "live_sum epoch q = fold (\<lambda>b a. sat_add a b) (map g_remaining (filter (\<lambda>g. expires_at g > epoch) q)) 0"

definition balances :: "u64 \<Rightarrow> subscription_ledger \<Rightarrow> (bytes32 \<times> u64) list" where
  "balances epoch l = filter (\<lambda>(c, r). r > 0) (map (\<lambda>(c, q). (c, live_sum epoch q)) (grants l))"

definition available :: "bytes32 \<Rightarrow> u64 \<Rightarrow> subscription_ledger \<Rightarrow> u64" where
  "available c epoch l = (case bt_get (grants l) c of None \<Rightarrow> 0 | Some q \<Rightarrow> live_sum epoch q)"

section \<open>Queues\<close>

definition queue :: "subscription_ledger \<Rightarrow> bytes32 \<Rightarrow> grant list" where
  "queue l c = bt_get_or [] (grants l) c"

definition held :: "grant list \<Rightarrow> nat" where
  "held q = (\<Sum>g\<leftarrow>q. unat (g_remaining g))"

definition live :: "u64 \<Rightarrow> grant list \<Rightarrow> nat" where
  "live epoch q = held (filter (\<lambda>g. expires_at g > epoch) q)"

lemma held_simps [simp]: "held [] = 0" "held (g # q) = unat (g_remaining g) + held q" "held (p @ q) = held p + held q"
  by (simp_all add: held_def)

lemma queue_push [simp]: "queue (push_grant c g l) c' = (if c' = c then queue l c @ [g] else queue l c')"
  by (simp add: queue_def push_grant_def bt_get_or_def)

lemma queue_next [simp]: "queue (l\<lparr>sl_seeding_next := m\<rparr>) c = queue l c"
  by (simp add: queue_def)

lemma queue_expire:
  "queue (sub_expire c epoch l) c' = (if c' = c then dropWhile (\<lambda>g. expires_at g \<le> epoch) (queue l c) else queue l c')"
  by (auto simp: queue_def sub_expire_def bt_get_or_def Let_def eq_commute [of "[]"] split: option.splits)

lemma queue_seed:
  "queue (seed c epoch l) c' = (if c' = c \<and> seeding_due c epoch l
     then queue l c @ [\<lparr>expires_at = sat_add epoch (effective_window l), g_remaining = seeding_paid_tier l\<rparr>]
     else queue l c')"
  by (simp add: seed_def Let_def)

lemma seeding_due_expire [simp]: "seeding_due c epoch (sub_expire c' e l) = seeding_due c epoch l"
  and effective_window_expire [simp]: "effective_window (sub_expire c' e l) = effective_window l"
  and tier_expire [simp]: "seeding_paid_tier (sub_expire c' e l) = seeding_paid_tier l"
  and next_expire [simp]: "sl_seeding_next (sub_expire c' e l) = sl_seeding_next l"
  by (simp_all add: seeding_due_def effective_window_def sub_expire_def Let_def split: option.split)

lemma allocate_queue:
  "allocate c bytes epoch l = (used, l') \<Longrightarrow> draw (queue (seed c epoch (sub_expire c epoch l)) c) bytes 0 = (queue l' c, used)"
  by (auto simp: allocate_def Let_def queue_def bt_get_or_def draw.simps [of "[]"] split: option.splits prod.splits if_splits)

lemma draw_spec:
  assumes "draw q want used = (q', used')" "unat used + unat want < 2 ^ 64"
  shows "unat used' = unat used + min (unat want) (held q) \<and> held q' + unat used' = held q + unat used
    \<and> (\<exists>n. map expires_at q' = drop n (map expires_at q))"
  using assms
proof (induction q want used arbitrary: q' used' rule: draw.induct)
  case (1 q want used)
  show ?case
  proof (cases "want = 0 \<or> q = []")
    case True
    with 1(2) have "q' = q" "used' = used" by (auto simp: draw.simps [of q] split: if_splits)
    then show ?thesis using True by (auto intro: exI [of _ 0])
  next
    case False
    then obtain g p where q: "q = g # p" by (cases q) auto
    define take rest where tr: "take = min (g_remaining g) want" "rest = g_remaining g - take"
    have le: "take \<le> g_remaining g" "take \<le> want" by (simp_all add: tr)
    then have n: "unat rest = unat (g_remaining g) - unat take" "unat (want - take) = unat want - unat take"
      "unat take \<le> unat (g_remaining g)" "unat take \<le> unat want"
      by (simp_all add: tr unat_sub word_le_nat_alt)
    have take: "unat take = min (unat (g_remaining g)) (unat want)" by (simp add: tr min_def word_le_nat_alt)
    have u: "unat (used + take) = unat used + unat take" using 1(3) n(4) by (simp add: unat_word_ariths)
    let ?p = "if rest = 0 then p else g\<lparr>g_remaining := rest\<rparr> # p"
    have d: "draw ?p (want - take) (used + take) = (q', used')" using 1(2) False by (simp add: draw.simps [of "g # p"] q Let_def tr cong: if_cong split del: if_split)
    have "unat (used + take) + unat (want - take) < 2 ^ 64" using 1(3) n u by simp
    from 1(1) [OF _ q tr d this] False have IH: "unat used' = unat (used + take) + min (unat (want - take)) (held ?p)"
      "held q' + unat used' = held ?p + unat (used + take)" "\<exists>n. map expires_at q' = drop n (map expires_at ?p)" by simp_all
    have hp: "held ?p = unat rest + held p" by (cases "rest = 0") simp_all
    have "\<exists>n. map expires_at q' = drop n (map expires_at q)"
    proof (cases "rest = 0")
      case True
      with IH(3) obtain n where "map expires_at q' = drop n (map expires_at p)" by auto
      then show ?thesis by (intro exI [of _ "Suc n"]) (simp add: q)
    qed (use IH(3) q in simp)
    then show ?thesis using IH(1,2) hp n u take by (auto simp: q min_def split: if_splits)
  qed
qed

lemma dropWhile_expired:
  "sorted (map expires_at q) \<Longrightarrow> dropWhile (\<lambda>g. expires_at g \<le> epoch) q = filter (\<lambda>g. expires_at g > epoch) q"
proof (induction q)
  case (Cons g q)
  show ?case
  proof (cases "expires_at g \<le> epoch")
    case False
    then have "\<forall>h \<in> set (g # q). expires_at h > epoch" using Cons.prems by (auto simp: not_le dest: less_le_trans)
    then have "filter (\<lambda>g. expires_at g > epoch) (g # q) = g # q" by (simp only: filter_id_conv)
    with False show ?thesis by simp
  qed (use Cons in \<open>simp add: not_less\<close>)
qed simp

lemma allocate_other: "allocate c bytes epoch l = (used, l') \<Longrightarrow> c' \<noteq> c \<Longrightarrow> queue l' c' = queue l c'"
proof -
  assume a: "allocate c bytes epoch l = (used, l')" "c' \<noteq> c"
  let ?l = "seed c epoch (sub_expire c epoch l)"
  have "queue l' c' = queue ?l c'"
    using a by (auto simp: allocate_def Let_def queue_def bt_get_or_def split: option.splits prod.splits if_splits)
  then show ?thesis using a(2) by (simp add: queue_seed queue_expire)
qed

definition seed_bytes :: "bytes32 \<Rightarrow> u64 \<Rightarrow> subscription_ledger \<Rightarrow> nat" where
  "seed_bytes c epoch l = (if seeding_due c epoch l then unat (seeding_paid_tier l) else 0)"

lemma live_unexpired: "\<forall>g \<in> set q. expires_at g > epoch \<Longrightarrow> live epoch q = held q"
  by (simp add: live_def)

lemma sat_add_zero: "sat_add 0 a = a"
  by (simp add: sat_add_def)

section \<open>Properties\<close>

text \<open>(C21) Allocation is exact and first-in first-out. With the grants of a consumer in order of expiry,
  \<open>allocate\<close> returns the request or the unexpired entitlement, seeding allowance included, whichever is
  smaller; exactly that much entitlement disappears, expired bytes are never spent, the queue stays
  in order of expiry when the allowance outlives it, and no other consumer is touched.\<close>

theorem allocate_exact:
  assumes "sorted (map expires_at (queue l c))" "epoch < - 1" "allocate c bytes epoch l = (used, l')"
  shows "unat used = min (unat bytes) (live epoch (queue l c) + seed_bytes c epoch l)
    \<and> live epoch (queue l' c) + unat used = live epoch (queue l c) + seed_bytes c epoch l
    \<and> ((\<forall>g \<in> set (queue l c). expires_at g \<le> sat_add epoch (effective_window l)) \<longrightarrow> sorted (map expires_at (queue l' c)))
    \<and> (\<forall>c'. c' \<noteq> c \<longrightarrow> queue l' c' = queue l c')"
proof -
  let ?q = "queue (seed c epoch (sub_expire c epoch l)) c" and ?live = "filter (\<lambda>g. expires_at g > epoch) (queue l c)"
  let ?till = "sat_add epoch (effective_window l)"
  have "0 < unat (effective_window l)" by (simp add: effective_window_def unat_gt_0)
  moreover have "unat epoch < 2 ^ 64 - 1"
    using assms(2) unat_max_word [where 'a = 64] by (simp only: word_less_nat_alt) simp
  ultimately have till: "epoch < ?till" by (simp add: word_less_nat_alt unat_sat_add)
  have q: "?q = ?live @ (if seeding_due c epoch l then [\<lparr>expires_at = ?till, g_remaining = seeding_paid_tier l\<rparr>] else [])"
    by (simp add: queue_seed queue_expire dropWhile_expired [OF assms(1)])
  have d: "draw ?q bytes 0 = (queue l' c, used)" using assms(3) by (rule allocate_queue)
  have fits: "unat (0 :: u64) + unat bytes < 2 ^ 64" using unat_lt [of bytes] by (simp del: unsigned_less)
  note spec = draw_spec [OF d fits]
  have held: "held ?q = live epoch (queue l c) + seed_bytes c epoch l" by (simp add: q live_def seed_bytes_def)
  from spec obtain n where n: "map expires_at (queue l' c) = drop n (map expires_at ?q)" by blast
  have "\<forall>e \<in> set (map expires_at ?q). e > epoch" using till by (simp add: q ball_Un)
  then have "\<forall>e \<in> set (map expires_at (queue l' c)). e > epoch" unfolding n by (meson in_set_dropD)
  then have live': "live epoch (queue l' c) = held (queue l' c)" by (intro live_unexpired) simp
  have "sorted (map expires_at (queue l' c))" if "\<forall>g \<in> set (queue l c). expires_at g \<le> ?till"
  proof -
    have "sorted (map expires_at ?live)" using assms(1) by (rule sorted_filter)
    then have "sorted (map expires_at ?q)" using that by (simp add: q sorted_append)
    then show ?thesis unfolding n by (rule sorted_wrt_drop)
  qed
  then show ?thesis using spec held live' allocate_other [OF assms(3)] by auto
qed

text \<open>A purchase is worth its price. If the bytes bought fit 64 bits, a payment adds exactly the
  floor of tokens times price over the base units of a token, until the window ends, and nothing else
  changes.\<close>

theorem purchase_worth:
  assumes "unat tokens * unat price div 100000000 < 2 ^ 64" "epoch < sat_add e window"
  shows "live epoch (queue (purchase c tokens price e window l) c) = live epoch (queue l c) + unat tokens * unat price div 100000000
    \<and> (\<forall>c'. c' \<noteq> c \<longrightarrow> queue (purchase c tokens price e window l) c' = queue l c')"
proof -
  have up: "unat (ucast x :: u128) = unat x" for x :: u64 by (rule unat_ucast_up) simp
  have lt: "unat tokens < 2 ^ 64" "unat price < 2 ^ 64" using unat_lt [of tokens] unat_lt [of price] by (simp_all del: unsigned_less)
  have "unat tokens * unat price \<le> (2 ^ 64 - 1) * (2 ^ 64 - 1)" by (intro mult_le_mono) (use lt in simp_all)
  then have "unat (sat_mul (ucast tokens :: u128) (ucast price)) = unat tokens * unat price"
    by (simp add: unat_sat_mul up)
  then have b: "unat (purchased_bytes tokens price) = unat tokens * unat price div 100000000"
    unfolding purchased_bytes_def using assms(1)
    by (subst unat_ucast_down) (simp_all add: unat_div up SUB_ONE_TOKEN_def)
  show ?thesis
  proof (cases "purchased_bytes tokens price = 0")
    case True
    then have "unat tokens * unat price div 100000000 = 0" using b by simp
    then show ?thesis using True by (simp add: purchase_def)
  qed (use b assms(2) in \<open>simp add: purchase_def Let_def live_def\<close>)
qed

section \<open>Runs\<close>

datatype sub_op = Buy bytes32 u64 u64 u64 u64 | Draw bytes32 u64 u64

fun drawn :: "bytes32 \<Rightarrow> sub_op list \<Rightarrow> subscription_ledger \<Rightarrow> nat" where
  "drawn c [] l = 0"
| "drawn c (Buy c' t p e w # ops) l = drawn c ops (purchase c' t p e w l)"
| "drawn c (Draw c' b e # ops) l = (case allocate c' b e l of (u, l') \<Rightarrow> (if c' = c then unat u else 0) + drawn c ops l')"

fun bought :: "bytes32 \<Rightarrow> sub_op list \<Rightarrow> nat" where
  "bought c [] = 0"
| "bought c (Buy c' t p e w # ops) = (if c' = c then unat (purchased_bytes t p) else 0) + bought c ops"
| "bought c (Draw c' b e # ops) = bought c ops"

definition next_seeding :: "subscription_ledger \<Rightarrow> bytes32 \<Rightarrow> nat" where
  "next_seeding l c = unat (bt_get_or 0 (sl_seeding_next l) c)"

lemma purchase_simps [simp]:
  "seeding_paid_tier (purchase c t p e w l) = seeding_paid_tier l" "effective_window (purchase c t p e w l) = effective_window l"
  "next_seeding (purchase c t p e w l) c' = next_seeding l c'"
  "held (queue (purchase c t p e w l) c') = held (queue l c') + (if c = c' then unat (purchased_bytes t p) else 0)"
  by (simp_all add: purchase_def push_grant_def Let_def effective_window_def next_seeding_def queue_def bt_get_or_def)

lemma allocate_next:
  assumes "allocate c b e l = (u, l')"
  shows "seeding_paid_tier l' = seeding_paid_tier l" "effective_window l' = effective_window l"
    "next_seeding l' c' = (if c' = c \<and> seeding_due c e l then unat (sat_add e (effective_window l)) else next_seeding l c')"
proof -
  let ?l = "seed c e (sub_expire c e l)"
  have "seeding_paid_tier l' = seeding_paid_tier ?l" "effective_window l' = effective_window ?l" "sl_seeding_next l' = sl_seeding_next ?l"
    using assms by (auto simp: allocate_def Let_def effective_window_def split: option.splits prod.splits)
  moreover have "seeding_paid_tier ?l = seeding_paid_tier l" "effective_window ?l = effective_window l"
    "sl_seeding_next ?l = (if seeding_due c e l then bt_insert c (sat_add e (effective_window l)) (sl_seeding_next l) else sl_seeding_next l)"
    by (simp_all add: seed_def Let_def push_grant_def effective_window_def) (simp_all add: sub_expire_def Let_def split: option.split)
  ultimately show "seeding_paid_tier l' = seeding_paid_tier l" "effective_window l' = effective_window l"
    "next_seeding l' c' = (if c' = c \<and> seeding_due c e l then unat (sat_add e (effective_window l)) else next_seeding l c')"
    by (simp_all add: next_seeding_def bt_get_or_def)
qed

lemma held_dropWhile: "held (dropWhile P q) \<le> held q"
  by (induction q) simp_all

lemma allocate_held:
  assumes "allocate c b e l = (u, l')"
  shows "held (queue l' c) + unat u \<le> held (queue l c) + seed_bytes c e l"
proof -
  have fits: "unat (0 :: u64) + unat b < 2 ^ 64" using unat_lt [of b] by (simp del: unsigned_less)
  from draw_spec [OF allocate_queue [OF assms] fits]
  have "held (queue l' c) + unat u = held (queue (seed c e (sub_expire c e l)) c)" by simp
  also have "\<dots> \<le> held (queue l c) + seed_bytes c e l"
    using held_dropWhile [of _ "queue l c"] by (simp add: queue_seed queue_expire seed_bytes_def)
  finally show ?thesis .
qed

lemma drawn_bound:
  assumes "\<forall>b e. Draw c b e \<in> set ops \<longrightarrow> e0 \<le> unat e \<and> unat e < e0 + unat (effective_window l)"
    and "e0 + unat (effective_window l) < 2 ^ 64"
  shows "drawn c ops l \<le> held (queue l c) + bought c ops
    + (if next_seeding l c < e0 + unat (effective_window l) then unat (seeding_paid_tier l) else 0)"
  using assms
proof (induction c ops l rule: drawn.induct)
  case (3 c c' b e ops l)
  obtain u l' where a: "allocate c' b e l = (u, l')" by (cases "allocate c' b e l")
  note n = allocate_next [OF a]
  have IH: "drawn c ops l' \<le> held (queue l' c) + bought c ops
    + (if next_seeding l' c < e0 + unat (effective_window l) then unat (seeding_paid_tier l) else 0)"
  proof -
    have "\<forall>b e. Draw c b e \<in> set ops \<longrightarrow> e0 \<le> unat e \<and> unat e < e0 + unat (effective_window l')"
      using 3(2) n(2) by simp
    from 3(1) [OF a [symmetric] this] show ?thesis using 3(3) unfolding n(1,2) by blast
  qed
  show ?case
  proof (cases "c' = c")
    case False
    then show ?thesis using IH a n(3) [of c] allocate_other [OF a, of c] by simp
  next
    case True
    have e: "e0 \<le> unat e" "unat e < e0 + unat (effective_window l)" using 3(2) True by simp_all
    have till: "e0 + unat (effective_window l) \<le> unat (sat_add e (effective_window l))"
      using e 3(3) by (simp add: unat_sat_add)
    have h: "held (queue l' c) + unat u \<le> held (queue l c) + seed_bytes c e l" using allocate_held a True by simp
    have due: "seeding_due c e l \<Longrightarrow> next_seeding l c \<le> unat e"
      by (simp add: seeding_due_def next_seeding_def word_le_nat_alt)
    show ?thesis
    proof (cases "seeding_due c e l")
      case True
      then show ?thesis using IH h due e till n(3) [of c] a \<open>c' = c\<close> by (simp add: seed_bytes_def split: if_splits)
    next
      case False
      then show ?thesis using IH h n(3) [of c] a \<open>c' = c\<close> by (simp add: seed_bytes_def split: if_splits)
    qed
  qed
qed (simp_all split: if_splits)

text \<open>Self-dealing is bounded. However purchases and allocations interleave, what one consumer's
  serving can be rewarded for within one window is at most what it held, what it bought, and one
  seeding allowance; exhausting the allowance early does not bring the next one.\<close>

theorem one_allowance_per_window:
  assumes "\<forall>b e. Draw c b e \<in> set ops \<longrightarrow> e0 \<le> unat e \<and> unat e < e0 + unat (effective_window l)"
    and "e0 + unat (effective_window l) < 2 ^ 64"
  shows "drawn c ops l \<le> held (queue l c) + bought c ops + unat (seeding_paid_tier l)"
  using drawn_bound [of c ops e0 l] assms by (simp split: if_splits)

text \<open>Out of order, expired entitlement is still spent. \<open>expire\<close> drops a prefix of the queue, so
  once the window has been shortened a dead grant behind a live one stays, and \<open>allocate\<close> hands its
  bytes out after its end although \<open>available\<close> no longer counts them.\<close>

theorem expired_grant_spent:
  assumes "queue l c = [g, h]" "expires_at h \<le> epoch" "epoch < expires_at g" "seeding_paid_tier l = 0"
    and "allocate c bytes epoch l = (used, l')" "unat (g_remaining g) < unat bytes" "g_remaining h > 0"
  shows "available c epoch l = g_remaining g \<and> used > available c epoch l"
proof
  have q: "bt_get (grants l) c = Some [g, h]"
    using assms(1) by (auto simp: queue_def bt_get_or_def split: option.splits)
  then show av: "available c epoch l = g_remaining g"
    using assms(2,3) by (simp add: available_def live_sum_def sat_add_zero not_less [symmetric])
  have "queue (seed c epoch (sub_expire c epoch l)) c = [g, h]"
    using assms(1,3,4) by (simp add: queue_seed queue_expire seeding_due_def not_le)
  then have d: "draw [g, h] bytes 0 = (queue l' c, used)" using allocate_queue [OF assms(5)] by simp
  have fits: "unat (0 :: u64) + unat bytes < 2 ^ 64" using unat_lt [of bytes] by (simp del: unsigned_less)
  have "unat used = min (unat bytes) (unat (g_remaining g) + unat (g_remaining h))"
    using draw_spec [OF d fits] by simp
  moreover have "0 < unat (g_remaining h)" using assms(7) by (simp add: word_less_nat_alt)
  ultimately have "unat used > unat (g_remaining g)" using assms(6) by simp
  then show "used > available c epoch l" by (simp add: av word_less_nat_alt)
qed

section \<open>Witnesses\<close>

definition wit_ledger :: subscription_ledger where
  "wit_ledger = \<lparr>grants = [(1, [\<lparr>expires_at = 9, g_remaining = 50\<rparr>])], seeding_paid_tier = 10, seeding_window = 4, sl_seeding_next = []\<rparr>"

definition wit_stale :: subscription_ledger where
  "wit_stale = \<lparr>grants = [(1, [\<lparr>expires_at = 100, g_remaining = 5\<rparr>, \<lparr>expires_at = 6, g_remaining = 7\<rparr>])],
     seeding_paid_tier = 0, seeding_window = 0, sl_seeding_next = []\<rparr>"

lemma wit_queue: "queue wit_ledger 1 = [\<lparr>expires_at = 9, g_remaining = 50\<rparr>]"
  "queue wit_stale 1 = [\<lparr>expires_at = 100, g_remaining = 5\<rparr>, \<lparr>expires_at = 6, g_remaining = 7\<rparr>]"
  by (simp_all add: queue_def bt_get_or_def wit_ledger_def wit_stale_def)

lemma wit_seeding: "seeding_due 1 3 wit_ledger" "effective_window wit_ledger = 4" "seed_bytes 1 3 wit_ledger = 10"
  by (simp_all add: seeding_due_def effective_window_def seed_bytes_def bt_get_or_def wit_ledger_def)

theorem allocate_exact_witness:
  "unat (fst (allocate 1 100 3 wit_ledger)) = 60 \<and> queue (snd (allocate 1 100 3 wit_ledger)) 2 = []"
  using allocate_exact [of wit_ledger 1 3 100 "fst (allocate 1 100 3 wit_ledger)" "snd (allocate 1 100 3 wit_ledger)"]
  by (simp add: wit_queue wit_seeding live_def) (simp add: queue_def bt_get_or_def wit_ledger_def)

theorem purchase_worth_witness:
  "live 4 (queue (purchase 1 300000000 7 2 10 wit_ledger) 1) = 71"
  using purchase_worth [of 300000000 7 4 2 10 1 wit_ledger] by (simp add: wit_queue live_def sat_add_def)

theorem one_allowance_per_window_witness:
  "drawn 1 [Draw 1 1000 3, Buy 1 300000000 7 4 10, Draw 1 1000 5] wit_ledger \<le> 81"
  using one_allowance_per_window [of 1 "[Draw 1 1000 3, Buy 1 300000000 7 4 10, Draw 1 1000 5]" 3 wit_ledger]
  by (simp add: wit_queue wit_seeding purchased_bytes_def sat_mul_def SUB_ONE_TOKEN_def unat_div) (simp add: wit_ledger_def)

theorem expired_grant_spent_witness:
  "available 1 50 wit_stale = 5 \<and> fst (allocate 1 100 50 wit_stale) > 5"
proof -
  have "seeding_paid_tier wit_stale = 0" by (simp add: wit_stale_def)
  with expired_grant_spent [of wit_stale 1 "\<lparr>expires_at = 100, g_remaining = 5\<rparr>" "\<lparr>expires_at = 6, g_remaining = 7\<rparr>" 50 100
      "fst (allocate 1 100 50 wit_stale)" "snd (allocate 1 100 50 wit_stale)"]
  have "available 1 50 wit_stale = 5 \<and> fst (allocate 1 100 50 wit_stale) > available 1 50 wit_stale" by (fastforce simp: wit_queue)
  then show ?thesis by metis
qed

end
