(* ===== verification/Epoch_Committee.thy ===== *)
theory Epoch_Committee
  imports Quorum
begin

text \<open>
  The epoch (\<open>src/crates/noded/src/epoch.rs\<close>), the rotating committee computed from the census
  (\<open>src/crates/noded/src/epoch_committee.rs\<close>) and the routing of a program to its quorum
  (\<open>src/crates/noded/src/quorum_source.rs\<close>). The content hash is the parameter \<open>cid_of\<close>; the census is
  an argument.
\<close>

section \<open>The model\<close>

definition EPOCH_MILLIS :: u64 where "EPOCH_MILLIS = 300000"

definition epoch_at :: "u64 \<Rightarrow> u64" where
  "epoch_at now_millis = now_millis div EPOCH_MILLIS"

text \<open>A \<open>Duration\<close> is its number of milliseconds, a \<open>u128\<close>.\<close>

definition epochs_in :: "u128 \<Rightarrow> u64" where
  "epochs_in d = (let ms = ucast d; n = ms div EPOCH_MILLIS + (if ms mod EPOCH_MILLIS = 0 then 0 else 1) in
     if n = 0 then 1 else n)"

definition N_DEFAULT :: nat where "N_DEFAULT = 4"

definition K_DEFAULT :: nat where "K_DEFAULT = 3"

definition COMMITTEE_TAG :: bytes where "COMMITTEE_TAG = ascii ''craftec/epoch-committee/1''"

definition eligible :: "bytes32 \<Rightarrow> bytes32 list option \<Rightarrow> bytes32 list" where
  "eligible self_id census = self_id # (case census of None \<Rightarrow> [] | Some ns \<Rightarrow> filter (\<lambda>n. n \<noteq> self_id) ns)"

definition rendezvous_key :: "(bytes \<Rightarrow> bytes32) \<Rightarrow> bytes32 \<Rightarrow> u64 \<Rightarrow> bytes32 \<Rightarrow> bytes32" where
  "rendezvous_key cid_of program_cid epoch i =
     cid_of (COMMITTEE_TAG @ be_bytes 32 program_cid @ le_bytes 8 epoch @ be_bytes 32 i)"

definition committee_for :: "(bytes \<Rightarrow> bytes32) \<Rightarrow> bytes32 \<Rightarrow> u64 \<Rightarrow> bytes32 list \<Rightarrow> quorum option" where
  "committee_for cid_of program_cid epoch el = (if el = [] then None else
     let ids = sort_key (rendezvous_key cid_of program_cid epoch) el;
         n = max (min N_DEFAULT (length ids)) 1;
         k = max (min K_DEFAULT n) (n div 2 + 1) in
     Some (genesis (take n ids) k))"

definition committee_quorum_for :: "(bytes \<Rightarrow> bytes32) \<Rightarrow> bytes32 \<Rightarrow> bytes32 list option \<Rightarrow> u64 \<Rightarrow> bytes32 \<Rightarrow> quorum option" where
  "committee_quorum_for cid_of self_id census now_millis program_cid =
     committee_for cid_of program_cid (now_millis div EPOCH_MILLIS) (eligible self_id census)"

definition routed_quorum_for :: "(bytes32 \<Rightarrow> bytes32) \<Rightarrow> (bytes32 \<Rightarrow> bytes32 \<Rightarrow> quorum option) \<Rightarrow> (bytes32 \<Rightarrow> quorum option)
    \<Rightarrow> bytes32 \<Rightarrow> bytes32 \<Rightarrow> quorum option" where
  "routed_quorum_for anchor_owner declared committee ow program_cid =
     (if ow = anchor_owner program_cid then committee program_cid else declared ow program_cid)"

section \<open>Properties\<close>

lemma genesis_fields:
  assumes "distinct ms" "ms \<noteq> []" "1 \<le> t" "t \<le> length ms"
  shows "set (members (genesis ms t)) = set ms" "length (members (genesis ms t)) = length ms"
    "threshold (genesis ms t) = t"
proof -
  have d: "distinct (sort ms)" using assms(1) by simp
  then have m: "members (genesis ms t) = sort ms" by (simp add: genesis_def Let_def remdups_adj_distinct)
  show "set (members (genesis ms t)) = set ms" "length (members (genesis ms t)) = length ms" by (simp_all add: m)
  show "threshold (genesis ms t) = t" using assms d
    by (simp add: genesis_def Let_def remdups_adj_distinct clamp_def)
qed

lemma committee_threshold:
  assumes "1 \<le> (m :: nat)"
  shows "1 \<le> max (min 3 m) (m div 2 + 1)" "max (min 3 m) (m div 2 + 1) \<le> m" "m < 2 * max (min 3 m) (m div 2 + 1)"
proof -
  have "m div 2 + 1 \<le> m" "m < 2 * (m div 2 + 1)" using assms by presburger+
  moreover have "2 * (m div 2 + 1) \<le> 2 * max (min 3 m) (m div 2 + 1)" by (intro mult_le_mono2 max.cobounded2)
  ultimately show "max (min 3 m) (m div 2 + 1) \<le> m" "m < 2 * max (min 3 m) (m div 2 + 1)" by (simp, linarith)
qed simp

text \<open>Every committee intersects itself. From any census the computed quorum is well formed, drawn
  from the eligible nodes, has four members or all of them if fewer, and a threshold above half, so
  that it is large enough for the sequencer; an epoch without a node has no committee.\<close>

theorem committee_intersecting:
  assumes "distinct el"
  shows "case committee_for cid_of program_cid epoch el of
      None \<Rightarrow> el = []
    | Some q \<Rightarrow> quorum_wf q \<and> is_intersection_sized q \<and> set (members q) \<subseteq> set el
        \<and> length (members q) = min 4 (length el) \<and> q_seq q = 0"
proof (cases "el = []")
  case False
  let ?ids = "sort_key (rendezvous_key cid_of program_cid epoch) el"
  let ?n = "min 4 (length el)" and ?k = "max (min 3 (min 4 (length el))) (min 4 (length el) div 2 + 1)"
  have n: "1 \<le> ?n" using False by (cases el) simp_all
  note k = committee_threshold [OF n]
  have c: "committee_for cid_of program_cid epoch el = Some (genesis (take ?n ?ids) ?k)"
    using False unfolding committee_for_def Let_def N_DEFAULT_def K_DEFAULT_def length_sort max_absorb1 [OF n] by simp
  have d: "distinct (take ?n ?ids)" "length (take ?n ?ids) = ?n" using assms by simp_all
  have ne: "take ?n ?ids \<noteq> []"
  proof
    assume "take ?n ?ids = []"
    then have "length (take ?n ?ids) = 0" by (simp only: list.size)
    then show False using n unfolding d(2) by simp
  qed
  have le: "?k \<le> length (take ?n ?ids)" unfolding d(2) by (rule k(2))
  note g = genesis_fields [OF d(1) ne k(1) le, unfolded d(2)]
  have "set (take ?n ?ids) \<subseteq> set el" using set_take_subset [of ?n ?ids] by simp
  then have "set (members (genesis (take ?n ?ids) ?k)) \<subseteq> set el" unfolding g(1) .
  moreover have "is_intersection_sized (genesis (take ?n ?ids) ?k)"
    unfolding is_intersection_sized_def g(2,3) by (rule k(3))
  moreover have "q_seq (genesis ms t) = 0" for ms t by (simp add: genesis_def Let_def)
  ultimately show ?thesis unfolding c option.case g(2) using genesis_wf by blast
qed (simp add: committee_for_def)

text \<open>Nodes with one census compute one committee, in whatever order they list it, provided the
  content hash tells the listed nodes apart.\<close>

theorem committee_deterministic:
  assumes "mset el = mset el'" "inj_on (rendezvous_key cid_of program_cid epoch) (set el)"
  shows "committee_for cid_of program_cid epoch el = committee_for cid_of program_cid epoch el'"
proof -
  let ?f = "rendezvous_key cid_of program_cid epoch"
  have "sort_key ?f el = sort_key ?f el'"
  proof (rule properties_for_sort_key)
    show "mset (sort_key ?f el') = mset el" using assms(1) by simp
    show "sorted (map ?f (sort_key ?f el'))" by simp
    fix k assume k: "k \<in> set (sort_key ?f el')"
    have "set el = set el'" using assms(1) by (rule mset_eq_setD)
    with k have "k \<in> set el" by simp
    have one: "filter (\<lambda>x. ?f x = ?f k) xs = replicate (count (mset xs) k) k" if "set xs \<subseteq> set el" for xs
      using that assms(2) \<open>k \<in> set el\<close> by (induction xs) (auto dest: inj_onD)
    have "count (mset (sort_key ?f el')) k = count (mset el) k" using assms(1) by simp
    then show "filter (\<lambda>y. ?f k = ?f y) (sort_key ?f el') = filter (\<lambda>x. ?f k = ?f x) el"
      using one [of "sort_key ?f el'"] one [of el] \<open>set el = set el'\<close> by (simp add: eq_commute [of "?f k"])
  qed
  moreover have "el = [] \<longleftrightarrow> el' = []" using assms(1) by auto
  ultimately show ?thesis by (simp add: committee_for_def)
qed

lemma floor_cover: "x div 300000 * 300000 \<le> x \<and> x < (x div 300000 + 1) * 300000" for x :: nat
  using dividend_less_div_times [of 300000 x] by (simp add: add.commute)

lemma ceil_cover:
  fixes x :: nat
  defines "n \<equiv> (if x = 0 then 1 else x div 300000 + (if x mod 300000 = 0 then 0 else 1))"
  shows "1 \<le> n \<and> x \<le> n * 300000 \<and> (n = 1 \<or> (n - 1) * 300000 < x)"
proof -
  obtain q r where x: "x = q * 300000 + r" "r < 300000"
    using div_mult_mod_eq [of x 300000] by (metis mod_less_divisor zero_less_numeral)
  then have "x div 300000 = q" "x mod 300000 = r" by simp_all
  then show ?thesis using x by (cases "q = 0"; cases "r = 0") (simp_all add: n_def)
qed

text \<open>A window never ends early. A duration of at most \<open>2 ^ 64\<close> milliseconds is given at least one
  epoch and the least number of epochs that cover it; an instant lies in its own epoch.\<close>

theorem epochs_in_covers:
  assumes "unat d < 2 ^ 64"
  shows "1 \<le> unat (epochs_in d) \<and> unat d \<le> unat (epochs_in d) * 300000
    \<and> (unat (epochs_in d) = 1 \<or> (unat (epochs_in d) - 1) * 300000 < unat d)
    \<and> unat (epoch_at now) * 300000 \<le> unat now \<and> unat now < (unat (epoch_at now) + 1) * 300000"
proof -
  let ?ms = "ucast d :: u64" and ?x = "if (ucast d :: u64) mod 300000 = 0 then 0 else (1 :: u64)"
  have ms: "unat ?ms = unat d" using assms by (simp add: unat_ucast_down)
  have mod: "?ms mod 300000 = 0 \<longleftrightarrow> unat d mod 300000 = 0"
    by (simp add: word_unat_eq_iff unat_mod ms)
  have "unat d div 300000 \<le> (2 ^ 64 - 1) div 300000" using assms by (intro div_le_mono) simp
  then have n: "unat (?ms div 300000 + ?x) = unat d div 300000 + (if unat d mod 300000 = 0 then 0 else 1)"
    by (simp add: unat_word_ariths unat_div ms mod)
  have e: "unat (epochs_in d) = (if unat d = 0 then 1 else unat d div 300000 + (if unat d mod 300000 = 0 then 0 else 1))"
  proof (cases "?ms div 300000 + ?x = 0")
    case True
    then have "unat d div 300000 = 0 \<and> unat d mod 300000 = 0" using n by (simp split: if_splits)
    then have "unat d = 0" by (metis div_mult_mod_eq add_0 mult_0)
    then show ?thesis using True by (simp add: epochs_in_def Let_def EPOCH_MILLIS_def)
  next
    case False
    then have "unat (?ms div 300000 + ?x) \<noteq> 0" by (subst unat_eq_zero)
    then have "unat d \<noteq> 0" unfolding n by (rule contrapos_nn) simp
    then show ?thesis using False n by (simp add: epochs_in_def Let_def EPOCH_MILLIS_def)
  qed
  have "unat (epoch_at now) = unat now div 300000" by (simp add: epoch_at_def EPOCH_MILLIS_def unat_div)
  then show ?thesis unfolding e using ceil_cover [of "unat d"] floor_cover [of "unat now"] by simp
qed

section \<open>Witnesses\<close>

definition wit_cid :: "bytes \<Rightarrow> bytes32" where
  "wit_cid b = fold (\<lambda>x acc. acc * 256 + ucast x) (drop (length b - 32) b) 0"

theorem committee_intersecting_witness:
  "case committee_for wit_cid 7 3 [5, 4, 3, 2, 1] of None \<Rightarrow> False | Some q \<Rightarrow> length (members q) = 4 \<and> is_intersection_sized q"
  using committee_intersecting [of "[5, 4, 3, 2, 1]" wit_cid 7 3] by (simp split: option.splits)

lemma wit_key: "rendezvous_key (\<lambda>b. ucast (last b)) p e i = ucast (ucast i :: u8)"
  by (simp add: rendezvous_key_def be_bytes_def last_map)

theorem committee_deterministic_witness:
  "committee_for (\<lambda>b. ucast (last b)) 7 3 [2, 1] = committee_for (\<lambda>b. ucast (last b)) 7 3 [1, 2]"
proof (rule committee_deterministic)
  show "inj_on (rendezvous_key (\<lambda>b. ucast (last b)) 7 3) (set [2, 1])"
    by (simp add: wit_key)
qed simp

theorem epochs_in_covers_witness:
  "unat (epochs_in 300001) = 2 \<and> unat (epoch_at 900000) * 300000 \<le> 900000"
  using epochs_in_covers [of 300001 900000] by simp linarith

end
