(* ===== verification/Settlement.thy ===== *)
theory Settlement
  imports Token Reward Subscription Epoch_Committee
begin

text \<open>
  The epoch close, \<open>src/crates/noded/src/settlement.rs\<close>: the store that folds payments and cheques
  into an epoch record, keeps the shares owed, and lets providers claim them. It composes the token's
  protocol state, the subscription ledger and the reward valuation. A counter that overflows panics,
  so the epoch close returns an option.
\<close>

section \<open>The model\<close>

definition CLAIM_WINDOW_EPOCHS :: u64 where "CLAIM_WINDOW_EPOCHS = 8"

type_synonym pair_marks = "(bytes32 \<times> bytes32, u64) btree"

record settlement_store =
  protocol :: protocol_state
  records :: "(u64, reward_record) btree"
  claimed :: "(u64 \<times> bytes32, unit) btree"
  paid_watermark :: "(bytes32, u64) btree"
  served_pair_wm :: pair_marks
  subs :: subscription_ledger
  bytes_per_token :: u64
  window_epochs :: u64
  rewardable :: "(bytes32, u64) btree"
  pending_payouts :: u64
  pending_paid :: u64
  pending_paid_marks :: "(bytes32, u64) btree"
  pending_served_marks :: pair_marks
  committed :: economic_snapshot
  issuance_tokens_per_day :: u64

definition settle_epochs_per_day :: u64 where
  "settle_epochs_per_day = max (epochs_in (24 * 3600 * 1000)) 1"

definition snapshot_default :: economic_snapshot where
  "snapshot_default = \<lparr>es_pool = 0, es_minted = 0, paid_watermarks = [], served_watermarks = [], seeding_next = [], es_claimed = []\<rparr>"

definition settlement_new :: settlement_store where
  "settlement_new = \<lparr>protocol = \<lparr>ps_supply = supply_new 0 DEFAULT_ISSUANCE_TOTAL_CAP, pool = 0\<rparr>,
     records = [], claimed = [], paid_watermark = [], served_pair_wm = [], subs = sub_new,
     bytes_per_token = DEFAULT_BYTES_PER_TOKEN, window_epochs = epochs_in (ucast DEFAULT_WINDOW_SECS * 1000),
     rewardable = [], pending_payouts = 0, pending_paid = 0, pending_paid_marks = [], pending_served_marks = [],
     committed = snapshot_default, issuance_tokens_per_day = DEFAULT_ISSUANCE_TOKENS_PER_DAY\<rparr>"

definition set_bytes_per_token :: "u64 \<Rightarrow> settlement_store \<Rightarrow> settlement_store" where
  "set_bytes_per_token b st = st\<lparr>bytes_per_token := b\<rparr>"

definition set_window :: "u128 \<Rightarrow> settlement_store \<Rightarrow> settlement_store" where
  "set_window d st = st\<lparr>window_epochs := epochs_in d\<rparr>"

definition entitlement_of :: "bytes32 \<Rightarrow> u64 \<Rightarrow> settlement_store \<Rightarrow> u64" where
  "entitlement_of c epoch st = available c epoch (subs st)"

definition merge_marks :: "('k::linorder \<times> u64) list \<Rightarrow> ('k, u64) btree \<Rightarrow> ('k, u64) btree" where
  "merge_marks rows m = fold (\<lambda>(k, n) m. bt_insert k (max (bt_get_or 0 m k) n) m) rows m"

definition snapshot :: "settlement_store \<Rightarrow> economic_snapshot" where
  "snapshot st = \<lparr>es_pool = pool (protocol st), es_minted = total_supply (ps_supply (protocol st)),
     paid_watermarks = paid_watermark st, served_watermarks = served_pair_wm st,
     seeding_next = seeding_eligibility (subs st), es_claimed = map fst (claimed st)\<rparr>"

definition restore :: "economic_snapshot \<Rightarrow> settlement_store \<Rightarrow> settlement_store" where
  "restore snap st = st\<lparr>
     protocol := \<lparr>ps_supply = supply_new (max (total_supply (ps_supply (protocol st))) (es_minted snap))
                    (sup_cap (ps_supply (protocol st))), pool = es_pool snap\<rparr>,
     paid_watermark := bt_of_list (paid_watermarks snap),
     served_pair_wm := bt_of_list (served_watermarks snap),
     subs := restore_seeding_eligibility (seeding_next snap) (subs st),
     claimed := bt_of_list (map (\<lambda>x. (x, ())) (es_claimed snap))\<rparr>"

definition adopt_canonical :: "reward_record \<Rightarrow> settlement_store \<Rightarrow> settlement_store" where
  "adopt_canonical r st =
     (let p = set_pool (committed_pool r) (protocol st);
          st = st\<lparr>protocol := p\<lparr>ps_supply := observe_minted (cumulative_issued r) (ps_supply p)\<rparr>\<rparr> in
      case checkpoint r of
        Some full \<Rightarrow> let st = restore full st in
          st\<lparr>committed := full, records := bt_insert (r_epoch r) r (records st)\<rparr>
      | None \<Rightarrow> let st = st\<lparr>paid_watermark := merge_marks (paid_marks r) (paid_watermark st),
                       served_pair_wm := merge_marks (r_served_marks r) (served_pair_wm st)\<rparr> in
          st\<lparr>committed := snapshot st, records := bt_insert (r_epoch r) r (records st)\<rparr>)"

definition st_set_seeding_paid_tier :: "u64 \<Rightarrow> settlement_store \<Rightarrow> settlement_store" where
  "st_set_seeding_paid_tier b st = st\<lparr>subs := set_seeding_paid_tier b (window_epochs st) (subs st)\<rparr>"

definition set_issuance :: "u64 \<Rightarrow> u64 \<Rightarrow> settlement_store \<Rightarrow> settlement_store" where
  "set_issuance per_day cap st = st\<lparr>issuance_tokens_per_day := per_day,
     protocol := (protocol st)\<lparr>ps_supply := set_cap cap (ps_supply (protocol st))\<rparr>\<rparr>"

definition pay_in :: "u64 \<Rightarrow> settlement_store \<Rightarrow> settlement_store" where
  "pay_in amt st = st\<lparr>pending_paid := sat_add (pending_paid st) amt\<rparr>"

definition is_claimed :: "settlement_store \<Rightarrow> u64 \<Rightarrow> bytes32 \<Rightarrow> bool" where
  "is_claimed st e p \<longleftrightarrow> bt_get (claimed st) (e, p) \<noteq> None"

definition owed_amounts :: "settlement_store \<Rightarrow> u64 list" where
  "owed_amounts st = concat (map (\<lambda>(e, r). map sh_amount (filter (\<lambda>s. \<not> is_claimed st e (sh_provider s)) (shares r))) (records st))"

definition owed_outstanding :: "settlement_store \<Rightarrow> u64" where
  "owed_outstanding st = fold (\<lambda>b a. sat_add a b) (owed_amounts st) 0"

definition unallocated :: "settlement_store \<Rightarrow> u64" where
  "unallocated st = sat_sub (sat_add (pool (protocol st)) (pending_paid st)) (owed_outstanding st)"

definition expire :: "u64 \<Rightarrow> settlement_store \<Rightarrow> settlement_store" where
  "expire now_epoch st = (let cutoff = sat_sub now_epoch CLAIM_WINDOW_EPOCHS;
       stale = filter (\<lambda>e. e < cutoff) (map fst (records st)) in
     fold (\<lambda>e st. st\<lparr>records := bt_remove e (records st), claimed := filter (\<lambda>((ep, p), u). ep \<noteq> e) (claimed st)\<rparr>) stale st)"

definition settle_input :: "u64 \<Rightarrow> contribution list \<Rightarrow> entitlement list \<Rightarrow> settlement_store \<Rightarrow> reward_input" where
  "settle_input epoch cs es st = \<lparr>in_epoch = epoch, in_pool = unallocated st, contributions = cs, in_entitlements = es,
     in_cumulative_issued = total_supply (ps_supply (protocol st)),
     issuance = \<lparr>tokens_per_day = issuance_tokens_per_day st, epochs_per_day = settle_epochs_per_day,
                  total_cap = sup_cap (ps_supply (protocol st))\<rparr>,
     in_paid_marks = pending_paid_marks st, in_served_marks = pending_served_marks st,
     in_paid = pending_paid st, claim_payouts = pending_payouts st, in_state = snapshot st\<rparr>"

definition settle_epoch :: "(bytes \<Rightarrow> bytes32) \<Rightarrow> u64 \<Rightarrow> contribution list \<Rightarrow> entitlement list \<Rightarrow> settlement_store
    \<Rightarrow> (reward_record \<times> settlement_store) option" where
  "settle_epoch hash epoch cs es st = (case bt_get (records st) epoch of
       Some existing \<Rightarrow> Some (existing, st)
     | None \<Rightarrow> let st = expire epoch st in
        map_option (\<lambda>r.
          let (minted, p) = mint_into_pool (issued r) (protocol st);
              st = st\<lparr>protocol := set_pool (committed_pool r) p, pending_payouts := 0, pending_paid := 0,
                      pending_paid_marks := [], pending_served_marks := []\<rparr>
          in (r, st\<lparr>committed := snapshot st, records := bt_insert epoch r (records st)\<rparr>))
        (compute hash (settle_input epoch cs es st)))"

text \<open>One participant of the payment loop; the second component is \<open>pool_add\<close>.\<close>

definition pay_step :: "u64 \<Rightarrow> bytes32 \<times> u64 \<Rightarrow> settlement_store \<times> u64 \<Rightarrow> settlement_store \<times> u64" where
  "pay_step epoch np acc = (case np of (node, paid_cum) \<Rightarrow> case acc of (st, pool_add) \<Rightarrow>
     case bt_get (paid_watermark st) node of
       None \<Rightarrow> (st\<lparr>paid_watermark := bt_insert node paid_cum (paid_watermark st),
                   pending_paid_marks := bt_insert node paid_cum (pending_paid_marks st)\<rparr>, pool_add)
     | Some w \<Rightarrow> let delta = sat_sub paid_cum w; advanced = max paid_cum w in
         (st\<lparr>subs := purchase node delta (bytes_per_token st) epoch (window_epochs st) (subs st),
             paid_watermark := bt_insert node advanced (paid_watermark st),
             pending_paid_marks := bt_insert node advanced (pending_paid_marks st)\<rparr>,
          sat_add pool_add delta))"

type_synonym cheque_row = "bytes32 \<times> bytes32 \<times> u64 \<times> u64"

definition bump :: "'k::linorder \<Rightarrow> u64 \<Rightarrow> ('k, u64) btree \<Rightarrow> ('k, u64) btree option" where
  "bump k n m = map_option (\<lambda>v. bt_insert k v m) (checked_add (bt_get_or 0 m k) n)"

text \<open>One cheque; the last two components are \<open>contrib\<close> and \<open>spent\<close>.\<close>

type_synonym cheque_acc = "settlement_store \<times> (bytes32, u64) btree \<times> (bytes32, u64) btree"

definition mark_served :: "bytes32 \<Rightarrow> bytes32 \<Rightarrow> u64 \<Rightarrow> settlement_store \<Rightarrow> settlement_store" where
  "mark_served prov cons advanced st = st\<lparr>served_pair_wm := bt_insert (prov, cons) advanced (served_pair_wm st),
     pending_served_marks := bt_insert (prov, cons) advanced (pending_served_marks st)\<rparr>"

definition credit :: "bytes32 \<Rightarrow> bytes32 \<Rightarrow> u64 \<Rightarrow> cheque_acc \<Rightarrow> cheque_acc option" where
  "credit prov cons r acc = (case acc of (st, contrib, spnt) \<Rightarrow>
     (case bump prov r contrib of None \<Rightarrow> None | Some contrib' \<Rightarrow>
     (case bump cons r spnt of None \<Rightarrow> None | Some spnt' \<Rightarrow>
     (case bump prov r (rewardable st) of None \<Rightarrow> None | Some rw \<Rightarrow>
       Some (st\<lparr>rewardable := rw\<rparr>, contrib', spnt')))))"

definition cheque_step :: "u64 \<Rightarrow> cheque_row \<Rightarrow> cheque_acc \<Rightarrow> cheque_acc option" where
  "cheque_step epoch ch acc = (case ch of (prov, cons, cum, ts) \<Rightarrow> case acc of (st, contrib, spnt) \<Rightarrow>
     let w = bt_get_or 0 (served_pair_wm st) (prov, cons); delta = sat_sub cum w;
         st = mark_served prov cons (max cum w) st in
     if delta = 0 then Some (st, contrib, spnt)
     else case allocate cons delta epoch (subs st) of (r, sl) \<Rightarrow>
       if r = 0 then Some (st\<lparr>subs := sl\<rparr>, contrib, spnt)
       else credit prov cons r (st\<lparr>subs := sl\<rparr>, contrib, spnt))"

fun cheque_loop :: "u64 \<Rightarrow> cheque_row list \<Rightarrow> cheque_acc \<Rightarrow> cheque_acc option" where
  "cheque_loop epoch [] acc = Some acc"
| "cheque_loop epoch (c # cs) acc = (case cheque_step epoch c acc of None \<Rightarrow> None | Some a \<Rightarrow> cheque_loop epoch cs a)"

definition entitlement_rows :: "(bytes32, u64) btree \<Rightarrow> (bytes32 \<times> u64) list \<Rightarrow> entitlement list" where
  "entitlement_rows spnt bals =
     (let rows = fold (\<lambda>(c, b) m. bt_insert c (b, snd (bt_get_or (0, 0) m c)) m) spnt [];
          rows = fold (\<lambda>(c, r) m. bt_insert c (fst (bt_get_or (0, 0) m c), r) m) bals rows in
      map (\<lambda>(c, s, r). \<lparr>consumer = c, spent = s, remaining = r\<rparr>) rows)"

definition settle_epoch_from_cheques :: "(bytes \<Rightarrow> bytes32) \<Rightarrow> u64 \<Rightarrow> (bytes32 \<times> u64) list \<Rightarrow> cheque_row list \<Rightarrow> settlement_store
    \<Rightarrow> (reward_record \<times> settlement_store) option" where
  "settle_epoch_from_cheques hash epoch paid cheques st = (case bt_get (records st) epoch of
       Some existing \<Rightarrow> Some (existing, st)
     | None \<Rightarrow> (case fold (pay_step epoch) paid (st, 0) of (st, pool_add) \<Rightarrow>
        (case cheque_loop epoch (sort_key (\<lambda>(p, c, cum, ts). (ts, p, c)) cheques) (st, [], []) of
           None \<Rightarrow> None
         | Some (st, contrib, spnt) \<Rightarrow>
             let st = pay_in pool_add st;
                 cs = map (\<lambda>(p, b). \<lparr>provider = p, bytes_served = b, cumulative_bytes = bt_get_or 0 (rewardable st) p\<rparr>) contrib in
             settle_epoch hash epoch cs (entitlement_rows spnt (balances epoch (subs st))) st)))"

definition rewardable_served :: "bytes32 \<Rightarrow> settlement_store \<Rightarrow> u64" where
  "rewardable_served p st = bt_get_or 0 (rewardable st) p"

definition settle_epoch_with_pool :: "(bytes \<Rightarrow> bytes32) \<Rightarrow> u64 \<Rightarrow> u64 \<Rightarrow> contribution list \<Rightarrow> settlement_store
    \<Rightarrow> (reward_record \<times> settlement_store) option" where
  "settle_epoch_with_pool hash epoch pool_add cs st = (case bt_get (records st) epoch of
       Some existing \<Rightarrow> Some (existing, st)
     | None \<Rightarrow> settle_epoch hash epoch cs [] (pay_in pool_add st))"

definition st_share_of :: "u64 \<Rightarrow> bytes32 \<Rightarrow> settlement_store \<Rightarrow> u64" where
  "st_share_of epoch p st = (if is_claimed st epoch p then 0
     else case bt_get (records st) epoch of None \<Rightarrow> 0 | Some r \<Rightarrow> share_of r p)"

definition claim :: "u64 \<Rightarrow> bytes32 \<Rightarrow> settlement_store \<Rightarrow> u64 \<times> settlement_store" where
  "claim epoch p st = (case bt_get (records st) epoch of None \<Rightarrow> (0, st)
     | Some r \<Rightarrow> let share = share_of r p in
         if share = 0 \<or> is_claimed st epoch p then (0, st)
         else (share, st\<lparr>pending_payouts := sat_add (pending_payouts st) share,
                         claimed := bt_insert (epoch, p) () (claimed st)\<rparr>))"

section \<open>Sums of shares\<close>

lemma fold_sat_add: "unat (fold (\<lambda>b a. sat_add a b) xs a) = min (unat a + (\<Sum>x\<leftarrow>xs. unat x)) (2 ^ LENGTH('a) - 1)"
  for a :: "'a::len word"
proof (induction xs arbitrary: a)
  case Nil
  then show ?case using unat_le_max [of a] by simp
next
  case (Cons x xs)
  have "min (min (unat a + unat x) m + y) m = min (unat a + (unat x + y)) m" for y m :: nat by linarith
  with Cons show ?case by (simp add: unat_sat_add)
qed

definition owed_nat :: "settlement_store \<Rightarrow> nat" where
  "owed_nat st = (\<Sum>x\<leftarrow>owed_amounts st. unat x)"

lemma owed_outstanding_nat: "unat (owed_outstanding st) = min (owed_nat st) (2 ^ 64 - 1)"
  by (simp add: owed_outstanding_def owed_nat_def fold_sat_add)

definition owed_row :: "settlement_store \<Rightarrow> u64 \<times> reward_record \<Rightarrow> nat" where
  "owed_row st er = (case er of (e, r) \<Rightarrow> \<Sum>s\<leftarrow>shares r. if is_claimed st e (sh_provider s) then 0 else unat (sh_amount s))"

lemma owed_nat_rows: "owed_nat st = (\<Sum>er\<leftarrow>records st. owed_row st er)"
proof -
  have "sum_list (map (unat \<circ> sh_amount) (filter P ss)) = (\<Sum>s\<leftarrow>ss. if \<not> P s then 0 else unat (sh_amount s))" for P ss
    by (induction ss) simp_all
  note f = this
  have "(\<Sum>x\<leftarrow>concat (map (\<lambda>(e, r). map sh_amount (filter (\<lambda>s. \<not> is_claimed st e (sh_provider s)) (shares r))) rs). unat x)
    = (\<Sum>er\<leftarrow>rs. owed_row st er)" for rs
    by (induction rs) (auto simp: owed_row_def f)
  then show ?thesis by (simp add: owed_nat_def owed_amounts_def)
qed

lemma sum_bt_insert: "bt_get m k = None \<Longrightarrow> (\<Sum>x\<leftarrow>bt_insert k v m. f x) = f (k, v) + (\<Sum>x\<leftarrow>m. f x)"
  for f :: "_ \<Rightarrow> nat"
  by (induction k v m rule: bt_insert.induct) auto

lemma expire_loop:
  defines "step \<equiv> \<lambda>e st. st\<lparr>records := bt_remove e (records st), claimed := filter (\<lambda>((ep, p), u). ep \<noteq> e) (claimed st)\<rparr>"
  shows "fold step stale st = st\<lparr>records := filter (\<lambda>er. fst er \<notin> set stale) (records st),
    claimed := filter (\<lambda>((ep, p), u). ep \<notin> set stale) (claimed st)\<rparr>"
proof (induction stale arbitrary: st)
  case (Cons e stale)
  have "filter (\<lambda>((ep, p), u). ep \<notin> set stale) (filter (\<lambda>((ep, p), u). ep \<noteq> e) m)
    = filter (\<lambda>((ep, p), u). ep \<notin> set (e # stale)) m" for m :: "((u64 \<times> bytes32) \<times> unit) list"
    by (auto intro!: filter_cong)
  then show ?case unfolding fold_Cons comp_apply Cons.IH by (auto simp: step_def bt_remove_def intro!: filter_cong)
qed (simp add: case_prod_beta')

lemma expire_eq:
  defines "fresh \<equiv> \<lambda>now_epoch e. sat_sub now_epoch CLAIM_WINDOW_EPOCHS \<le> e"
  shows "records (expire now_epoch st) = filter (\<lambda>er. fresh now_epoch (fst er)) (records st)"
    and "(e, r) \<in> set (records (expire now_epoch st)) \<Longrightarrow> is_claimed (expire now_epoch st) e p = is_claimed st e p"
    and "is_claimed (expire now_epoch st) e p \<Longrightarrow> is_claimed st e p"
    and "protocol (expire now_epoch st) = protocol st" "pending_paid (expire now_epoch st) = pending_paid st"
    and "pending_payouts (expire now_epoch st) = pending_payouts st" "subs (expire now_epoch st) = subs st"
    and "served_pair_wm (expire now_epoch st) = served_pair_wm st"
    and "issuance_tokens_per_day (expire now_epoch st) = issuance_tokens_per_day st"
    and "bt_get (records st) e' = None \<Longrightarrow> bt_get (records (expire now_epoch st)) e' = None"
    and "rewardable (expire now_epoch st) = rewardable st"
proof -
  let ?stale = "filter (\<lambda>e. e < sat_sub now_epoch CLAIM_WINDOW_EPOCHS) (map fst (records st))"
  note x = expire_loop [of ?stale st]
  show rec: "records (expire now_epoch st) = filter (\<lambda>er. fresh now_epoch (fst er)) (records st)"
    by (auto simp: expire_def Let_def x fresh_def not_less intro!: filter_cong)
  have cl: "claimed (expire now_epoch st) = filter (\<lambda>((ep, p), u). ep \<notin> set ?stale) (claimed st)"
    by (simp add: expire_def Let_def x)
  have get: "bt_get (filter (\<lambda>((ep, p), u). ep \<notin> S) m) (e, p) = (if e \<in> S then None else bt_get m (e, p))"
    for S and m :: "(u64 \<times> bytes32, unit) btree" and e p
    by (induction m) (auto simp: bt_get_def)
  show "is_claimed (expire now_epoch st) e p = is_claimed st e p" if "(e, r) \<in> set (records (expire now_epoch st))"
    using that unfolding is_claimed_def cl get rec by (auto simp: fresh_def not_less)
  show "is_claimed (expire now_epoch st) e p \<Longrightarrow> is_claimed st e p"
    unfolding is_claimed_def cl get by (simp split: if_splits)
  show "protocol (expire now_epoch st) = protocol st" "pending_paid (expire now_epoch st) = pending_paid st"
    "pending_payouts (expire now_epoch st) = pending_payouts st" "subs (expire now_epoch st) = subs st"
    "served_pair_wm (expire now_epoch st) = served_pair_wm st"
    "issuance_tokens_per_day (expire now_epoch st) = issuance_tokens_per_day st"
    by (simp_all add: expire_def Let_def x)
  show "rewardable (expire now_epoch st) = rewardable st" by (simp add: expire_def Let_def x)
  show "bt_get (records st) e' = None \<Longrightarrow> bt_get (records (expire now_epoch st)) e' = None"
    by (auto simp: rec bt_get_None_iff)
qed

lemma sum_list_filter_le: "(\<Sum>x\<leftarrow>filter P xs. f x) \<le> (\<Sum>x\<leftarrow>xs. (f x :: nat))"
  by (induction xs) simp_all

lemma owed_expire_le: "owed_nat (expire now_epoch st) \<le> owed_nat st"
proof -
  have "(\<Sum>er\<leftarrow>records (expire now_epoch st). owed_row (expire now_epoch st) er) = (\<Sum>er\<leftarrow>records (expire now_epoch st). owed_row st er)"
    by (intro arg_cong [of _ _ sum_list] map_cong refl) (auto simp: owed_row_def expire_eq(2))
  then show ?thesis by (simp add: owed_nat_rows expire_eq(1) sum_list_filter_le)
qed

lemma settle_epoch_Some:
  assumes "settle_epoch hash epoch cs es st = Some (r, st')" "bt_get (records st) epoch = None"
  defines "x \<equiv> expire epoch st"
  shows "compute hash (settle_input epoch cs es x) = Some r"
    and "protocol st' = set_pool (committed_pool r) (snd (mint_into_pool (issued r) (protocol st)))"
    and "pending_paid st' = 0" "pending_payouts st' = 0" "served_pair_wm st' = served_pair_wm st" "subs st' = subs st"
    and "owed_nat st' = owed_nat x + owed_row x (epoch, r)"
    and "committed st' = snapshot st'" "rewardable st' = rewardable st"
proof -
  obtain m p where p: "mint_into_pool (issued r) (protocol x) = (m, p)" by (cases "mint_into_pool (issued r) (protocol x)")
  from assms have c: "compute hash (settle_input epoch cs es x) = Some r"
    and st': "st' = (let s = x\<lparr>protocol := set_pool (committed_pool r) p, pending_payouts := 0, pending_paid := 0,
                      pending_paid_marks := [], pending_served_marks := []\<rparr>
          in s\<lparr>committed := snapshot s, records := bt_insert epoch r (records s)\<rparr>)"
    using p by (auto simp: settle_epoch_def Let_def case_prod_beta)
  show "compute hash (settle_input epoch cs es x) = Some r" by (rule c)
  show "protocol st' = set_pool (committed_pool r) (snd (mint_into_pool (issued r) (protocol st)))"
    using p by (simp add: st' Let_def x_def expire_eq)
  show "pending_paid st' = 0" "pending_payouts st' = 0" "served_pair_wm st' = served_pair_wm st" "subs st' = subs st"
    by (simp_all add: st' Let_def x_def expire_eq)
  show "rewardable st' = rewardable st" by (simp add: st' Let_def x_def expire_eq)
  show "committed st' = snapshot st'" by (simp add: st' Let_def snapshot_def)
  have "owed_row st' = owed_row x" by (auto simp: fun_eq_iff owed_row_def is_claimed_def st' Let_def)
  then show "owed_nat st' = owed_nat x + owed_row x (epoch, r)"
    using assms(2) by (simp add: owed_nat_rows st' Let_def sum_bt_insert x_def expire_eq(10))
qed

lemma compute_fields:
  assumes "compute hash i = Some r"
  shows "r_pool r = sat_add (in_pool i) (issued r)"
    and "committed_pool r = sat_sub (sat_add (sat_add (es_pool (in_state i)) (in_paid i)) (issued r)) (claim_payouts i)"
    and "unat (issued r) \<le> unat (total_cap (issuance i)) - unat (in_cumulative_issued i)"
    and "r_epoch r = in_epoch i" "r_state_hash r = state_hash hash (next_state i (issued r))"
  using assms by (auto simp: compute_def Let_def next_state_def issuance_for_nat)

definition backing :: "settlement_store \<Rightarrow> nat" where
  "backing st = unat (pool (protocol st)) + unat (pending_paid st)"

text \<open>What an epoch close does to the figures, when nothing saturates.\<close>

lemma settle_figures:
  assumes "settle_epoch hash epoch cs es st = Some (r, st')" "bt_get (records st) epoch = None"
    and "backing st + unat (issued r) < 2 ^ 64" "owed_nat st \<le> backing st"
    and "unat (pending_payouts st) \<le> backing st + unat (issued r)"
  shows "unat (r_pool r) + owed_nat (expire epoch st) = backing st + unat (issued r)"
    and "unat (pool (protocol st')) + unat (pending_payouts st) = backing st + unat (issued r)"
proof -
  let ?x = "expire epoch st"
  note sf = settle_epoch_Some [OF assms(1,2)]
  note cf = compute_fields [OF sf(1)]
  have owed: "owed_nat ?x \<le> backing st" using owed_expire_le assms(4) by (rule le_trans)
  have b: "backing st < 2 ^ 64" using assms(3) by linarith
  have sum: "unat (sat_add (pool (protocol st)) (pending_paid st)) = backing st"
    using b by (simp add: unat_sat_add backing_def)
  have "unat (unallocated ?x) = backing st - owed_nat ?x"
    using owed b by (simp add: unallocated_def unat_sat_sub expire_eq sum owed_outstanding_nat)
  then show "unat (r_pool r) + owed_nat ?x = backing st + unat (issued r)"
    using cf(1) owed assms(3) by (simp add: settle_input_def unat_sat_add)
  have "pool (protocol st') = committed_pool r" by (simp add: sf(2) set_pool_def)
  then show "unat (pool (protocol st')) + unat (pending_payouts st) = backing st + unat (issued r)"
    using cf(2) sum assms(3,5)
    by (simp add: settle_input_def snapshot_def expire_eq unat_sat_add unat_sat_sub)
qed

lemma owed_row_le: "owed_row st (e, r) \<le> (\<Sum>s\<leftarrow>shares r. unat (sh_amount s))"
  unfolding owed_row_def by (auto intro!: sum_list_mono)

text \<open>(C4) What is owed exceeds the backing by at most the claims pending. If, when an epoch is closed, what is owed is
  covered by the pool and the payments pending, the claims pending are covered by that and the issuance, and these figures fit
  in 64 bits, then afterwards what is owed, the new shares included, is covered by the pool and the claims that were pending; so it is
  covered by the pool alone when no claim was pending. A close of a new epoch leaves nothing pending and accounts for every token:
  the new pool and the claims pending are the old backing plus the issuance. Closing an epoch again changes nothing.\<close>

theorem settle_backed:
  assumes "settle_epoch hash epoch cs es st = Some (r, st')" "owed_nat st \<le> backing st"
    and "backing st + unat (issued r) < 2 ^ 64" "unat (pending_payouts st) \<le> backing st + unat (issued r)" "length cs < 2 ^ 64"
  shows "owed_nat st' \<le> backing st' + unat (pending_payouts st)
    \<and> (if bt_get (records st) epoch = None
       then pending_paid st' = 0 \<and> pending_payouts st' = 0
         \<and> unat (pool (protocol st')) + unat (pending_payouts st) = backing st + unat (issued r)
       else st' = st)"
proof (cases "bt_get (records st) epoch")
  case None
  note sf = settle_epoch_Some [OF assms(1) None]
  note fig = settle_figures [OF assms(1) None assms(3,2,4)]
  have "owed_row (expire epoch st) (epoch, r) \<le> unat (r_pool r)"
    using owed_row_le [of "expire epoch st" epoch r] shares_sum [OF sf(1)] assms(5) by (simp add: settle_input_def)
  then show ?thesis using fig None unfolding sf(7) by (simp add: backing_def sf(3,4))
qed (use assms in \<open>simp add: settle_epoch_def\<close>)

lemma single_share:
  assumes "compute hash i = Some r" "contributions i = [c]" "bytes_served c > 0"
  shows "\<exists>s. shares r = [s] \<and> sh_provider s = provider c \<and> sh_amount s = r_pool r"
proof -
  have len: "length (contributions i) < 2 ^ 64" by (simp add: assms(2))
  have bp: "by_provider [c] = [(provider c, ucast (bytes_served c), cumulative_bytes c)]"
    by (simp add: by_provider_def add_contribution_def)
  have b: "0 < unat (bytes_served c)" using assms(3) by (simp add: word_less_nat_alt)
  have "unat (ucast (bytes_served c) :: u128) = unat (bytes_served c)" by (rule unat_ucast_up) simp
  then obtain s where "shares r = [s]" "sh_provider s = provider c"
    "unat (sh_amount s) = unat (r_pool r) * unat (bytes_served c) div unat (bytes_served c)"
    using share_rows [OF assms(1) len] by (auto simp: bp list_all2_Cons1 served_total_def assms(2))
  then show ?thesis using b by (simp add: word_unat_eq_iff)
qed

text \<open>Claims are distributed a second time. A claim lowers what is owed but leaves the pool until
  the next record subtracts it, so the close offers the same tokens again: with one provider in the
  epoch, what is owed afterwards exceeds the pool by exactly the claims paid since the last record.\<close>

theorem claims_redistributed:
  assumes "settle_epoch hash epoch [c] es st = Some (r, st')" "bt_get (records st) epoch = None"
    and "bytes_served c > 0" "\<not> is_claimed st epoch (provider c)"
    and "backing st + unat (issued r) < 2 ^ 64" "owed_nat st \<le> backing st"
    and "unat (pending_payouts st) \<le> backing st + unat (issued r)"
  shows "owed_nat st' = unat (pool (protocol st')) + unat (pending_payouts st)"
proof -
  note sf = settle_epoch_Some [OF assms(1,2)]
  note fig = settle_figures [OF assms(1,2,5,6,7)]
  obtain s where s: "shares r = [s]" "sh_provider s = provider c" "sh_amount s = r_pool r"
    using single_share [OF sf(1), of c] assms(3) by (auto simp: settle_input_def)
  have "owed_row (expire epoch st) (epoch, r) = unat (r_pool r)"
    using assms(4) expire_eq(3) [of epoch st epoch "provider c"] by (auto simp: owed_row_def s)
  then show ?thesis using fig unfolding sf(7) by linarith
qed

text \<open>The record never issues more than the gate grants. The mint at the close grants exactly what
  the record committed to, the supply rises by it and stays within the cap, and after the close the
  store's pool and supply are the ones of the record.\<close>

theorem issuance_matches_mint:
  assumes "settle_epoch hash epoch cs es st = Some (r, st')" "bt_get (records st) epoch = None"
    and "total_supply (ps_supply (protocol st)) \<le> sup_cap (ps_supply (protocol st))"
  shows "fst (mint_into_pool (issued r) (protocol st)) = issued r
    \<and> total_supply (ps_supply (protocol st')) = cumulative_issued r
    \<and> unat (total_supply (ps_supply (protocol st'))) = unat (total_supply (ps_supply (protocol st))) + unat (issued r)
    \<and> total_supply (ps_supply (protocol st')) \<le> sup_cap (ps_supply (protocol st'))
    \<and> pool (protocol st') = committed_pool r"
proof -
  note sf = settle_epoch_Some [OF assms(1,2)]
  let ?s = "ps_supply (protocol st)"
  have le: "unat (issued r) \<le> unat (sup_cap ?s) - unat (minted ?s)"
    using compute_fields(3) [OF sf(1)] by (simp add: settle_input_def expire_eq total_supply_def)
  have cap: "unat (minted ?s) \<le> unat (sup_cap ?s)" using assms(3) by (simp add: total_supply_def word_le_nat_alt)
  have gr: "min (issued r) (headroom ?s) = issued r"
    using le by (simp add: min_def headroom_def word_le_nat_alt unat_sat_sub)
  then have m: "mint_into_pool (issued r) (protocol st) = (issued r, (protocol st)
      \<lparr>ps_supply := ?s\<lparr>minted := sat_add (minted ?s) (issued r)\<rparr>, pool := sat_add (pool (protocol st)) (issued r)\<rparr>)"
    by (simp add: mint_into_pool_def authorize_mint_def Let_def)
  have u: "unat (sat_add (minted ?s) (issued r)) = unat (minted ?s) + unat (issued r)"
    using le cap unat_lt [of "sup_cap ?s"] by (simp add: unat_sat_add del: unsigned_less)
  have cum: "cumulative_issued r = sat_add (minted ?s) (issued r)"
    using sf(1) by (auto simp: compute_def Let_def settle_input_def expire_eq total_supply_def)
  show ?thesis using u le cap by (simp add: sf(2) m set_pool_def total_supply_def cum word_le_nat_alt)
qed

section \<open>Cheques\<close>

lemma pay_loop_keeps:
  "served_pair_wm (fst (fold (pay_step epoch) paid acc)) = served_pair_wm (fst acc)
   \<and> records (fst (fold (pay_step epoch) paid acc)) = records (fst acc)
   \<and> rewardable (fst (fold (pay_step epoch) paid acc)) = rewardable (fst acc)"
proof (induction paid arbitrary: acc)
  case (Cons np paid)
  have "served_pair_wm (fst (pay_step epoch np acc)) = served_pair_wm (fst acc)"
    "records (fst (pay_step epoch np acc)) = records (fst acc)"
    "rewardable (fst (pay_step epoch np acc)) = rewardable (fst acc)"
    by (auto simp: pay_step_def Let_def split: prod.splits option.splits)
  with Cons show ?case by simp
qed simp

definition wm :: "settlement_store \<Rightarrow> bytes32 \<Rightarrow> bytes32 \<Rightarrow> u64" where
  "wm st p c = bt_get_or 0 (served_pair_wm st) (p, c)"

lemma credit_Some:
  "credit p c r (st, k, n) = Some (st', k', n') \<Longrightarrow>
     (\<exists>rw. st' = st\<lparr>rewardable := rw\<rparr>) \<and> bump p r k = Some k' \<and> bump c r n = Some n' \<and> bump p r (rewardable st) = Some (rewardable st')"
  by (auto simp: credit_def split: option.splits)

text \<open>A cheque marks its pair and, when it advances the watermark, draws on its consumer's entitlement; what is granted is credited.\<close>

lemma cheque_step_Some:
  assumes "cheque_step epoch (p, c, cum, ts) (st, contrib, spnt) = Some (st', contrib', spnt')"
  shows "served_pair_wm st' = bt_insert (p, c) (max cum (wm st p c)) (served_pair_wm st) \<and> records st' = records st"
    and "subs st' = subs st \<and> (contrib', spnt', rewardable st') = (contrib, spnt, rewardable st) \<or>
      (\<exists>r d. allocate c d epoch (subs st) = (r, subs st') \<and>
        (if r = 0 then (contrib', spnt', rewardable st') = (contrib, spnt, rewardable st)
         else bump p r contrib = Some contrib' \<and> bump c r spnt = Some spnt' \<and> bump p r (rewardable st) = Some (rewardable st')))"
proof -
  let ?s = "mark_served p c (max cum (wm st p c)) st" and ?d = "sat_sub cum (wm st p c)"
  obtain r sl where a: "allocate c ?d epoch (subs ?s) = (r, sl)" by (cases "allocate c ?d epoch (subs ?s)")
  have m: "subs ?s = subs st" "records ?s = records st" "rewardable ?s = rewardable st"
    "served_pair_wm ?s = bt_insert (p, c) (max cum (wm st p c)) (served_pair_wm st)" by (simp_all add: mark_served_def)
  have e: "cheque_step epoch (p, c, cum, ts) (st, contrib, spnt) =
    (if ?d = 0 then Some (?s, contrib, spnt) else if r = 0 then Some (?s\<lparr>subs := sl\<rparr>, contrib, spnt)
     else credit p c r (?s\<lparr>subs := sl\<rparr>, contrib, spnt))"
    using a by (simp add: cheque_step_def wm_def Let_def)
  consider "?d = 0" "st' = ?s" "contrib' = contrib" "spnt' = spnt" | "r = 0" "st' = ?s\<lparr>subs := sl\<rparr>" "contrib' = contrib" "spnt' = spnt"
    | rw where "r \<noteq> 0" "st' = ?s\<lparr>subs := sl, rewardable := rw\<rparr>" "bump p r contrib = Some contrib'" "bump c r spnt = Some spnt'"
      "bump p r (rewardable st) = Some rw"
  proof (cases "?d = 0")
    case False
    show thesis
    proof (cases "r = 0")
      case nz: False
      then have "credit p c r (?s\<lparr>subs := sl\<rparr>, contrib, spnt) = Some (st', contrib', spnt')" using assms False by (simp add: e)
      from credit_Some [OF this] that(3) nz m show thesis by auto
    qed (use assms False that(2) in \<open>simp add: e\<close>)
  qed (use assms that(1) in \<open>simp add: e\<close>)
  note ca = this
  show "served_pair_wm st' = bt_insert (p, c) (max cum (wm st p c)) (served_pair_wm st) \<and> records st' = records st"
    by (cases rule: ca) (simp_all add: m)
  show "subs st' = subs st \<and> (contrib', spnt', rewardable st') = (contrib, spnt, rewardable st) \<or>
      (\<exists>r d. allocate c d epoch (subs st) = (r, subs st') \<and>
        (if r = 0 then (contrib', spnt', rewardable st') = (contrib, spnt, rewardable st)
         else bump p r contrib = Some contrib' \<and> bump c r spnt = Some spnt' \<and> bump p r (rewardable st) = Some (rewardable st')))"
    by (cases rule: ca) (use a m in auto)
qed

lemma cheque_step_keeps:
  assumes "cheque_step epoch (p, c, cum, ts) (st, contrib, spnt) = Some (st', contrib', spnt')"
  shows "wm st' p' c' = (if (p', c') = (p, c) then max cum (wm st p c) else wm st p' c')" "records st' = records st"
  using cheque_step_Some(1) [OF assms] by (simp_all add: wm_def bt_get_or_def)

lemma cheque_loop_wm:
  assumes "cheque_loop epoch cs (st, contrib, spnt) = Some (st', contrib', spnt')"
  shows "wm st p c \<le> wm st' p c \<and> (\<forall>cum ts. (p, c, cum, ts) \<in> set cs \<longrightarrow> cum \<le> wm st' p c) \<and> records st' = records st"
  using assms
proof (induction cs arbitrary: st contrib spnt)
  case (Cons ch cs)
  obtain q d cum ts where ch: "ch = (q, d, cum, ts)" by (cases ch)
  from Cons.prems obtain s k n where step: "cheque_step epoch (q, d, cum, ts) (st, contrib, spnt) = Some (s, k, n)"
    and loop: "cheque_loop epoch cs (s, k, n) = Some (st', contrib', spnt')"
    by (auto simp: ch split: option.splits)
  note k = cheque_step_keeps(1) [OF step, of p c] cheque_step_keeps(2) [OF step]
  from Cons.IH [OF loop] k show ?case by (auto simp: ch intro: order_trans split: if_splits)
qed simp

lemma cheque_loop_stale:
  assumes "\<forall>(p, c, cum, ts) \<in> set cs. cum \<le> wm st p c"
  shows "\<exists>st'. cheque_loop epoch cs (st, [], []) = Some (st', [], [])"
  using assms
proof (induction cs arbitrary: st)
  case (Cons ch cs)
  obtain q d cum ts where ch: "ch = (q, d, cum, ts)" by (cases ch)
  have "sat_sub cum (wm st q d) = 0" using Cons.prems by (auto simp: ch word_le_nat_alt word_unat_eq_iff unat_sat_sub)
  then obtain s where step: "cheque_step epoch ch (st, [], []) = Some (s, [], [])"
    by (auto simp: cheque_step_def ch wm_def Let_def)
  then have "\<forall>(p, c, cum, ts) \<in> set cs. cum \<le> wm s p c"
    using Cons.prems cheque_step_keeps(1) [of epoch q d cum ts st "[]" "[]" s "[]" "[]"] by (fastforce simp: ch)
  from Cons.IH [OF this] step show ?case by simp
qed simp

lemma settle_from_cheques_Some:
  assumes "settle_epoch_from_cheques hash epoch paid cheques st = Some (r, st')" "bt_get (records st) epoch = None"
  obtains st1 st2 add contrib spnt es cs where "fold (pay_step epoch) paid (st, 0) = (st1, add)"
    "cheque_loop epoch (sort_key (\<lambda>(p, c, cum, ts). (ts, p, c)) cheques) (st1, [], []) = Some (st2, contrib, spnt)"
    "settle_epoch hash epoch cs es (pay_in add st2) = Some (r, st')" "bt_get (records (pay_in add st2)) epoch = None"
    "cs = map (\<lambda>(p, b). \<lparr>provider = p, bytes_served = b, cumulative_bytes = bt_get_or 0 (rewardable st2) p\<rparr>) contrib"
    "es = entitlement_rows spnt (balances epoch (subs st2))"
proof -
  obtain st1 add where f: "fold (pay_step epoch) paid (st, 0) = (st1, add)" by (cases "fold (pay_step epoch) paid (st, 0)")
  from assms f obtain st2 contrib spnt where
    l: "cheque_loop epoch (sort_key (\<lambda>(p, c, cum, ts). (ts, p, c)) cheques) (st1, [], []) = Some (st2, contrib, spnt)"
    by (auto simp: settle_epoch_from_cheques_def split: option.splits)
  have "records (pay_in add st2) = records st"
    using cheque_loop_wm [OF l] pay_loop_keeps [of epoch paid "(st, 0)"] f by (simp add: pay_in_def)
  then show ?thesis
    using that [OF f l] assms f l by (auto simp: settle_epoch_from_cheques_def Let_def pay_in_def)
qed

text \<open>A cheque earns once. After an epoch has settled a set of cheques, settling another epoch with
  cheques of the same pairs that are no newer produces no share and issues nothing, however they are
  ordered, repeated or back-dated.\<close>

theorem replayed_cheques_earn_nothing:
  assumes "settle_epoch_from_cheques hash e1 paid1 cheques st = Some (r1, st1)" "bt_get (records st) e1 = None"
    and "settle_epoch_from_cheques hash e2 paid2 replay st1 = Some (r2, st2)" "bt_get (records st1) e2 = None"
    and "\<forall>(p, c, cum, ts) \<in> set replay. \<exists>cum' ts'. (p, c, cum', ts') \<in> set cheques \<and> cum \<le> cum'"
  shows "shares r2 = [] \<and> issued r2 = 0"
proof -
  obtain sa sb add contrib spnt es cs where
    "fold (pay_step e1) paid1 (st, 0) = (sa, add)"
    and l1: "cheque_loop e1 (sort_key (\<lambda>(p, c, cum, ts). (ts, p, c)) cheques) (sa, [], []) = Some (sb, contrib, spnt)"
    and s1: "settle_epoch hash e1 cs es (pay_in add sb) = Some (r1, st1)" "bt_get (records (pay_in add sb)) e1 = None"
    and "cs = map (\<lambda>(p, b). \<lparr>provider = p, bytes_served = b, cumulative_bytes = bt_get_or 0 (rewardable sb) p\<rparr>) contrib"
    and "es = entitlement_rows spnt (balances e1 (subs sb))"
    by (rule settle_from_cheques_Some [OF assms(1,2)])
  have wm1: "wm st1 p c = wm sb p c" for p c using settle_epoch_Some(5) [OF s1] by (simp add: wm_def pay_in_def)
  obtain sc sd add2 contrib2 spnt2 es2 cs2 where
    f2: "fold (pay_step e2) paid2 (st1, 0) = (sc, add2)"
    and l2: "cheque_loop e2 (sort_key (\<lambda>(p, c, cum, ts). (ts, p, c)) replay) (sc, [], []) = Some (sd, contrib2, spnt2)"
    and s2: "settle_epoch hash e2 cs2 es2 (pay_in add2 sd) = Some (r2, st2)" "bt_get (records (pay_in add2 sd)) e2 = None"
    and cs2: "cs2 = map (\<lambda>(p, b). \<lparr>provider = p, bytes_served = b, cumulative_bytes = bt_get_or 0 (rewardable sd) p\<rparr>) contrib2"
    and "es2 = entitlement_rows spnt2 (balances e2 (subs sd))"
    by (rule settle_from_cheques_Some [OF assms(3,4)])
  have "wm sc p c = wm sb p c" for p c using pay_loop_keeps [of e2 paid2 "(st1, 0)"] f2 wm1 by (simp add: wm_def)
  moreover have "cum \<le> wm sb p c" if "(p, c, cum, ts) \<in> set replay" for p c cum ts
    using that assms(5) cheque_loop_wm [OF l1, of p c] by (fastforce intro: order_trans)
  ultimately have "\<forall>(p, c, cum, ts) \<in> set (sort_key (\<lambda>(p, c, cum, ts). (ts, p, c)) replay). cum \<le> wm sc p c" by auto
  from cheque_loop_stale [OF this, of e2] l2 have "cs2 = []" by (auto simp: cs2)
  then have "by_provider (contributions (settle_input e2 cs2 es2 (expire e2 (pay_in add2 sd)))) = []"
    by (simp add: settle_input_def by_provider_def)
  with settle_epoch_Some(1) [OF s2] show ?thesis by (auto simp: compute_def Let_def issuance_for_def total_bytes_def)
qed

section \<open>What a consumer's payments can be rewarded for\<close>

definition delta_bytes :: "settlement_store \<Rightarrow> (bytes32 \<times> u64) list \<Rightarrow> bytes32 \<Rightarrow> nat" where
  "delta_bytes st paid c = (case (map_of paid c, bt_get (paid_watermark st) c) of
     (Some cum, Some w) \<Rightarrow> unat (purchased_bytes (sat_sub cum w) (bytes_per_token st)) | _ \<Rightarrow> 0)"

lemma seeding_due_purchase [simp]: "seeding_due c e (purchase d t p e' w l) = seeding_due c e l"
  by (simp add: seeding_due_def purchase_def push_grant_def Let_def)

lemma seed_bytes_purchase [simp]: "seed_bytes c e (purchase d t p e' w l) = seed_bytes c e l"
  by (simp add: seed_bytes_def)

lemma pay_loop_held:
  assumes "distinct (map fst paid)"
  shows "held (queue (subs (fst (fold (pay_step epoch) paid (st, add)))) c) = held (queue (subs st) c) + delta_bytes st paid c
    \<and> seed_bytes c epoch (subs (fst (fold (pay_step epoch) paid (st, add)))) = seed_bytes c epoch (subs st)"
  using assms
proof (induction paid arbitrary: st add)
  case (Cons np paid)
  obtain node cum where np: "np = (node, cum)" by (cases np)
  obtain st' add' where step: "pay_step epoch np (st, add) = (st', add')" by (cases "pay_step epoch np (st, add)")
  have keep: "bytes_per_token st' = bytes_per_token st" "d \<noteq> node \<Longrightarrow> bt_get (paid_watermark st') d = bt_get (paid_watermark st) d"
    "seed_bytes c epoch (subs st') = seed_bytes c epoch (subs st)" for d
    using step by (auto simp: pay_step_def np Let_def split: option.splits)
  have held: "held (queue (subs st') c) = held (queue (subs st) c)
      + (if node = c then (case bt_get (paid_watermark st) c of None \<Rightarrow> 0
          | Some w \<Rightarrow> unat (purchased_bytes (sat_sub cum w) (bytes_per_token st))) else 0)"
    using step by (auto simp: pay_step_def np Let_def split: option.splits)
  have "delta_bytes st' paid c = (if node = c then 0 else delta_bytes st (np # paid) c)"
  proof -
    have "map_of paid node = None" using Cons.prems by (simp add: map_of_eq_None_iff np)
    then show ?thesis using keep by (cases "node = c") (simp_all add: delta_bytes_def np split: option.split)
  qed
  then show ?case using Cons.IH [of st' add'] Cons.prems step held keep(3)
    by (auto simp: delta_bytes_def np split: option.splits if_splits)
qed (simp add: delta_bytes_def)

definition amount_at :: "('k, u64) btree \<Rightarrow> 'k \<Rightarrow> nat" where
  "amount_at m k = unat (bt_get_or 0 m k)"

definition map_total :: "('k, u64) btree \<Rightarrow> nat" where
  "map_total m = (\<Sum>kv\<leftarrow>m. unat (snd kv))"

lemma bump_amount: "bump d r m = Some m' \<Longrightarrow> amount_at m' c = amount_at m c + (if d = c then unat r else 0)"
  by (auto simp: bump_def amount_at_def bt_get_or_def checked_add_Some_iff split: if_splits)

lemma sum_bt_insert_old:
  fixes f :: "'v \<Rightarrow> nat"
  assumes "bt_inv m"
  shows "(\<Sum>kv\<leftarrow>bt_insert k v m. f (snd kv)) + (case bt_get m k of None \<Rightarrow> 0 | Some w \<Rightarrow> f w) = (\<Sum>kv\<leftarrow>m. f (snd kv)) + f v"
  using assms
proof (induction k v m rule: bt_insert.induct)
  case (2 k v k' v' m)
  have "k < k' \<Longrightarrow> bt_get m k = None" using 2(2) by (auto simp: bt_get_None_iff)
  with 2 show ?case by auto
qed simp

lemma bump_map_total: "bump k r m = Some m' \<Longrightarrow> bt_inv m \<Longrightarrow> bt_inv m' \<and> map_total m' = map_total m + unat r"
proof -
  assume b: "bump k r m = Some m'" and inv: "bt_inv m"
  then obtain v where v: "m' = bt_insert k v m" "unat v = unat (bt_get_or 0 m k) + unat r"
    by (auto simp: bump_def checked_add_Some_iff)
  then show ?thesis using inv sum_bt_insert_old [OF inv, where k = k and v = v and f = unat]
    by (simp add: map_total_def bt_get_or_def split: option.splits)
qed

lemma allocate_potential:
  assumes "allocate d b epoch l = (u, l')" "epoch < - 1"
  shows "(if d = c then unat u else 0) + held (queue l' c) + seed_bytes c epoch l' \<le> held (queue l c) + seed_bytes c epoch l"
proof (cases "d = c")
  case False
  have "seed_bytes c epoch l' = seed_bytes c epoch l"
    using allocate_next(1,2) [OF assms(1)] allocate_next(3) [OF assms(1), of c] False
    by (simp add: seed_bytes_def seeding_due_def word_le_nat_alt flip: next_seeding_def)
  with False show ?thesis using allocate_other [OF assms(1), of c] by simp
next
  case True
  have "0 < unat (effective_window l)" by (simp add: effective_window_def unat_gt_0)
  moreover have "unat epoch < 2 ^ 64 - 1"
    using assms(2) unat_max_word [where 'a = 64] by (simp only: word_less_nat_alt) simp
  ultimately have till: "unat epoch < unat (sat_add epoch (effective_window l))" by (simp add: unat_sat_add)
  have "seed_bytes c epoch l' = 0"
    using allocate_next(1,2) [OF assms(1)] allocate_next(3) [OF assms(1), of c] True till
    by (auto simp: seed_bytes_def seeding_due_def word_le_nat_alt split: if_splits simp flip: next_seeding_def)
  then show ?thesis using allocate_held [OF assms(1)] True by simp
qed

lemma cheque_loop_spent:
  assumes "cheque_loop epoch cs (st, contrib, spnt) = Some (st', contrib', spnt')" "epoch < - 1"
  shows "amount_at spnt' c + held (queue (subs st') c) \<le> amount_at spnt c + held (queue (subs st) c) + seed_bytes c epoch (subs st)"
proof -
  have "amount_at spnt' c + held (queue (subs st') c) + seed_bytes c epoch (subs st')
     \<le> amount_at spnt c + held (queue (subs st) c) + seed_bytes c epoch (subs st)"
    using assms(1)
  proof (induction cs arbitrary: st contrib spnt)
    case (Cons ch cs)
    obtain q d cum ts where ch: "ch = (q, d, cum, ts)" by (cases ch)
    from Cons.prems obtain s k n where step: "cheque_step epoch (q, d, cum, ts) (st, contrib, spnt) = Some (s, k, n)"
      and loop: "cheque_loop epoch cs (s, k, n) = Some (st', contrib', spnt')"
      by (auto simp: ch split: option.splits)
    have "amount_at n c + held (queue (subs s) c) + seed_bytes c epoch (subs s)
      \<le> amount_at spnt c + held (queue (subs st) c) + seed_bytes c epoch (subs st)"
      using cheque_step_Some(2) [OF step]
    proof (elim disjE exE conjE)
      fix r b assume a: "allocate d b epoch (subs st) = (r, subs s)"
        and n: "if r = 0 then (k, n, rewardable s) = (contrib, spnt, rewardable st)
          else bump q r contrib = Some k \<and> bump d r spnt = Some n \<and> bump q r (rewardable st) = Some (rewardable s)"
      have "amount_at n c = amount_at spnt c + (if d = c then unat r else 0)"
        using n bump_amount [of d r spnt n c] by (cases "r = 0") simp_all
      then show ?thesis using allocate_potential [OF a assms(2), of c] by simp
    qed simp
    then show ?case using Cons.IH [OF loop] by simp
  qed simp
  then show ?thesis by simp
qed

text \<open>What the loop credits to providers, in the epoch and for good, is what it charges to consumers.\<close>

lemma cheque_loop_credits:
  assumes "cheque_loop epoch cs (st, k, n) = Some (st', k', n')" "bt_inv k" "bt_inv n"
  shows "bt_inv k' \<and> bt_inv n' \<and> map_total k' + map_total n = map_total n' + map_total k
    \<and> amount_at (rewardable st') p + amount_at k p = amount_at (rewardable st) p + amount_at k' p"
  using assms
proof (induction cs arbitrary: st k n)
  case (Cons ch cs)
  obtain q d cum ts where ch: "ch = (q, d, cum, ts)" by (cases ch)
  from Cons.prems obtain s k1 n1 where step: "cheque_step epoch (q, d, cum, ts) (st, k, n) = Some (s, k1, n1)"
    and loop: "cheque_loop epoch cs (s, k1, n1) = Some (st', k', n')"
    by (auto simp: ch split: option.splits)
  have "bt_inv k1 \<and> bt_inv n1 \<and> map_total k1 + map_total n = map_total n1 + map_total k
    \<and> amount_at (rewardable s) p + amount_at k p = amount_at (rewardable st) p + amount_at k1 p"
    using cheque_step_Some(2) [OF step]
  proof (elim disjE exE conjE)
    fix r b
    assume b: "if r = 0 then (k1, n1, rewardable s) = (k, n, rewardable st)
        else bump q r k = Some k1 \<and> bump d r n = Some n1 \<and> bump q r (rewardable st) = Some (rewardable s)"
    show ?thesis
    proof (cases "r = 0")
      case False
      then have "bump q r k = Some k1" "bump d r n = Some n1" "bump q r (rewardable st) = Some (rewardable s)" using b by simp_all
      from bump_map_total [OF this(1)] bump_map_total [OF this(2)] bump_amount [OF this(1), of p] bump_amount [OF this(3), of p]
      show ?thesis using Cons.prems(2,3) by simp
    qed (use b Cons.prems(2,3) in simp)
  qed (use Cons.prems(2,3) in simp)
  with Cons.IH [OF loop] show ?case by auto
qed simp

text \<open>A loop that fills an empty map from rows with ascending keys writes exactly one entry per row.\<close>

lemma max_zero: "max 0 b = b" for b :: "'a::len word"
  by (simp add: max_def)

lemma fold_fresh:
  assumes "bt_inv (map (\<lambda>x. (kf x, vf x None)) xs)"
  shows "fold (\<lambda>x m. bt_insert (kf x) (vf x (bt_get m (kf x))) m) xs [] = map (\<lambda>x. (kf x, vf x None)) xs"
proof (rule bt_ext)
  have "distinct (map kf ys) \<Longrightarrow> fold (\<lambda>x acc. Some (vf x acc)) (filter (\<lambda>x. kf x = k) ys) None
      = bt_get (map (\<lambda>x. (kf x, vf x None)) ys) k" for ys k
  proof (induction ys)
    case (Cons y ys)
    then have "filter (\<lambda>x. kf x = kf y) ys = []" by (auto simp: filter_empty_conv) (metis image_eqI)
    with Cons show ?case by (cases "kf y = k") auto
  qed simp
  moreover have "distinct (map kf xs)" using bt_inv_distinct [OF assms] by (simp add: comp_def)
  ultimately show "bt_get (fold (\<lambda>x m. bt_insert (kf x) (vf x (bt_get m (kf x))) m) xs []) k
    = bt_get (map (\<lambda>x. (kf x, vf x None)) xs) k" for k by (simp add: bt.get_accumulate)
qed (use assms in \<open>simp_all add: bt.inv_accumulate\<close>)

lemma ucast_back: "(ucast (ucast b :: u128) :: u64) = b"
proof -
  have "unat (ucast b :: u128) = unat b" by (rule unat_ucast_up) simp
  then show ?thesis using unat_lt [of b] by (simp add: word_unat_eq_iff unat_ucast_down del: unsigned_less)
qed

lemma record_contributions:
  assumes "compute hash i = Some r" "bt_inv contrib"
    and "contributions i = map (\<lambda>(p, b). \<lparr>provider = p, bytes_served = b, cumulative_bytes = g p\<rparr>) contrib"
  shows "map (\<lambda>s. (sh_provider s, sh_bytes s)) (shares r) = contrib"
proof -
  have inv: "bt_inv (map (\<lambda>x. (provider x, add_contribution x None)) (contributions i))"
    using assms(2) by (simp add: assms(3) bt_inv_def comp_def case_prod_beta')
  have rows: "by_provider (contributions i) = map (\<lambda>(p, b). (p, ucast b, g p)) contrib"
    unfolding by_provider_def fold_fresh [where kf = provider and vf = add_contribution, OF inv] by (simp add: assms(3) add_contribution_def case_prod_beta' max_zero)
  have "list_all2 (\<lambda>x s. (sh_provider s, sh_bytes s) = x) contrib (shares r)"
    using compute_shares [OF assms(1)] unfolding rows list_all2_map1
    by (rule list_all2_mono) (auto simp: make_share_fields ucast_back split: prod.splits)
  then show ?thesis by (induction rule: list_all2_induct) auto
qed

lemma find_share:
  "(case List.find (\<lambda>s. sh_provider s = p) ss of None \<Rightarrow> 0 | Some s \<Rightarrow> sh_bytes s)
     = bt_get_or 0 (map (\<lambda>s. (sh_provider s, sh_bytes s)) ss) p"
  by (induction ss) (auto simp: bt_get_or_def)

lemma record_entitlements:
  assumes "compute hash i = Some r" "sorted_wrt (<) (map consumer (in_entitlements i))"
  shows "entitlements r = in_entitlements i"
proof -
  have inv: "bt_inv (map (\<lambda>e. (consumer e, add_entitlement e None)) (in_entitlements i))"
    using assms(2) by (simp add: bt_inv_def comp_def)
  have none: "add_entitlement e None = (spent e, remaining e)" for e
    using unat_le_max [of "spent e"] by (simp add: add_entitlement_def max_zero word_unat_eq_iff unat_sat_add)
  have "entitlements r = map (\<lambda>(c, s, r). \<lparr>consumer = c, spent = s, remaining = r\<rparr>) (by_consumer (in_entitlements i))"
    using assms(1) by (auto simp: compute_def Let_def)
  also have "\<dots> = in_entitlements i" unfolding by_consumer_def fold_fresh [where kf = consumer and vf = add_entitlement, OF inv] by (simp add: none comp_def map_idI)
  finally show ?thesis .
qed

lemma bt_inv_map_snd: "bt_inv (map (\<lambda>(k, v). (k, f k v)) m) \<longleftrightarrow> bt_inv m"
  by (simp add: bt_inv_def comp_def case_prod_beta')

definition add_balances :: "(bytes32 \<times> u64) list \<Rightarrow> (bytes32, u64 \<times> u64) btree \<Rightarrow> (bytes32, u64 \<times> u64) btree" where
  "add_balances bals m = fold (\<lambda>(c, r) m. bt_insert c (fst (bt_get_or (0, 0) m c), r) m) bals m"

lemma add_balances_facts:
  "bt_inv m \<Longrightarrow> bt_inv (add_balances bals m)
    \<and> (\<Sum>x\<leftarrow>add_balances bals m. unat (fst (snd x))) = (\<Sum>x\<leftarrow>m. unat (fst (snd x)))
    \<and> fst (bt_get_or (0, 0) (add_balances bals m) c) = fst (bt_get_or (0, 0) m c)"
proof (induction bals arbitrary: m)
  case (Cons b bals)
  obtain d r where b: "b = (d, r)" by (cases b)
  let ?m = "bt_insert d (fst (bt_get_or (0, 0) m d), r) m"
  have "(\<Sum>x\<leftarrow>?m. unat (fst (snd x))) = (\<Sum>x\<leftarrow>m. unat (fst (snd x)))"
    using sum_bt_insert_old [OF Cons.prems, where f = "\<lambda>v. unat (fst v)" and k = d and v = "(fst (bt_get_or (0, 0) m d), r)"]
    by (cases "bt_get m d") (auto simp: bt_get_or_def)
  moreover have "fst (bt_get_or (0, 0) ?m c) = fst (bt_get_or (0, 0) m c)" by (simp add: bt_get_or_def)
  moreover have "add_balances (b # bals) m = add_balances bals ?m" by (simp add: add_balances_def b)
  ultimately show ?case using Cons.IH [of ?m] Cons.prems by simp
qed (simp add: add_balances_def)

lemma entitlement_rows_facts:
  assumes inv: "bt_inv spnt"
  shows "sorted_wrt (<) (map consumer (entitlement_rows spnt bals))"
    and "(\<Sum>e\<leftarrow>entitlement_rows spnt bals. unat (spent e)) = map_total spnt"
    and "(case List.find (\<lambda>e. consumer e = c) (entitlement_rows spnt bals) of None \<Rightarrow> 0 | Some e \<Rightarrow> spent e) = bt_get_or 0 spnt c"
proof -
  let ?row1 = "map (\<lambda>(c, b). (c, b, 0 :: u64)) spnt" and ?e = "\<lambda>(c, s, r). \<lparr>consumer = c, spent = s, remaining = r\<rparr>"
  have inv1: "bt_inv ?row1" using inv by (simp add: bt_inv_map_snd)
  have "fold (\<lambda>(c, b) m. bt_insert c (b, snd (bt_get_or (0, 0) m c)) m) spnt [] = ?row1"
    using fold_fresh [of fst "\<lambda>x old. (snd x, snd (case old of None \<Rightarrow> (0, 0) | Some v \<Rightarrow> v))" spnt] inv1
    by (simp add: bt_get_or_def case_prod_beta')
  then have es: "entitlement_rows spnt bals = map ?e (add_balances bals ?row1)"
    by (simp add: entitlement_rows_def add_balances_def)
  note ab = add_balances_facts [OF inv1, of bals c]
  show "sorted_wrt (<) (map consumer (entitlement_rows spnt bals))"
    using ab by (simp add: es bt_inv_def comp_def case_prod_beta')
  have "(\<Sum>x\<leftarrow>?row1. unat (fst (snd x))) = map_total spnt" by (simp add: map_total_def comp_def case_prod_beta')
  then show "(\<Sum>e\<leftarrow>entitlement_rows spnt bals. unat (spent e)) = map_total spnt"
    using ab by (simp add: es comp_def case_prod_beta')
  have "(case List.find (\<lambda>e. consumer e = c) (map ?e m) of None \<Rightarrow> 0 | Some e \<Rightarrow> spent e) = fst (bt_get_or (0, 0) m c)" for m
    by (induction m) (auto simp: bt_get_or_def)
  moreover have "fst (bt_get_or (0, 0) (map (\<lambda>(c, b). (c, b, 0)) m) c) = bt_get_or 0 m c" for m :: "(bytes32, u64) btree"
    by (induction m) (auto simp: bt_get_or_def)
  ultimately show "(case List.find (\<lambda>e. consumer e = c) (entitlement_rows spnt bals) of None \<Rightarrow> 0 | Some e \<Rightarrow> spent e) = bt_get_or 0 spnt c"
    using ab by (simp add: es)
qed

text \<open>(C23) Self-dealing nets at most what was paid for. When an epoch before the last is closed from cheques for the first time, and
  the payments list each participant once, then in the record: what is charged to a consumer is at most the entitlement it held, what its
  payment since the last close buys, and at most one seeding allowance, whatever cheques are presented and in whatever order;
  the bytes the shares reward are in total exactly what is charged to consumers, each of whom has one row; and a provider's running total
  of rewarded bytes grows by exactly the bytes of its share.\<close>

theorem rewarded_within_entitlement:
  assumes "settle_epoch_from_cheques hash epoch paid cheques st = Some (r, st')" "bt_get (records st) epoch = None"
    and "distinct (map fst paid)" "epoch < - 1"
  shows "unat (spent_by r c) \<le> held (queue (subs st) c) + delta_bytes st paid c + seed_bytes c epoch (subs st)
    \<and> distinct (map consumer (entitlements r))
    \<and> (\<Sum>s\<leftarrow>shares r. unat (sh_bytes s)) = (\<Sum>e\<leftarrow>entitlements r. unat (spent e))
    \<and> unat (rewardable_served p st') = unat (rewardable_served p st) + unat (bytes_of r p)"
proof -
  obtain st1 st2 add contrib spnt es cs where f: "fold (pay_step epoch) paid (st, 0) = (st1, add)"
    and l: "cheque_loop epoch (sort_key (\<lambda>(p, c, cum, ts). (ts, p, c)) cheques) (st1, [], []) = Some (st2, contrib, spnt)"
    and s: "settle_epoch hash epoch cs es (pay_in add st2) = Some (r, st')" "bt_get (records (pay_in add st2)) epoch = None"
    and cs: "cs = map (\<lambda>(p, b). \<lparr>provider = p, bytes_served = b, cumulative_bytes = bt_get_or 0 (rewardable st2) p\<rparr>) contrib"
    and es: "es = entitlement_rows spnt (balances epoch (subs st2))"
    by (rule settle_from_cheques_Some [OF assms(1,2)])
  note sf = settle_epoch_Some [OF s]
  have cr: "bt_inv contrib" "bt_inv spnt" "map_total contrib = map_total spnt"
    "amount_at (rewardable st2) p = amount_at (rewardable st1) p + amount_at contrib p"
    using cheque_loop_credits [OF l, of p] by (simp_all add: map_total_def amount_at_def bt_get_or_def)
  note er = entitlement_rows_facts [OF cr(2), where bals = "balances epoch (subs st2)"]
  have ent: "entitlements r = es"
    using record_entitlements [OF sf(1)] er(1) by (simp add: settle_input_def es)
  have sh: "map (\<lambda>s. (sh_provider s, sh_bytes s)) (shares r) = contrib"
    using sf(1) cr(1) by (rule record_contributions [where g = "bt_get_or 0 (rewardable st2)"]) (simp add: settle_input_def cs)
  have "spent_by r c = bt_get_or 0 spnt c" using er(3) [of c] by (simp add: spent_by_def ent es)
  moreover have "amount_at spnt c \<le> held (queue (subs st) c) + delta_bytes st paid c + seed_bytes c epoch (subs st)"
    using cheque_loop_spent [OF l assms(4), of c] pay_loop_held [OF assms(3), of epoch st 0 c] f
    by (simp add: amount_at_def bt_get_or_def)
  moreover have "bytes_of r p = bt_get_or 0 contrib p"
    by (simp add: bytes_of_def find_share flip: sh)
  moreover have "(\<Sum>s\<leftarrow>shares r. unat (sh_bytes s)) = map_total contrib" by (simp add: map_total_def flip: sh) (simp add: comp_def)
  moreover have "rewardable st' = rewardable st2" "rewardable st1 = rewardable st"
    using sf(9) pay_loop_keeps [of epoch paid "(st, 0)"] f by (simp_all add: pay_in_def)
  moreover have "distinct (map consumer (entitlements r))"
    using er(1) by (simp add: ent es strict_sorted_iff)
  ultimately show ?thesis using cr(3,4) er(2) by (simp add: ent es amount_at_def rewardable_served_def)
qed

section \<open>Snapshots\<close>

lemma merge_into_empty: "bt_inv m \<Longrightarrow> fold (\<lambda>(k, n) a. bt_insert k (max (bt_get_or 0 a k) n) a) m [] = (m :: ('k::linorder, u64) btree)"
  using fold_fresh [of fst "\<lambda>x old. max (case old of None \<Rightarrow> 0 | Some v \<Rightarrow> v) (snd x)" m]
  by (simp add: bt_get_or_def case_prod_beta' max_zero)

lemma bt_of_list_get: "bt_get (fold (\<lambda>(k, v). bt_insert k v) xs m) k = (case map_of (rev xs) k of None \<Rightarrow> bt_get m k | Some v \<Rightarrow> Some v)"
  by (induction xs arbitrary: m) (auto simp: map_add_def split: option.splits)

lemma bt_inv_fold_insert: "bt_inv m \<Longrightarrow> bt_inv (fold (\<lambda>(k, v). bt_insert k v) xs m)"
  by (induction xs arbitrary: m) auto

lemma bt_of_list_id: "bt_inv m \<Longrightarrow> bt_of_list m = m"
proof (rule bt_ext)
  assume inv: "bt_inv m"
  then have "map_of (rev m) = map_of m"
    using map_of_inject_set [of "rev m" m] bt_inv_distinct [OF inv] by (simp add: rev_map flip: rev_map)
  then show "bt_get (bt_of_list m) k = bt_get m k" for k
    by (simp add: bt_of_list_def bt_of_list_get) (simp add: bt_get_def split: option.split)
qed (auto simp: bt_of_list_def bt_inv_fold_insert)

definition store_inv :: "settlement_store \<Rightarrow> bool" where
  "store_inv st \<longleftrightarrow> bt_inv (paid_watermark st) \<and> bt_inv (served_pair_wm st) \<and> bt_inv (sl_seeding_next (subs st)) \<and> bt_inv (claimed st)"

text \<open>(C35) A restart recovers the committed position. Restoring the snapshot of a store into a store that has no seeding
  eligibility yet replaces exactly the pool, the paid and served watermarks, the seeding eligibility and the claims by those of the
  store the snapshot was taken of, and leaves every other field alone; the supply becomes the greater of the two known and the
  cap stays. So whatever was claimed before the restart pays nothing after it.\<close>

theorem restore_snapshot:
  assumes "store_inv st" "sl_seeding_next (subs st0) = []"
  shows "restore (snapshot st) st0 = st0\<lparr>
      protocol := \<lparr>ps_supply = \<lparr>minted = max (minted (ps_supply (protocol st0))) (minted (ps_supply (protocol st))),
        sup_cap = sup_cap (ps_supply (protocol st0))\<rparr>, pool = pool (protocol st)\<rparr>,
      paid_watermark := paid_watermark st, served_pair_wm := served_pair_wm st,
      subs := (subs st0)\<lparr>sl_seeding_next := sl_seeding_next (subs st)\<rparr>, claimed := claimed st\<rparr>
    \<and> (is_claimed st e p \<longrightarrow> fst (claim e p (restore (snapshot st) st0)) = 0)"
proof -
  have c: "bt_of_list (map (\<lambda>x. (x, ())) (map fst (claimed st))) = claimed st"
  proof -
    have "map (\<lambda>x. (x, ())) (map fst m) = m" for m :: "((u64 \<times> bytes32) \<times> unit) list" by (induction m) auto
    then show ?thesis using assms(1) by (simp add: store_inv_def bt_of_list_id)
  qed
  have "restore_seeding_eligibility (sl_seeding_next (subs st)) (subs st0) = (subs st0)\<lparr>sl_seeding_next := sl_seeding_next (subs st)\<rparr>"
    using assms by (simp add: restore_seeding_eligibility_def merge_into_empty store_inv_def)
  then show ?thesis using assms(1) c
    by (simp add: snapshot_def restore_def supply_new_def total_supply_def seeding_eligibility_def bt_of_list_id store_inv_def
        claim_def is_claimed_def Let_def split: option.split)
qed

section \<open>Witnesses\<close>

text \<open>A store that settled epoch 1: provider 1 was owed 100, the whole pool; the flag says whether it claimed.\<close>

definition wit_record :: reward_record where
  "wit_record = \<lparr>r_epoch = 1, r_pool = 100, shares = [\<lparr>sh_provider = 1, sh_amount = 100, sh_bytes = 5, sh_cumulative = 5\<rparr>],
     entitlements = [], issued = 0, checkpoint = None, paid_marks = [], r_served_marks = [], committed_pool = 100,
     r_state_hash = 0, cumulative_issued = 7\<rparr>"

definition wit_settled :: "bool \<Rightarrow> settlement_store" where
  "wit_settled done = settlement_new\<lparr>protocol := \<lparr>ps_supply = supply_new 7 1000, pool = 100\<rparr>, records := [(1, wit_record)],
     issuance_tokens_per_day := 0, claimed := (if done then [((1, 1), ())] else []), pending_payouts := (if done then 100 else 0)\<rparr>"

definition wit_contribution :: contribution where
  "wit_contribution = \<lparr>provider = 2, bytes_served = 9, cumulative_bytes = 9\<rparr>"

lemma wit_settled_simps:
  "bt_get (records (wit_settled d)) 2 = None" "owed_nat (wit_settled d) = (if d then 0 else 100)" "backing (wit_settled d) = 100"
  "\<not> is_claimed (wit_settled d) 2 p" "pending_payouts (wit_settled d) = (if d then 100 else 0)"
  by (simp_all add: wit_settled_def wit_record_def owed_nat_rows owed_row_def is_claimed_def backing_def settlement_new_def)

lemma wit_settles:
  "\<exists>r st'. settle_epoch (\<lambda>b. 0) 2 [wit_contribution] [] (wit_settled d) = Some (r, st') \<and> issued r = 0"
proof -
  let ?i = "settle_input 2 [wit_contribution] [] (expire 2 (wit_settled d))"
  have len: "length (contributions ?i) < 2 ^ 64" by (simp add: settle_input_def)
  have "served_by (contributions ?i) p < 2 ^ 64" for p
    by (simp add: settle_input_def served_by_def wit_contribution_def)
  from compute_returns [OF len this] obtain r where r: "compute (\<lambda>b. 0) ?i = Some r" by blast
  have "tokens_per_day (issuance ?i) = 0"
    by (simp add: settle_input_def expire_eq wit_settled_def settlement_new_def)
  then have "issued r = 0" using r by (auto simp: compute_def Let_def issuance_for_def)
  with r show ?thesis by (auto simp: settle_epoch_def wit_settled_simps Let_def case_prod_beta)
qed

theorem settle_backed_witness:
  "\<exists>r st'. settle_epoch (\<lambda>b. 0) 2 [wit_contribution] [] (wit_settled False) = Some (r, st')
     \<and> owed_nat st' \<le> backing st' \<and> unat (pool (protocol st')) = 100"
proof -
  obtain r st' where s: "settle_epoch (\<lambda>b. 0) 2 [wit_contribution] [] (wit_settled False) = Some (r, st')" "issued r = 0"
    using wit_settles by blast
  from settle_backed [OF s(1)] s show ?thesis by (auto simp: wit_settled_simps)
qed

theorem claims_redistributed_witness:
  "\<exists>r st'. settle_epoch (\<lambda>b. 0) 2 [wit_contribution] [] (wit_settled True) = Some (r, st')
     \<and> owed_nat st' = unat (pool (protocol st')) + 100"
proof -
  obtain r st' where s: "settle_epoch (\<lambda>b. 0) 2 [wit_contribution] [] (wit_settled True) = Some (r, st')" "issued r = 0"
    using wit_settles by blast
  from claims_redistributed [OF s(1)] s show ?thesis by (auto simp: wit_settled_simps wit_contribution_def)
qed

theorem issuance_matches_mint_witness:
  "\<exists>r st'. settle_epoch (\<lambda>b. 0) 2 [wit_contribution] [] (wit_settled False) = Some (r, st') \<and> cumulative_issued r = 7"
proof -
  obtain r st' where s: "settle_epoch (\<lambda>b. 0) 2 [wit_contribution] [] (wit_settled False) = Some (r, st')" "issued r = 0"
    using wit_settles by blast
  have sup: "total_supply (ps_supply (protocol (wit_settled False))) = 7" "sup_cap (ps_supply (protocol (wit_settled False))) = 1000"
    by (simp_all add: wit_settled_def supply_new_def total_supply_def)
  from issuance_matches_mint [OF s(1)] have "unat (cumulative_issued r) = 7" by (auto simp: wit_settled_simps sup s(2))
  then have "cumulative_issued r = 7" by (simp add: word_unat_eq_iff)
  with s show ?thesis by blast
qed

theorem restore_snapshot_witness:
  "claimed (restore (snapshot (wit_settled True)) settlement_new) = [((1, 1), ())]
     \<and> pool (protocol (restore (snapshot (wit_settled True)) settlement_new)) = 100
     \<and> fst (claim 1 1 (restore (snapshot (wit_settled True)) settlement_new)) = 0"
proof -
  have inv: "store_inv (wit_settled True)" by (simp add: store_inv_def wit_settled_def settlement_new_def sub_new_def)
  have fresh: "sl_seeding_next (subs settlement_new) = []" by (simp add: settlement_new_def sub_new_def)
  have cl: "is_claimed (wit_settled True) 1 1" by (simp add: is_claimed_def wit_settled_def)
  note r = restore_snapshot [OF inv fresh, of 1 1]
  show ?thesis
    using conjunct2 [OF r] cl arg_cong [OF conjunct1 [OF r], of claimed] arg_cong [OF conjunct1 [OF r], of "\<lambda>s. pool (protocol s)"]
    by (intro conjI) (simp_all add: wit_settled_def)
qed

lemma settle_short:
  assumes "length cs \<le> 1"
  shows "\<exists>r st'. settle_epoch hash e cs es st = Some (r, st')"
proof (cases "bt_get (records st) e")
  case None
  let ?i = "settle_input e cs es (expire e st)"
  have len: "length (contributions ?i) < 2 ^ 64" using assms by (simp add: settle_input_def)
  have "served_by (contributions ?i) p < 2 ^ 64" for p
    using assms unat_lt [of "bytes_served (hd cs)"]
    by (cases cs) (auto simp: settle_input_def served_by_def simp del: unsigned_less)
  from compute_returns [OF len this] None show ?thesis by (auto simp: settle_epoch_def Let_def case_prod_beta)
qed (simp add: settle_epoch_def)

lemma bump_empty: "bump k r [] = Some [(k, r)]"
  using unat_lt [of r] by (simp add: bump_def bt_get_or_def checked_add_def del: unsigned_less)

lemma one_cheque:
  assumes "rewardable st = []"
  shows "\<exists>st' k n. cheque_loop e [(p, c, cum, ts)] (st, [], []) = Some (st', k, n) \<and> length k \<le> 1"
  using assms
  by (auto simp: cheque_step_def Let_def credit_def bump_empty mark_served_def split: prod.splits)

definition wit_cheques :: "cheque_row list" where
  "wit_cheques = [(2, 1, 5, 0)]"

lemma wit_cheques_sorted: "sort_key (\<lambda>(p, c, cum, ts). (ts, p, c)) wit_cheques = wit_cheques"
  by (simp add: wit_cheques_def)

lemma wit_from_cheques:
  obtains r st' sa k n where "settle_epoch_from_cheques (\<lambda>b. 0) 3 [] wit_cheques settlement_new = Some (r, st')"
    "cheque_loop 3 wit_cheques (settlement_new, [], []) = Some (sa, k, n)"
    "settle_epoch (\<lambda>b. 0) 3 (map (\<lambda>(p, b). \<lparr>provider = p, bytes_served = b, cumulative_bytes = bt_get_or 0 (rewardable (pay_in 0 sa)) p\<rparr>) k)
       (entitlement_rows n (balances 3 (subs (pay_in 0 sa)))) (pay_in 0 sa) = Some (r, st')"
proof -
  have rw: "rewardable settlement_new = []" "bt_get (records settlement_new) 3 = None" by (simp_all add: settlement_new_def)
  from one_cheque [OF rw(1), of 3 2 1 5 0] obtain sa k n where
    l: "cheque_loop 3 wit_cheques (settlement_new, [], []) = Some (sa, k, n)" "length k \<le> 1" by (auto simp: wit_cheques_def)
  let ?cs = "map (\<lambda>(p, b). \<lparr>provider = p, bytes_served = b, cumulative_bytes = bt_get_or 0 (rewardable (pay_in 0 sa)) p\<rparr>) k"
  let ?es = "entitlement_rows n (balances 3 (subs (pay_in 0 sa)))"
  have "length ?cs \<le> 1" using l(2) by simp
  from settle_short [OF this] obtain r1 st1 where s: "settle_epoch (\<lambda>b. 0) 3 ?cs ?es (pay_in 0 sa) = Some (r1, st1)" by blast
  then have "settle_epoch_from_cheques (\<lambda>b. 0) 3 [] wit_cheques settlement_new = Some (r1, st1)"
    using l rw(2) by (simp add: settle_epoch_from_cheques_def wit_cheques_sorted Let_def)
  then show thesis using that l(1) s by blast
qed

theorem rewarded_within_entitlement_witness:
  "\<exists>r st'. settle_epoch_from_cheques (\<lambda>b. 0) 3 [] wit_cheques settlement_new = Some (r, st') \<and> unat (spent_by r 1) \<le> 2 ^ 40
     \<and> (\<Sum>s\<leftarrow>shares r. unat (sh_bytes s)) = (\<Sum>e\<leftarrow>entitlements r. unat (spent e))"
proof -
  obtain r st' sa k n where f: "settle_epoch_from_cheques (\<lambda>b. 0) 3 [] wit_cheques settlement_new = Some (r, st')"
    "cheque_loop 3 wit_cheques (settlement_new, [], []) = Some (sa, k, n)"
    "settle_epoch (\<lambda>b. 0) 3 (map (\<lambda>(p, b). \<lparr>provider = p, bytes_served = b, cumulative_bytes = bt_get_or 0 (rewardable (pay_in 0 sa)) p\<rparr>) k)
       (entitlement_rows n (balances 3 (subs (pay_in 0 sa)))) (pay_in 0 sa) = Some (r, st')"
    by (rule wit_from_cheques)
  have "seed_bytes 1 3 (subs settlement_new) = 2 ^ 40" "held (queue (subs settlement_new) 1) = 0" "delta_bytes settlement_new [] 1 = 0"
    "bt_get (records settlement_new) 3 = None"
    by (simp_all add: settlement_new_def sub_new_def seed_bytes_def seeding_due_def queue_def bt_get_or_def delta_bytes_def
        SEEDING_PAID_TIER_BYTES_def)
  with rewarded_within_entitlement [OF f(1), of 1] f(1) show ?thesis by auto
qed

theorem replayed_cheques_earn_nothing_witness:
  "\<exists>r1 st1 r2 st2. settle_epoch_from_cheques (\<lambda>b. 0) 3 [] wit_cheques settlement_new = Some (r1, st1)
     \<and> settle_epoch_from_cheques (\<lambda>b. 0) 4 [] wit_cheques st1 = Some (r2, st2) \<and> shares r2 = []"
proof -
  obtain r1 st1 sa k n where f1: "settle_epoch_from_cheques (\<lambda>b. 0) 3 [] wit_cheques settlement_new = Some (r1, st1)"
    and l: "cheque_loop 3 wit_cheques (settlement_new, [], []) = Some (sa, k, n)"
    and s: "settle_epoch (\<lambda>b. 0) 3 (map (\<lambda>(p, b). \<lparr>provider = p, bytes_served = b, cumulative_bytes = bt_get_or 0 (rewardable (pay_in 0 sa)) p\<rparr>) k)
       (entitlement_rows n (balances 3 (subs (pay_in 0 sa)))) (pay_in 0 sa) = Some (r1, st1)"
    by (rule wit_from_cheques)
  have new: "bt_get (records settlement_new) 3 = None" by (simp add: settlement_new_def)
  have rec: "records (pay_in 0 sa) = []" using cheque_loop_wm [OF l] by (simp add: pay_in_def settlement_new_def)
  have none: "bt_get (records st1) 4 = None"
    using s by (auto simp: settle_epoch_def rec Let_def case_prod_beta expire_eq(1))
  have "wm st1 2 1 = wm sa 2 1" using settle_epoch_Some(5) [OF s] rec by (simp add: wm_def pay_in_def)
  moreover have "5 \<le> wm sa 2 1" using cheque_loop_wm [OF l, of 2 1] by (simp add: wit_cheques_def)
  ultimately have "\<forall>(p, c, cum, ts) \<in> set wit_cheques. cum \<le> wm st1 p c" by (simp add: wit_cheques_def)
  from cheque_loop_stale [OF this] obtain sb where l2: "cheque_loop 4 wit_cheques (st1, [], []) = Some (sb, [], [])" by blast
  obtain r2 st2 where "settle_epoch (\<lambda>b. 0) 4 [] (entitlement_rows [] (balances 4 (subs (pay_in 0 sb)))) (pay_in 0 sb) = Some (r2, st2)"
    using settle_short [of "[]"] by (metis list.size(3) zero_le)
  then have f2: "settle_epoch_from_cheques (\<lambda>b. 0) 4 [] wit_cheques st1 = Some (r2, st2)"
    using l2 none by (simp add: settle_epoch_from_cheques_def wit_cheques_sorted Let_def)
  have "\<forall>(p, c, cum, ts) \<in> set wit_cheques. \<exists>cum' ts'. (p, c, cum', ts') \<in> set wit_cheques \<and> cum \<le> cum'"
    by (simp add: wit_cheques_def)
  from replayed_cheques_earn_nothing [OF f1 new f2 none this] f1 f2 show ?thesis by blast
qed

end
