(* ===== verification/Latest_Wins.thy ===== *)
theory Latest_Wins
  imports Zeph_Prelude
begin

text \<open>
  Replicated stores that keep, per key, the acceptable entry of the highest rank: the cheque book
  (cumulative bytes), the head registry (version) and the record store of the hash table (sequence
  number). The interface is one lookup and one insertion; the lemmas are what all of them promise:
  the rank held is the maximum seen, whatever the order and repetition of the insertions, and what is
  held was once inserted and acceptable.
\<close>

definition best :: "'r::linorder set \<Rightarrow> 'r option" where
  "best R = (if R = {} then None else Some (Max R))"

lemma best_insert: "finite R \<Longrightarrow> best (insert r R) = Some (case best R of None \<Rightarrow> r | Some m \<Rightarrow> max m r)"
  by (simp add: best_def max.commute)

lemma best_singleton [simp]: "best {r} = Some r" and best_empty [simp]: "best {} = None"
  by (simp_all add: best_def)

text \<open>
  The rank held is all that replicas need to agree on. \<open>level\<close> reads it, and inserting takes the maximum.
\<close>

locale max_register =
  fixes key :: "'v \<Rightarrow> 'k" and rank :: "'v \<Rightarrow> 'r::linorder" and accept :: "'v \<Rightarrow> bool"
    and inv :: "'s \<Rightarrow> bool" and level :: "'s \<Rightarrow> 'k \<Rightarrow> 'r option" and put :: "'v \<Rightarrow> 's \<Rightarrow> 's"
  assumes inv_put: "inv s \<Longrightarrow> inv (put v s)"
    and rank_put: "inv s \<Longrightarrow> level (put v s) k =
      (if k = key v \<and> accept v then Some (case level s k of None \<Rightarrow> rank v | Some m \<Rightarrow> max m (rank v)) else level s k)"
begin

lemma inv_fold: "inv s \<Longrightarrow> inv (fold put vs s)"
  by (induction vs arbitrary: s) (simp_all add: inv_put)

lemma rank_fold:
  assumes "inv s" and "finite R" and "level s k = best R"
  shows "level (fold put vs s) k = best (R \<union> rank ` {v \<in> set vs. key v = k \<and> accept v})"
  using assms
proof (induction vs arbitrary: s R)
  case (Cons v vs)
  let ?R = "if k = key v \<and> accept v then insert (rank v) R else R"
  have "level (put v s) k = best ?R"
    unfolding rank_put [OF Cons.prems(1)] Cons.prems(3) using Cons.prems(2) by (simp add: best_insert)
  moreover have "finite ?R" using Cons.prems(2) by simp
  ultimately have "level (fold put vs (put v s)) k = best (?R \<union> rank ` {v \<in> set vs. key v = k \<and> accept v})"
    using Cons.IH [of "put v s" ?R] Cons.prems(1) by (simp add: inv_put)
  also have "?R \<union> rank ` {v \<in> set vs. key v = k \<and> accept v} = R \<union> rank ` {w \<in> set (v # vs). key w = k \<and> accept w}"
    by auto
  finally show ?case by simp
qed simp

text \<open>From an empty entry the rank held is the greatest of the acceptable ones.\<close>

lemma rank_from_empty:
  "inv s \<Longrightarrow> level s k = None \<Longrightarrow> level (fold put vs s) k = best (rank ` {v \<in> set vs. key v = k \<and> accept v})"
  using rank_fold [of s "{}" k vs] by simp

text \<open>Two replicas that saw the same entries, in any order and number, hold the same ranks.\<close>

lemma convergent:
  assumes "inv s" "inv t" "\<And>k. level s k = level t k" "set vs = set ws"
  shows "level (fold put vs s) k = level (fold put ws t) k"
proof -
  define R where "R = (case level s k of None \<Rightarrow> {} | Some r \<Rightarrow> {r})"
  have "finite R" "level s k = best R" by (auto simp: R_def split: option.split)
  then show ?thesis using rank_fold [of s R k vs] rank_fold [of t R k ws] assms by simp
qed

end

text \<open>Where the entry of the highest rank is kept as it came.\<close>

locale latest_wins =
  fixes key :: "'v \<Rightarrow> 'k" and rank :: "'v \<Rightarrow> 'r::linorder" and accept :: "'v \<Rightarrow> bool"
    and inv :: "'s \<Rightarrow> bool" and get :: "'s \<Rightarrow> 'k \<Rightarrow> 'v option" and put :: "'v \<Rightarrow> 's \<Rightarrow> 's"
  assumes inv_insert: "inv s \<Longrightarrow> inv (put v s)"
    and get_put: "inv s \<Longrightarrow> get (put v s) k =
      (if k = key v \<and> accept v \<and> (case get s k of None \<Rightarrow> True | Some w \<Rightarrow> rank w < rank v) then Some v else get s k)"

sublocale latest_wins \<subseteq> max_register key rank accept inv "\<lambda>s k. map_option rank (get s k)" put
  by unfold_locales (auto simp: inv_insert get_put max_def split: option.splits)

context latest_wins
begin

lemma rank_of_new:
  "inv s \<Longrightarrow> get s k = None \<Longrightarrow>
     map_option rank (get (fold put vs s) k) = best (rank ` {v \<in> set vs. key v = k \<and> accept v})"
  using rank_from_empty [of s k vs] by simp

lemma provenance:
  "inv s \<Longrightarrow> get (fold put vs s) k = Some v \<Longrightarrow> get s k = Some v \<or> v \<in> set vs \<and> accept v \<and> key v = k"
proof (induction vs arbitrary: s)
  case (Cons w vs)
  then have "get (put w s) k = Some v \<or> v \<in> set vs \<and> accept v \<and> key v = k" by (simp add: inv_put)
  then show ?case using Cons.prems(1) by (auto simp: get_put split: if_splits)
qed simp

lemma monotone:
  assumes "inv s" "get s k = Some v"
  shows "\<exists>w. get (fold put vs s) k = Some w \<and> rank v \<le> rank w"
  using assms
proof (induction vs arbitrary: s v)
  case (Cons x vs)
  then obtain w where "get (put x s) k = Some w" "rank v \<le> rank w"
    by (cases "k = key x \<and> accept x \<and> rank v < rank x") (auto simp: get_put)
  with Cons.IH [of "put x s" w] Cons.prems(1) show ?case by (auto simp: inv_put intro: order_trans)
qed simp

end

end
