(* ===== verification/Cheque.thy ===== *)
theory Cheque
  imports Quorum Latest_Wins
begin

text \<open>
  Serving cheques, \<open>src/crates/cheque/src/lib.rs\<close>, and the node's cheque service with its
  admission gates, \<open>src/crates/noded/src/cheque.rs\<close>. Hash maps are sorted association lists; nothing
  modelled depends on their order. The push queue, the transport and the clock stay outside: a receipt
  returns the cheque it enqueues. Atomic counters wrap, \<open>+=\<close> and \<open>sum\<close> panic on overflow.
\<close>

section \<open>Cheques\<close>

definition CHEQUE_DOMAIN :: bytes where "CHEQUE_DOMAIN = ascii ''craftec/serving-cheque/1''"

definition cheque_bytes :: "bytes32 \<Rightarrow> bytes32 \<Rightarrow> u64 \<Rightarrow> u64 \<Rightarrow> bytes" where
  "cheque_bytes server consumer cumulative timestamp =
     CHEQUE_DOMAIN @ be_bytes 32 server @ be_bytes 32 consumer @ le_bytes 8 cumulative @ le_bytes 8 timestamp"

record serving_cheque =
  ch_server :: bytes32
  ch_consumer :: bytes32
  ch_cumulative :: u64
  ch_timestamp :: u64
  consumer_sig :: bytes

definition cheque_sign :: "(bytes32 \<Rightarrow> bytes \<Rightarrow> bytes) \<Rightarrow> bytes32 \<Rightarrow> bytes32 \<Rightarrow> u64 \<Rightarrow> u64 \<Rightarrow> serving_cheque" where
  "cheque_sign sg consumer server cumulative timestamp =
     \<lparr>ch_server = server, ch_consumer = consumer, ch_cumulative = cumulative, ch_timestamp = timestamp,
      consumer_sig = sg consumer (cheque_bytes server consumer cumulative timestamp)\<rparr>"

definition cheque_verify :: "verifier \<Rightarrow> serving_cheque \<Rightarrow> bool" where
  "cheque_verify ver c = valid_sig ver (ch_consumer c)
     (cheque_bytes (ch_server c) (ch_consumer c) (ch_cumulative c) (ch_timestamp c)) (consumer_sig c)"

type_synonym cheque_issuer = "(bytes32, u64) btree"

definition issue :: "(bytes32 \<Rightarrow> bytes \<Rightarrow> bytes) \<Rightarrow> bytes32 \<Rightarrow> bytes32 \<Rightarrow> u64 \<Rightarrow> u64 \<Rightarrow> cheque_issuer
    \<Rightarrow> serving_cheque \<times> cheque_issuer" where
  "issue sg consumer server additional timestamp iss =
     (let cumulative = sat_add (bt_get_or 0 iss server) additional in
      (cheque_sign sg consumer server cumulative timestamp, bt_insert server cumulative iss))"

definition owed_to :: "cheque_issuer \<Rightarrow> bytes32 \<Rightarrow> u64" where
  "owed_to iss server = bt_get_or 0 iss server"

record cheque_book =
  book_me :: bytes32
  received :: "(bytes32, serving_cheque) btree"

definition book_new :: "bytes32 \<Rightarrow> cheque_book" where
  "book_new me = \<lparr>book_me = me, received = []\<rparr>"

definition record_cheque :: "verifier \<Rightarrow> serving_cheque \<Rightarrow> cheque_book \<Rightarrow> bool \<times> cheque_book" where
  "record_cheque ver c b =
     (if ch_server c \<noteq> book_me b \<or> \<not> cheque_verify ver c then (False, b)
      else case bt_get (received b) (ch_consumer c) of
          Some prev \<Rightarrow> if ch_cumulative c \<le> ch_cumulative prev then (False, b)
                       else (True, b\<lparr>received := bt_insert (ch_consumer c) c (received b)\<rparr>)
        | None \<Rightarrow> (True, b\<lparr>received := bt_insert (ch_consumer c) c (received b)\<rparr>))"

definition load_book :: "verifier \<Rightarrow> bytes32 \<Rightarrow> serving_cheque list \<Rightarrow> cheque_book" where
  "load_book ver me cs = fold (\<lambda>c b. snd (record_cheque ver c b)) cs (book_new me)"

definition book_total_earned :: "cheque_book \<Rightarrow> u64 option" where
  "book_total_earned b = checked_sum (map (ch_cumulative \<circ> snd) (received b)) 0"

definition latest_from :: "cheque_book \<Rightarrow> bytes32 \<Rightarrow> serving_cheque option" where
  "latest_from b consumer = bt_get (received b) consumer"

definition cheques_of :: "cheque_book \<Rightarrow> serving_cheque list" where
  "cheques_of b = map snd (received b)"

fun quota_loop :: "serving_cheque list \<Rightarrow> u64 \<Rightarrow> (bytes32, u64 \<times> u64) btree \<Rightarrow> (bytes32, u64 \<times> u64) btree" where
  "quota_loop [] remaining out = out"
| "quota_loop (c # cs) remaining out =
     (let paid = min remaining (ch_cumulative c) in
      quota_loop cs (remaining - paid) (bt_insert (ch_server c) (paid, ch_cumulative c - paid) out))"

definition allocate_quota :: "serving_cheque list \<Rightarrow> u64 \<Rightarrow> (bytes32, u64 \<times> u64) btree" where
  "allocate_quota cheques quota = quota_loop (sort_key (\<lambda>c. (ch_timestamp c, ch_server c)) cheques) quota []"

section \<open>The service\<close>

definition CREDIT_BAND :: u64 where "CREDIT_BAND = 4 * 1024 * 1024"
definition DEFAULT_COLD_START_GRANT :: u64 where "DEFAULT_COLD_START_GRANT = push_bit 30 1"
definition DEFAULT_PEER_GRANT :: u64 where "DEFAULT_PEER_GRANT = 256 * 1024 * 1024"
definition DEFAULT_STORAGE_GRANT :: u64 where "DEFAULT_STORAGE_GRANT = 256 * 1024 * 1024"

record cheque_service =
  cs_me :: bytes32
  issuer :: cheque_issuer
  book :: cheque_book
  pending :: "(bytes32, u64) btree"
  consumed :: u64
  paid_consumed :: u64
  cs_grant :: u64
  peer_grant :: u64
  pinned :: u64
  storage_grant :: u64
  my_paid :: u64
  peer_paid :: "(bytes32, u64) btree"

definition service_new :: "bytes32 \<Rightarrow> cheque_service" where
  "service_new me = \<lparr>cs_me = me, issuer = [], book = book_new me, pending = [], consumed = 0, paid_consumed = 0,
     cs_grant = DEFAULT_COLD_START_GRANT, peer_grant = DEFAULT_PEER_GRANT, pinned = 0,
     storage_grant = DEFAULT_STORAGE_GRANT, my_paid = 0, peer_paid = []\<rparr>"

definition set_my_paid :: "u64 \<Rightarrow> cheque_service \<Rightarrow> cheque_service" where
  "set_my_paid paid s = s\<lparr>my_paid := paid\<rparr>"

definition set_peer_paid :: "bytes32 \<Rightarrow> u64 \<Rightarrow> cheque_service \<Rightarrow> cheque_service" where
  "set_peer_paid peer paid s = s\<lparr>peer_paid := bt_insert peer paid (peer_paid s)\<rparr>"

definition set_grant :: "u64 \<Rightarrow> cheque_service \<Rightarrow> cheque_service" where
  "set_grant g s = s\<lparr>cs_grant := g\<rparr>"

definition set_peer_grant :: "u64 \<Rightarrow> cheque_service \<Rightarrow> cheque_service" where
  "set_peer_grant g s = s\<lparr>peer_grant := g\<rparr>"

definition set_storage_grant :: "u64 \<Rightarrow> cheque_service \<Rightarrow> cheque_service" where
  "set_storage_grant g s = s\<lparr>storage_grant := g\<rparr>"

definition svc_total_earned :: "cheque_service \<Rightarrow> u64 option" where
  "svc_total_earned s = book_total_earned (book s)"

definition pin_admits :: "u64 \<Rightarrow> cheque_service \<Rightarrow> (bool \<times> cheque_service) option" where
  "pin_admits bytes s = map_option (\<lambda>earned.
     let budget = sat_add earned (storage_grant s) in
     if sat_add (pinned s) bytes \<le> budget then (True, s\<lparr>pinned := pinned s + bytes\<rparr>) else (False, s))
     (svc_total_earned s)"

definition should_serve :: "bytes32 \<Rightarrow> u64 \<Rightarrow> cheque_service \<Rightarrow> bool" where
  "should_serve peer bytes s = (if bt_get_or 0 (peer_paid s) peer > 0 then True
     else let served_to_peer = (case latest_from (book s) peer of None \<Rightarrow> 0 | Some c \<Rightarrow> ch_cumulative c);
              peer_served_me = owed_to (issuer s) peer in
       sat_add served_to_peer bytes \<le> sat_add peer_served_me (peer_grant s))"

definition reciprocity_admits :: "u64 \<Rightarrow> cheque_service \<Rightarrow> bool option" where
  "reciprocity_admits bytes s = (if my_paid s > 0 then Some True
     else map_option (\<lambda>earned. sat_add (consumed s) bytes \<le> sat_add earned (cs_grant s)) (svc_total_earned s))"

record reciprocity =
  rc_earned :: u64
  rc_consumed :: u64
  rc_paid_consumed :: u64
  rc_paid :: u64
  rc_grant :: u64
  rc_peer_grant :: u64
  rc_storage_grant :: u64
  rc_pinned :: u64

definition reciprocity_snapshot :: "cheque_service \<Rightarrow> reciprocity option" where
  "reciprocity_snapshot s = map_option (\<lambda>earned.
     \<lparr>rc_earned = earned, rc_consumed = consumed s, rc_paid_consumed = paid_consumed s, rc_paid = my_paid s,
      rc_grant = cs_grant s, rc_peer_grant = peer_grant s, rc_storage_grant = storage_grant s, rc_pinned = pinned s\<rparr>)
     (svc_total_earned s)"

definition serving_proof :: "cheque_service \<Rightarrow> serving_cheque list" where
  "serving_proof s = cheques_of (book s)"

definition load_cheques :: "verifier \<Rightarrow> serving_cheque list \<Rightarrow> cheque_service \<Rightarrow> cheque_service" where
  "load_cheques ver cs s = s\<lparr>book := fold (\<lambda>c b. snd (record_cheque ver c b)) cs (book s)\<rparr>"

text \<open>One inbound frame of \<open>serve\<close>.\<close>

definition serve_frame :: "verifier \<Rightarrow> (bytes \<Rightarrow> serving_cheque option) \<Rightarrow> bytes \<Rightarrow> cheque_service \<Rightarrow> cheque_service" where
  "serve_frame ver from_bytes frame s = (case from_bytes frame of None \<Rightarrow> s
     | Some c \<Rightarrow> s\<lparr>book := snd (record_cheque ver c (book s))\<rparr>)"

definition on_bytes_received :: "(bytes32 \<Rightarrow> bytes \<Rightarrow> bytes) \<Rightarrow> u64 \<Rightarrow> bytes32 \<Rightarrow> u64 \<Rightarrow> cheque_service
    \<Rightarrow> (serving_cheque option \<times> cheque_service) option" where
  "on_bytes_received sg now_millis provider bytes s =
     (let s = (if my_paid s > 0 then s\<lparr>paid_consumed := paid_consumed s + bytes\<rparr> else s\<lparr>consumed := consumed s + bytes\<rparr>) in
      case checked_add (bt_get_or 0 (pending s) provider) bytes of
        None \<Rightarrow> None
      | Some acc \<Rightarrow>
          if acc \<ge> CREDIT_BAND
          then (case issue sg (cs_me s) provider acc now_millis (issuer s) of (c, iss) \<Rightarrow>
                  Some (Some c, s\<lparr>pending := bt_insert provider 0 (pending s), issuer := iss\<rparr>))
          else Some (None, s\<lparr>pending := bt_insert provider acc (pending s)\<rparr>))"

section \<open>The book\<close>

definition creditable :: "verifier \<Rightarrow> bytes32 \<Rightarrow> serving_cheque \<Rightarrow> bool" where
  "creditable ver me c \<longleftrightarrow> ch_server c = me \<and> cheque_verify ver c"

lemma record_me [simp]: "book_me (snd (record_cheque ver c b)) = book_me b"
  by (auto simp: record_cheque_def split: option.split)

interpretation cheques: latest_wins ch_consumer ch_cumulative "creditable ver me" "\<lambda>b. book_me b = me" latest_from
    "\<lambda>c b. snd (record_cheque ver c b)" for ver me
  by unfold_locales (auto simp: record_cheque_def latest_from_def creditable_def split: option.splits)

lemma received_inv: "bt_inv (received b) \<Longrightarrow> bt_inv (received (snd (record_cheque ver c b)))"
  by (auto simp: record_cheque_def split: option.split)

text \<open>(C22) The book converges. Whatever cheques arrive, in whatever order and however often, a provider's
  book holds for each consumer a cheque that consumer signed for this provider, and its cumulative is
  the highest of those presented; two books that saw the same cheques agree.\<close>

theorem cheque_book_converges:
  assumes "set cs = set ds"
  shows "map_option ch_cumulative (latest_from (load_book ver me cs) c)
      = best (ch_cumulative ` {x \<in> set cs. ch_consumer x = c \<and> creditable ver me x})
    \<and> map_option ch_cumulative (latest_from (load_book ver me cs) c) = map_option ch_cumulative (latest_from (load_book ver me ds) c)
    \<and> (\<forall>x. latest_from (load_book ver me cs) c = Some x \<longrightarrow> x \<in> set cs \<and> creditable ver me x \<and> ch_consumer x = c)"
proof -
  have new: "book_me (book_new me) = me" "latest_from (book_new me) c = None" by (simp_all add: book_new_def latest_from_def)
  show ?thesis
    using cheques.rank_of_new [OF new, of ver cs] cheques.rank_of_new [OF new, of ver ds]
      cheques.provenance [OF new(1), of ver cs c] new(2) assms
    by (simp add: load_book_def)
qed

text \<open>(C39) Colluding consumers can take the service down. The sum of the book is unchecked against the
  width of its type: two consumers who sign cheques that together reach 2^64 make \<open>total_earned\<close> panic,
  and with it, for a free user, every admission and pin decision.\<close>

theorem earned_overflow_panics:
  assumes "creditable ver me a" "creditable ver me b" "ch_consumer a \<noteq> ch_consumer b"
    and "unat (ch_cumulative a) + unat (ch_cumulative b) \<ge> 2 ^ 64" "my_paid s = 0" "book s = book_new me"
  shows "svc_total_earned (load_cheques ver [a, b] s) = None
    \<and> reciprocity_admits n (load_cheques ver [a, b] s) = None \<and> pin_admits n (load_cheques ver [a, b] s) = None"
proof -
  have ok: "ch_server a = me" "cheque_verify ver a" "ch_server b = me" "cheque_verify ver b"
    using assms(1,2) by (simp_all add: creditable_def)
  have "map snd (received (book (load_cheques ver [a, b] s))) \<in> {[a, b], [b, a]}"
    using assms(3) ok by (simp add: load_cheques_def assms(6) book_new_def record_cheque_def)
  moreover have "checked_sum (map ch_cumulative [x, y]) 0 = None" if "2 ^ 64 \<le> unat (ch_cumulative x) + unat (ch_cumulative y)" for x y
    using that unat_lt [of "ch_cumulative x"] by (simp add: checked_add_def del: unsigned_less)
  moreover have "svc_total_earned t = checked_sum (map ch_cumulative (map snd (received (book t)))) 0" for t
    by (simp add: svc_total_earned_def book_total_earned_def)
  ultimately have "svc_total_earned (load_cheques ver [a, b] s) = None"
    using assms(4) by (metis add.commute insertE singletonD)
  moreover have "my_paid (load_cheques ver [a, b] s) = 0" using assms(5) by (simp add: load_cheques_def)
  ultimately show ?thesis by (simp add: reciprocity_admits_def pin_admits_def)
qed

text \<open>The serve gate does not see a freeloader. What a peer was served is read from the cheques the
  peer itself signed; a peer that never signs one is served every request up to the grant, for ever,
  however much it has already taken.\<close>

theorem freeloader_never_refused:
  assumes "\<forall>c \<in> set cs. ch_consumer c \<noteq> peer" "latest_from (book s) peer = None" "bytes \<le> peer_grant s"
  shows "should_serve peer bytes (load_cheques ver cs s)"
proof -
  have "latest_from (book (load_cheques ver cs s)) peer = None"
    using assms(1) cheques.provenance [OF refl, of ver cs "book s" peer] assms(2)
    by (cases "latest_from (book (load_cheques ver cs s)) peer") (auto simp: load_cheques_def)
  moreover have "unat bytes \<le> min (unat x + unat (peer_grant s)) (2 ^ 64 - 1)" for x :: u64
    using assms(3) unat_le_max [of bytes] by (simp add: word_le_nat_alt)
  ultimately show ?thesis
    using unat_le_max [of bytes]
    by (simp add: should_serve_def word_le_nat_alt unat_sat_add) (simp add: load_cheques_def)
qed

section \<open>Quotas\<close>

definition paid_of :: "(bytes32, u64 \<times> u64) btree \<Rightarrow> serving_cheque \<Rightarrow> nat" where
  "paid_of m c = unat (fst (bt_get_or (0, 0) m (ch_server c)))"

definition served_sum :: "serving_cheque list \<Rightarrow> nat" where
  "served_sum cs = (\<Sum>c\<leftarrow>cs. unat (ch_cumulative c))"

lemma quota_loop_spec:
  assumes "distinct (map ch_server cs)"
  shows "(\<Sum>c\<leftarrow>cs. paid_of (quota_loop cs r out) c) = min (unat r) (served_sum cs)
    \<and> (\<forall>c\<in>set cs. \<exists>p\<le>ch_cumulative c. bt_get (quota_loop cs r out) (ch_server c) = Some (p, ch_cumulative c - p))
    \<and> (\<forall>s. s \<notin> ch_server ` set cs \<longrightarrow> bt_get (quota_loop cs r out) s = bt_get out s)"
  using assms
proof (induction cs arbitrary: r out)
  case (Cons c cs)
  let ?p = "min r (ch_cumulative c)"
  let ?out = "bt_insert (ch_server c) (?p, ch_cumulative c - ?p) out"
  have d: "distinct (map ch_server cs)" "ch_server c \<notin> ch_server ` set cs" using Cons.prems by auto
  note IH = Cons.IH [OF d(1), of "r - ?p" ?out]
  have p: "unat ?p = min (unat r) (unat (ch_cumulative c))" "unat (r - ?p) = unat r - unat ?p"
    by (simp_all add: min_def word_le_nat_alt unat_sub)
  have q: "quota_loop (c # cs) r out = quota_loop cs (r - ?p) ?out" by (simp add: Let_def)
  have get: "bt_get (quota_loop cs (r - ?p) ?out) (ch_server c) = Some (?p, ch_cumulative c - ?p)"
    using IH d(2) by simp
  have pc: "paid_of (quota_loop cs (r - ?p) ?out) c = unat ?p" by (simp add: paid_of_def bt_get_or_def get)
  have sum: "(\<Sum>x\<leftarrow>c # cs. paid_of (quota_loop cs (r - ?p) ?out) x) = min (unat r) (served_sum (c # cs))"
  proof -
    have "min a b + min (a - min a b) x = min a (b + x)" for a b x :: nat by (auto simp: min_def)
    then show ?thesis using IH p pc by (simp add: served_sum_def)
  qed
  have "\<exists>p\<le>ch_cumulative x. bt_get (quota_loop cs (r - ?p) ?out) (ch_server x) = Some (p, ch_cumulative x - p)"
    if "x \<in> set (c # cs)" for x
    using that IH get by (cases "x = c") (auto intro: exI [of _ ?p])
  then show ?case unfolding q using sum IH by (simp add: q)
qed (simp add: served_sum_def)

text \<open>Reward is capped at what was paid. For one cheque per provider, every provider's bytes are split
  into a paid and a subsidised part that add up to them, and the paid parts together are the quota or
  all that was served, whichever is less; the allocation does not depend on the order of the cheques.\<close>

theorem quota_capped:
  assumes "distinct (map ch_server cs)" "mset ds = mset cs"
  shows "(\<Sum>c\<leftarrow>cs. paid_of (allocate_quota cs quota) c) = min (unat quota) (served_sum cs)
    \<and> (\<forall>c\<in>set cs. \<exists>p\<le>ch_cumulative c. bt_get (allocate_quota cs quota) (ch_server c) = Some (p, ch_cumulative c - p))
    \<and> allocate_quota ds quota = allocate_quota cs quota"
proof -
  let ?k = "\<lambda>c. (ch_timestamp c, ch_server c)" and ?s = "sort_key (\<lambda>c. (ch_timestamp c, ch_server c)) cs"
  have ms: "mset ?s = mset cs" by simp
  have d: "distinct (map ch_server ?s)" using assms(1) mset_eq_imp_distinct_iff [of "map ch_server ?s" "map ch_server cs"] by simp
  have "(\<Sum>c\<leftarrow>cs. f c) = (\<Sum>c\<leftarrow>?s. f c)" for f :: "serving_cheque \<Rightarrow> nat"
  proof -
    have "mset (map f cs) = mset (map f ?s)" by simp
    from arg_cong [OF this, of sum_mset] show ?thesis unfolding sum_mset_sum_list .
  qed
  moreover have "inj_on ?k (set cs)" using assms(1) by (auto simp: distinct_map inj_on_def)
  then have "sort_key ?k ds = ?s"
    using sort_key_inj_key_eq [of ds ?s ?k] assms(2) mset_eq_setD [OF assms(2)] by simp
  ultimately show ?thesis using quota_loop_spec [OF d, of quota "[]"]
    by (simp add: allocate_quota_def served_sum_def)
qed

section \<open>Receipts and gates\<close>

type_synonym receipt = "bytes32 \<times> u64 \<times> u64"

fun receive_all :: "(bytes32 \<Rightarrow> bytes \<Rightarrow> bytes) \<Rightarrow> receipt list \<Rightarrow> cheque_service \<Rightarrow> (serving_cheque list \<times> cheque_service) option" where
  "receive_all sg [] s = Some ([], s)"
| "receive_all sg ((p, n, t) # rs) s = (case on_bytes_received sg t p n s of None \<Rightarrow> None
     | Some (c, s') \<Rightarrow> (case receive_all sg rs s' of None \<Rightarrow> None
        | Some (cs, s'') \<Rightarrow> Some (case c of None \<Rightarrow> cs | Some x \<Rightarrow> x # cs, s'')))"

definition from_provider :: "bytes32 \<Rightarrow> receipt list \<Rightarrow> nat" where
  "from_provider p rs = (\<Sum>(q, n, t)\<leftarrow>rs. if q = p then unat n else 0)"

text \<open>What the cheques handed to the push queue acknowledge to a provider: the greatest cumulative figure among those for it.\<close>

definition acknowledged :: "serving_cheque list \<Rightarrow> bytes32 \<Rightarrow> nat" where
  "acknowledged cs p = foldr (\<lambda>c m. if ch_server c = p then max (unat (ch_cumulative c)) m else m) cs 0"

definition tally :: "cheque_service \<Rightarrow> bytes32 \<Rightarrow> nat" where
  "tally s p = unat (owed_to (issuer s) p)"

definition unacked :: "cheque_service \<Rightarrow> bytes32 \<Rightarrow> nat" where
  "unacked s p = unat (bt_get_or 0 (pending s) p)"

lemma acknowledged_simps [simp]: "acknowledged [] p = 0"
  "acknowledged (x # cs) p = (if ch_server x = p then max (unat (ch_cumulative x)) (acknowledged cs p) else acknowledged cs p)"
  by (simp_all add: acknowledged_def)

definition signed_by :: "(bytes32 \<Rightarrow> bytes \<Rightarrow> bytes) \<Rightarrow> bytes32 \<Rightarrow> serving_cheque \<Rightarrow> bool" where
  "signed_by sg me x \<longleftrightarrow> x = cheque_sign sg me (ch_server x) (ch_cumulative x) (ch_timestamp x)"

lemma receive_step:
  assumes "unacked s q < 2 ^ 22" "unat n < 2 ^ 63" "tally s q + unacked s q + unat n < 2 ^ 64"
  shows "\<exists>c s'. on_bytes_received sg t q n s = Some (c, s')
    \<and> tally s' q + unacked s' q = tally s q + unacked s q + unat n \<and> unacked s' q < 2 ^ 22
    \<and> (\<forall>p. p \<noteq> q \<longrightarrow> tally s' p = tally s p \<and> unacked s' p = unacked s p)
    \<and> cs_me s' = cs_me s \<and> tally s q \<le> tally s' q
    \<and> (case c of None \<Rightarrow> tally s' q = tally s q
       | Some x \<Rightarrow> ch_server x = q \<and> unat (ch_cumulative x) = tally s' q \<and> signed_by sg (cs_me s) x)"
proof -
  define acc where "acc = bt_get_or 0 (pending s) q + n"
  have acc: "checked_add (bt_get_or 0 (pending s) q) n = Some acc" "unat acc = unacked s q + unat n"
    using assms(1,2) by (simp_all add: acc_def unacked_def checked_add_def unat_word_ariths)
  have sum: "unat (sat_add (owed_to (issuer s) q) acc) = tally s q + unat acc"
    using assms(3) acc(2) by (simp add: unat_sat_add tally_def)
  have band: "unat CREDIT_BAND = 2 ^ 22" by (simp add: CREDIT_BAND_def)
  define s0 where "s0 = (if my_paid s > 0 then s\<lparr>paid_consumed := paid_consumed s + n\<rparr> else s\<lparr>consumed := consumed s + n\<rparr>)"
  have s0: "pending s0 = pending s" "issuer s0 = issuer s" "cs_me s0 = cs_me s" by (simp_all add: s0_def)
  show ?thesis
  proof (cases "acc \<ge> CREDIT_BAND")
    case True
    let ?cum = "sat_add (owed_to (issuer s) q) acc"
    have "on_bytes_received sg t q n s = Some (Some (cheque_sign sg (cs_me s) q ?cum t),
        s0\<lparr>pending := bt_insert q 0 (pending s), issuer := bt_insert q ?cum (issuer s)\<rparr>)"
      using True acc(1) unfolding on_bytes_received_def s0_def [symmetric] Let_def s0 issue_def by (simp add: owed_to_def)
    then show ?thesis using sum acc(2) s0(3) by (auto simp: tally_def unacked_def owed_to_def bt_get_or_def signed_by_def cheque_sign_def)
  next
    case False
    have "on_bytes_received sg t q n s = Some (None, s0\<lparr>pending := bt_insert q acc (pending s)\<rparr>)"
      using False acc(1) unfolding on_bytes_received_def s0_def [symmetric] Let_def s0 by simp
    moreover have "unat acc < 2 ^ 22" using False band by (simp add: word_le_nat_alt)
    ultimately show ?thesis using acc(2) s0 by (auto simp: tally_def unacked_def owed_to_def bt_get_or_def)
  qed
qed

lemma receive_all_spec:
  assumes "\<And>q. unacked s q < 2 ^ 22" "\<forall>(q, n, t) \<in> set rs. unat n < 2 ^ 63"
    and "\<And>q. tally s q + unacked s q + from_provider q rs < 2 ^ 64"
  shows "\<exists>cs s'. receive_all sg rs s = Some (cs, s') \<and> (\<forall>x \<in> set cs. signed_by sg (cs_me s) x)
    \<and> (\<forall>q. max (tally s q) (acknowledged cs q) + unacked s' q = tally s q + unacked s q + from_provider q rs \<and> unacked s' q < 2 ^ 22)"
  using assms
proof (induction rs arbitrary: s)
  case (Cons r rs)
  obtain p n t where r: "r = (p, n, t)" by (cases r)
  have fp: "from_provider q (r # rs) = (if p = q then unat n else 0) + from_provider q rs" for q
    by (simp add: from_provider_def r)
  have fit: "tally s p + unacked s p + unat n < 2 ^ 64" using Cons.prems(3) [of p] fp [of p] by simp
  have small: "unat n < 2 ^ 63" using Cons.prems(2) by (simp add: r)
  obtain c s1 where s1: "on_bytes_received sg t p n s = Some (c, s1)"
    "tally s1 p + unacked s1 p = tally s p + unacked s p + unat n" "unacked s1 p < 2 ^ 22"
    "\<And>q. q \<noteq> p \<Longrightarrow> tally s1 q = tally s q \<and> unacked s1 q = unacked s q" "cs_me s1 = cs_me s" "tally s p \<le> tally s1 p"
    "case c of None \<Rightarrow> tally s1 p = tally s p
       | Some x \<Rightarrow> ch_server x = p \<and> unat (ch_cumulative x) = tally s1 p \<and> signed_by sg (cs_me s) x"
    using receive_step [OF Cons.prems(1) small fit, of sg t] by (elim exE conjE) (rule that; blast)
  have each: "tally s1 q + unacked s1 q = tally s q + unacked s q + (if p = q then unat n else 0) \<and> unacked s1 q < 2 ^ 22" for q
    using s1(2,3) s1(4) [of q] Cons.prems(1) [of q] by (cases "p = q") auto
  have "\<exists>cs s'. receive_all sg rs s1 = Some (cs, s') \<and> (\<forall>x \<in> set cs. signed_by sg (cs_me s1) x)
    \<and> (\<forall>q. max (tally s1 q) (acknowledged cs q) + unacked s' q = tally s1 q + unacked s1 q + from_provider q rs \<and> unacked s' q < 2 ^ 22)"
  proof (rule Cons.IH)
    show "unacked s1 q < 2 ^ 22" for q using each [of q] by blast
    show "\<forall>(q, n, t) \<in> set rs. unat n < 2 ^ 63" using Cons.prems(2) by simp
    show "tally s1 q + unacked s1 q + from_provider q rs < 2 ^ 64" for q
      using each [of q] Cons.prems(3) [of q] fp [of q] by linarith
  qed
  then obtain cs s' where rest: "receive_all sg rs s1 = Some (cs, s')" "\<forall>x \<in> set cs. signed_by sg (cs_me s) x"
    "\<And>q. max (tally s1 q) (acknowledged cs q) + unacked s' q = tally s1 q + unacked s1 q + from_provider q rs \<and> unacked s' q < 2 ^ 22"
    using s1(5) by auto
  have "max (tally s q) (acknowledged (case c of None \<Rightarrow> cs | Some x \<Rightarrow> x # cs) q) = max (tally s1 q) (acknowledged cs q)" for q
    using s1(4) [of q] s1(6,7) by (cases "p = q") (auto split: option.splits)
  then have "max (tally s q) (acknowledged (case c of None \<Rightarrow> cs | Some x \<Rightarrow> x # cs) q) + unacked s' q
      = tally s q + unacked s q + from_provider q (r # rs) \<and> unacked s' q < 2 ^ 22" for q
    using rest(3) [of q] each [of q] fp [of q] by simp
  moreover have "\<forall>x \<in> set (case c of None \<Rightarrow> cs | Some x \<Rightarrow> x # cs). signed_by sg (cs_me s) x"
    using rest(2) s1(7) by (cases c) simp_all
  moreover have "receive_all sg (r # rs) s = Some (case c of None \<Rightarrow> cs | Some x \<Rightarrow> x # cs, s')" by (simp add: r s1(1) rest(1))
  ultimately show ?case by blast
qed (simp add: from_provider_def)

text \<open>(C36) Every fetched byte is acknowledged, up to the credit band. Over any run of receipts in which each piece is below
  \<open>2 ^ 63\<close> bytes and no provider's total reaches \<open>2 ^ 64\<close>, the cheques emitted are signed by this node, and for each provider the
  greatest cumulative figure among the cheques made out to it plus what is still pending is exactly what was fetched from it;
  the pending part stays below the band of 4 MiB.\<close>

theorem receipts_acknowledged:
  assumes "\<forall>(q, n, t) \<in> set rs. unat n < 2 ^ 63" "\<forall>q. from_provider q rs < 2 ^ 64"
  shows "\<exists>cs s'. receive_all sg rs (service_new me) = Some (cs, s') \<and> (\<forall>x \<in> set cs. signed_by sg me x)
    \<and> (\<forall>q. acknowledged cs q + unacked s' q = from_provider q rs \<and> unacked s' q < 2 ^ 22)"
proof -
  have "tally (service_new me) q = 0" "unacked (service_new me) q = 0" "cs_me (service_new me) = me" for q
    by (simp_all add: tally_def unacked_def service_new_def owed_to_def bt_get_or_def)
  with receive_all_spec [of "service_new me" rs sg] assms show ?thesis by simp
qed

lemma receive_free:
  "on_bytes_received sg t p n s = Some (c, s') \<Longrightarrow> my_paid s = 0 \<Longrightarrow>
     consumed s' = consumed s + n \<and> book s' = book s \<and> cs_grant s' = cs_grant s \<and> my_paid s' = 0"
  by (auto simp: on_bytes_received_def Let_def split: option.splits prod.splits if_splits)

text \<open>The free tier is bounded. While the budget is below the 64-bit maximum, a fetch that a free node was admitted
  for leaves its consumption within what it has earned plus the grant, and an admitted pin leaves the
  footprint within the storage standing; a refused pin changes nothing.\<close>

theorem gates_within_budget:
  assumes "my_paid s = 0" "svc_total_earned s = Some e"
    and "unat e + unat (cs_grant s) < 2 ^ 64 - 1" "unat e + unat (storage_grant s) < 2 ^ 64 - 1"
  shows "(reciprocity_admits n s = Some True \<and> on_bytes_received sg t p n s = Some (c, s') \<longrightarrow>
        unat (consumed s') = unat (consumed s) + unat n \<and> unat (consumed s') \<le> unat e + unat (cs_grant s)
        \<and> svc_total_earned s' = Some e)
    \<and> (case pin_admits n s of None \<Rightarrow> False
       | Some (ok, s'') \<Rightarrow> if ok then unat (pinned s'') = unat (pinned s) + unat n \<and> unat (pinned s'') \<le> unat e + unat (storage_grant s)
                          else s'' = s)"
proof (intro conjI impI)
  assume a: "reciprocity_admits n s = Some True \<and> on_bytes_received sg t p n s = Some (c, s')"
  then have f: "consumed s' = consumed s + n" "book s' = book s" using receive_free [of sg t p n s c s'] assms(1) by auto
  from a assms have "min (unat (consumed s) + unat n) (2 ^ 64 - 1) \<le> unat e + unat (cs_grant s)"
    by (simp add: reciprocity_admits_def word_le_nat_alt unat_sat_add)
  show "unat (consumed s') = unat (consumed s) + unat n"
    using \<open>min _ _ \<le> _\<close> assms(3) unat_lt [of "consumed s"] unat_lt [of n] 
    by (simp add: f unat_word_ariths del: unsigned_less)
  show "svc_total_earned s' = Some e" using assms(2) by (simp add: svc_total_earned_def f)
  show "unat (consumed s') \<le> unat e + unat (cs_grant s)"
    using \<open>min _ _ \<le> _\<close> \<open>unat (consumed s') = _\<close> assms(3) by linarith
next
  show "case pin_admits n s of None \<Rightarrow> False
     | Some (ok, s'') \<Rightarrow> if ok then unat (pinned s'') = unat (pinned s) + unat n \<and> unat (pinned s'') \<le> unat e + unat (storage_grant s)
                        else s'' = s"
    using assms(2,4) by (auto simp: pin_admits_def Let_def word_le_nat_alt unat_sat_add unat_word_ariths)
qed

section \<open>Witnesses\<close>

definition wit_cheque :: "bytes32 \<Rightarrow> bytes32 \<Rightarrow> u64 \<Rightarrow> serving_cheque" where
  "wit_cheque server c n = \<lparr>ch_server = server, ch_consumer = c, ch_cumulative = n, ch_timestamp = n, consumer_sig = replicate 64 0\<rparr>"

lemma wit_creditable: "creditable any_ver me (wit_cheque me c n)"
  by (simp add: creditable_def cheque_verify_def wit_cheque_def valid_sig_def any_ver_def)

theorem cheque_book_converges_witness:
  "map_option ch_cumulative (latest_from (load_book any_ver 9 [wit_cheque 9 1 5, wit_cheque 9 1 3, wit_cheque 8 1 70]) 1) = Some 5"
proof -
  have "{x \<in> set [wit_cheque 9 1 5, wit_cheque 9 1 3, wit_cheque 8 1 70]. ch_consumer x = 1 \<and> creditable any_ver 9 x}
    = {wit_cheque 9 1 5, wit_cheque 9 1 3}"
    by (auto simp: wit_cheque_def creditable_def cheque_verify_def valid_sig_def any_ver_def)
  then show ?thesis
    using cheque_book_converges [OF refl, where cs = "[wit_cheque 9 1 5, wit_cheque 9 1 3, wit_cheque 8 1 70]"
        and ver = any_ver and me = 9 and c = 1]
    by (simp add: best_def wit_cheque_def)
qed

theorem earned_overflow_panics_witness:
  "svc_total_earned (load_cheques any_ver [wit_cheque 9 1 (- 1), wit_cheque 9 2 1] (service_new 9)) = None"
  using earned_overflow_panics [OF wit_creditable [of 9 1 "- 1"] wit_creditable [of 9 2 1], where s = "service_new 9" and n = 0]
  by (simp add: wit_cheque_def service_new_def unat_max_word)

theorem freeloader_never_refused_witness:
  "should_serve 5 268435456 (load_cheques any_ver [wit_cheque 9 1 7] (service_new 9))"
  using freeloader_never_refused [of "[wit_cheque 9 1 7]" 5 "service_new 9" 268435456 any_ver]
  by (simp add: wit_cheque_def service_new_def latest_from_def book_new_def DEFAULT_PEER_GRANT_def)

theorem quota_capped_witness:
  "(\<Sum>c\<leftarrow>[wit_cheque 1 0 5, wit_cheque 2 0 9]. paid_of (allocate_quota [wit_cheque 1 0 5, wit_cheque 2 0 9] 10) c) = 10"
proof -
  have d: "distinct (map ch_server [wit_cheque 1 0 5, wit_cheque 2 0 9])" and s: "served_sum [wit_cheque 1 0 5, wit_cheque 2 0 9] = 14"
    by (simp_all add: wit_cheque_def served_sum_def)
  from quota_capped [OF d refl, of 10] show ?thesis unfolding s by simp
qed

theorem receipts_acknowledged_witness:
  "\<exists>cs s'. receive_all (\<lambda>k m. []) [(1, 4194305, 0), (1, 7, 1)] (service_new 9) = Some (cs, s')
     \<and> acknowledged cs 1 + unacked s' 1 = 4194312"
proof -
  let ?rs = "[(1, 4194305, 0), (1, 7, 1)] :: receipt list"
  have f: "from_provider q ?rs = (if q = 1 then 4194312 else 0)" for q by (simp add: from_provider_def)
  have "\<forall>(q, n, t) \<in> set ?rs. unat n < 2 ^ 63" "\<forall>q. from_provider q ?rs < 2 ^ 64" by (simp_all add: f)
  from receipts_acknowledged [OF this, of "\<lambda>k m. []" 9] show ?thesis unfolding f by auto
qed

theorem gates_within_budget_witness:
  "case pin_admits 1000 (service_new 9) of None \<Rightarrow> False | Some (ok, s) \<Rightarrow> ok \<longrightarrow> unat (pinned s) = 1000"
  using gates_within_budget [of "service_new 9" 0 1000 "\<lambda>k m. []" 0 0 None "service_new 9"]
  by (auto simp: service_new_def svc_total_earned_def book_total_earned_def book_new_def DEFAULT_COLD_START_GRANT_def
      DEFAULT_STORAGE_GRANT_def split: option.splits prod.splits)

end
