(* ===== verification/Registry.thy ===== *)
theory Registry
  imports Quorum Latest_Wins "HOL-Library.List_Lexorder"
begin

text \<open>
  The head registry and the governed program and config registries, \<open>src/crates/com/src/registry.rs\<close>.
  A state is a vector sorted by key, searched by the standard library's binary search and updated in
  place; the refinement lemmas relate it to a sorted map. Names are UTF-8 byte lists, ordered
  lexicographically as \<open>str\<close> is. ed25519 is the parameter \<open>ver\<close>.
\<close>

section \<open>Sorted vectors\<close>

text \<open>\<open>binary_search_by\<close>: \<open>Inr i\<close> is \<open>Ok(i)\<close>, \<open>Inl i\<close> is \<open>Err(i)\<close>.\<close>

definition search_by :: "'a::linorder list \<Rightarrow> 'a \<Rightarrow> nat + nat" where
  "search_by ks k = (if ks = [] then Inl 0
     else let b = bsearch_base ks k 0 (length ks) in
       if ks ! b = k then Inr b else Inl (b + (if ks ! b < k then 1 else 0)))"

text \<open>\<open>Vec::insert\<close>.\<close>

definition insert_at :: "nat \<Rightarrow> 'a \<Rightarrow> 'a list \<Rightarrow> 'a list" where
  "insert_at i x xs = take i xs @ x # drop i xs"

section \<open>Heads\<close>

definition HEAD_DOMAIN :: bytes where "HEAD_DOMAIN = ascii ''craftec/head/1''"

record head_entry =
  owner :: bytes32
  h_name :: bytes
  h_cid :: bytes32
  version :: u64
  h_signature :: bytes

definition head_signing_bytes :: "bytes32 \<Rightarrow> bytes \<Rightarrow> bytes32 \<Rightarrow> u64 \<Rightarrow> bytes" where
  "head_signing_bytes ow name cid v = HEAD_DOMAIN @ be_bytes 32 ow @ be_bytes 4 (of_nat (length name) :: u32) @ name
     @ be_bytes 32 cid @ be_bytes 8 v"

text \<open>A submission has the fields of an entry.\<close>

type_synonym head_submission = head_entry

definition head_sign :: "(bytes32 \<Rightarrow> bytes \<Rightarrow> bytes) \<Rightarrow> bytes32 \<Rightarrow> bytes \<Rightarrow> bytes32 \<Rightarrow> u64 \<Rightarrow> head_submission" where
  "head_sign sg ow name cid v = \<lparr>owner = ow, h_name = name, h_cid = cid, version = v,
     h_signature = sg ow (head_signing_bytes ow name cid v)\<rparr>"

definition head_verify :: "verifier \<Rightarrow> head_entry \<Rightarrow> bool" where
  "head_verify ver e = valid_sig ver (owner e) (head_signing_bytes (owner e) (h_name e) (h_cid e) (version e)) (h_signature e)"

definition head_key :: "head_entry \<Rightarrow> bytes32 \<times> bytes" where
  "head_key e = (owner e, h_name e)"

type_synonym registry_state = "head_entry list"

definition find_head :: "registry_state \<Rightarrow> bytes32 \<times> bytes \<Rightarrow> nat + nat" where
  "find_head st k = search_by (map head_key st) k"

definition resolve :: "registry_state \<Rightarrow> bytes32 \<Rightarrow> bytes \<Rightarrow> head_entry option" where
  "resolve st ow name = (case find_head st (ow, name) of Inr i \<Rightarrow> Some (st ! i) | Inl _ \<Rightarrow> None)"

definition registry_apply :: "verifier \<Rightarrow> registry_state \<Rightarrow> head_submission \<Rightarrow> string + registry_state" where
  "registry_apply ver st sub = (if \<not> head_verify ver sub then Inl ''bad-signature''
     else case find_head st (head_key sub) of
         Inr i \<Rightarrow> if version sub \<le> version (st ! i) then Inl ''stale-version'' else Inr (st[i := sub])
       | Inl i \<Rightarrow> Inr (insert_at i sub st))"

definition merge_entry :: "verifier \<Rightarrow> head_entry \<Rightarrow> registry_state \<Rightarrow> registry_state" where
  "merge_entry ver e st = (if \<not> head_verify ver e then st
     else case find_head st (head_key e) of
         Inr i \<Rightarrow> if version e > version (st ! i) then st[i := e] else st
       | Inl i \<Rightarrow> insert_at i e st)"

definition merge :: "verifier \<Rightarrow> registry_state \<Rightarrow> registry_state \<Rightarrow> registry_state" where
  "merge ver other st = fold (merge_entry ver) other st"

definition merge_entries :: "verifier \<Rightarrow> head_entry list \<Rightarrow> registry_state \<Rightarrow> registry_state" where
  "merge_entries ver es st = fold (merge_entry ver) es st"

definition registry_run :: "verifier \<Rightarrow> (bytes \<Rightarrow> registry_state option) \<Rightarrow> (bytes \<Rightarrow> head_submission option)
    \<Rightarrow> (registry_state \<Rightarrow> bytes) \<Rightarrow> bytes \<Rightarrow> bytes \<Rightarrow> string + bytes" where
  "registry_run ver dec_state dec_sub enc prev request =
     (case (if prev = [] then Some [] else dec_state prev) of
        None \<Rightarrow> Inl ''undecodable registry state''
      | Some st \<Rightarrow> (case dec_sub request of
          None \<Rightarrow> Inl ''bad submission''
        | Some sub \<Rightarrow> (case registry_apply ver st sub of Inl e \<Rightarrow> Inl e | Inr nxt \<Rightarrow> Inr (enc nxt))))"

section \<open>Governed registries\<close>

text \<open>Program registry rows carry a cid, config registry rows a signed 64-bit value.\<close>

type_synonym program_registry = "(bytes \<times> bytes32 \<times> u64) list"
type_synonym config_registry = "(bytes \<times> 64 word \<times> u64) list"

definition program_resolve :: "program_registry \<Rightarrow> bytes \<Rightarrow> bytes32 option" where
  "program_resolve st name = (case search_by (map fst st) name of Inr i \<Rightarrow> Some (fst (snd (st ! i))) | Inl _ \<Rightarrow> None)"

definition program_set :: "program_registry \<Rightarrow> bytes \<Rightarrow> bytes32 \<Rightarrow> u64 \<Rightarrow> string + program_registry" where
  "program_set st name cid v = (case search_by (map fst st) name of
       Inr i \<Rightarrow> if v \<le> snd (snd (st ! i)) then Inl ''stale-version'' else Inr (st[i := (name, cid, v)])
     | Inl i \<Rightarrow> Inr (insert_at i (name, cid, v) st))"

definition config_resolve :: "config_registry \<Rightarrow> bytes \<Rightarrow> 64 word option" where
  "config_resolve st k = (case search_by (map fst st) k of Inr i \<Rightarrow> Some (fst (snd (st ! i))) | Inl _ \<Rightarrow> None)"

definition config_set :: "config_registry \<Rightarrow> bytes \<Rightarrow> 64 word \<Rightarrow> u64 \<Rightarrow> string + config_registry" where
  "config_set st k x v = (case search_by (map fst st) k of
       Inr i \<Rightarrow> if v \<le> snd (snd (st ! i)) then Inl ''stale-version'' else Inr (st[i := (k, x, v)])
     | Inl i \<Rightarrow> Inr (insert_at i (k, x, v) st))"

section \<open>Binary search on a sorted vector\<close>

lemma bsearch_split:
  assumes "sorted ks" "0 < sz" "base + sz \<le> length ks"
    and "\<forall>j. base + sz \<le> j \<and> j < length ks \<longrightarrow> x < ks ! j" "0 < base \<longrightarrow> ks ! base \<le> x"
  shows "(\<forall>j. bsearch_base ks x base sz < j \<and> j < length ks \<longrightarrow> x < ks ! j)
    \<and> (0 < bsearch_base ks x base sz \<longrightarrow> ks ! bsearch_base ks x base sz \<le> x)"
  using assms
proof (induction ks x base sz rule: bsearch_base.induct)
  case (1 ks x base sz)
  show ?case
  proof (cases "sz > 1")
    case True
    define half where "half = sz div 2"
    define b where "b = (if ks ! (base + half) > x then base else base + half)"
    have half: "0 < half" "half < sz" "half \<le> sz - half" using True by (simp_all add: half_def)
    have "\<forall>j. b + (sz - half) \<le> j \<and> j < length ks \<longrightarrow> x < ks ! j"
    proof (intro allI impI)
      fix j assume j: "b + (sz - half) \<le> j \<and> j < length ks"
      show "x < ks ! j"
      proof (cases "ks ! (base + half) > x")
        case gt: True
        then have "b = base" by (simp add: b_def)
        then have "base + half \<le> j" using j half by linarith
        then show ?thesis using gt sorted_nth_mono [OF "1.prems"(1), of "base + half" j] j by (meson less_le_trans)
      next
        case False
        then show ?thesis using j half "1.prems"(4) by (simp add: b_def)
      qed
    qed
    moreover have "b + (sz - half) \<le> length ks"
      using "1.prems"(3) half by (cases "ks ! (base + half) > x") (simp_all add: b_def)
    moreover have "0 < sz - half" using half by simp
    moreover have "0 < b \<longrightarrow> ks ! b \<le> x"
      using "1.prems"(5) by (cases "ks ! (base + half) > x") (simp_all add: b_def not_less)
    ultimately have "(\<forall>j. bsearch_base ks x b (sz - half) < j \<and> j < length ks \<longrightarrow> x < ks ! j)
      \<and> (0 < bsearch_base ks x b (sz - half) \<longrightarrow> ks ! bsearch_base ks x b (sz - half) \<le> x)"
      by (intro "1.IH" [OF True half_def refl, folded b_def] "1.prems"(1))
    moreover have "bsearch_base ks x base sz = bsearch_base ks x b (sz - half)"
      using True by (subst bsearch_base.simps) (simp add: Let_def b_def half_def)
    ultimately show ?thesis by simp
  next
    case False
    then have "bsearch_base ks x base sz = base" by (subst bsearch_base.simps) simp
    moreover have "sz = 1" using False "1.prems"(2) by simp
    ultimately show ?thesis using "1.prems"(4,5) by simp
  qed
qed

lemma search_by_spec:
  assumes "sorted_wrt (<) ks"
  shows "case search_by ks k of
      Inr i \<Rightarrow> i < length ks \<and> ks ! i = k
    | Inl i \<Rightarrow> i \<le> length ks \<and> (\<forall>j < i. ks ! j < k) \<and> (\<forall>j. i \<le> j \<and> j < length ks \<longrightarrow> k < ks ! j)"
proof (cases "ks = []")
  case False
  define b where "b = bsearch_base ks k 0 (length ks)"
  have s: "sorted ks" using assms by (simp add: strict_sorted_iff)
  have b: "b < length ks" using bsearch_base_bound [of 0 "length ks" "length ks" ks k] False by (simp add: b_def)
  have "\<forall>j. 0 + length ks \<le> j \<and> j < length ks \<longrightarrow> k < ks ! j" "0 < length ks" "0 < (0::nat) \<longrightarrow> ks ! 0 \<le> k"
    using False by auto
  note split = bsearch_split [OF s this(2) _ this(1,3), folded b_def]
  have hi: "\<forall>j. b < j \<and> j < length ks \<longrightarrow> k < ks ! j" and lo: "0 < b \<longrightarrow> ks ! b \<le> k"
    using split by simp_all
  have mono: "ks ! j < ks ! b" if "j < b" for j using assms that b by (simp add: sorted_wrt_iff_nth_less)
  have search: "search_by ks k = (if ks ! b = k then Inr b else Inl (b + (if ks ! b < k then 1 else 0)))"
    unfolding search_by_def b_def Let_def using False by simp
  show ?thesis
  proof (cases "ks ! b" k rule: linorder_cases)
    case less
    have "ks ! j < k" if "j < Suc b" for j using that mono [of j] less by (cases "j = b") auto
    then show ?thesis using less b hi by (simp add: search)
  next
    case equal
    then show ?thesis using b by (simp add: search)
  next
    case greater
    then have "b = 0" using lo by (meson leD neq0_conv)
    have "k < ks ! j" if "j < length ks" for j using that greater hi \<open>b = 0\<close> by (cases "j = 0") simp_all
    moreover have "search_by ks k = Inl 0" using greater \<open>b = 0\<close> by (simp add: search not_less_iff_gr_or_eq)
    ultimately show ?thesis by simp
  qed
qed (simp add: search_by_def)

text \<open>The vector as a map: an insertion or update at the position found is an insertion into the map.\<close>

definition as_map :: "('a \<Rightarrow> 'k) \<Rightarrow> 'a list \<Rightarrow> ('k \<times> 'a) list" where
  "as_map f xs = map (\<lambda>x. (f x, x)) xs"

lemma as_map_simps [simp]: "map fst (as_map f xs) = map f xs" "length (as_map f xs) = length xs"
  "as_map f (xs @ ys) = as_map f xs @ as_map f ys" "as_map f (x # xs) = (f x, x) # as_map f xs" "as_map f [] = []"
  by (simp_all add: as_map_def comp_def)

lemma bt_insert_middle:
  "\<forall>x \<in> set xs. fst x < k \<Longrightarrow> \<forall>y \<in> set ys. k < fst y \<Longrightarrow> bt_insert k v (xs @ ys) = xs @ (k, v) # ys"
proof (induction xs)
  case Nil
  then show ?case by (cases ys) auto
next
  case (Cons x xs)
  then show ?case by (cases x) (auto simp: not_less_iff_gr_or_eq)
qed

lemma bt_insert_replace: "\<forall>x \<in> set xs. fst x < k \<Longrightarrow> bt_insert k v (xs @ (k, w) # ys) = xs @ (k, v) # ys"
  by (induction xs) (auto simp: not_less_iff_gr_or_eq)

lemma upsert_refines:
  assumes "sorted_wrt (<) (map f xs)"
  shows "as_map f (case search_by (map f xs) (f x) of Inr i \<Rightarrow> xs[i := x] | Inl i \<Rightarrow> insert_at i x xs)
    = bt_insert (f x) x (as_map f xs)"
proof (cases "search_by (map f xs) (f x)")
  case (Inl i)
  with search_by_spec [OF assms, of "f x"] have i: "i \<le> length xs" "\<forall>j < i. f (xs ! j) < f x"
    "\<forall>j. i \<le> j \<and> j < length xs \<longrightarrow> f x < f (xs ! j)" by auto
  have "\<forall>y \<in> set (as_map f (take i xs)). fst y < f x" using i by (auto simp: as_map_def in_set_conv_nth)
  moreover have "\<forall>y \<in> set (as_map f (drop i xs)). f x < fst y" using i by (auto simp: as_map_def in_set_conv_nth)
  ultimately have "bt_insert (f x) x (as_map f (take i xs) @ as_map f (drop i xs))
    = as_map f (take i xs) @ (f x, x) # as_map f (drop i xs)" by (rule bt_insert_middle)
  moreover have "as_map f (take i xs) @ as_map f (drop i xs) = as_map f xs"
    by (subst as_map_simps(3) [symmetric]) simp
  ultimately show ?thesis using Inl by (simp add: insert_at_def)
next
  case (Inr i)
  with search_by_spec [OF assms, of "f x"] have i: "i < length xs" "f (xs ! i) = f x" by auto
  have "\<forall>j < i. f (xs ! j) < f (xs ! i)" using assms i(1) by (simp add: sorted_wrt_iff_nth_less)
  then have "\<forall>y \<in> set (as_map f (take i xs)). fst y < f x" using i by (auto simp: as_map_def in_set_conv_nth)
  from bt_insert_replace [OF this, of x "xs ! i" "as_map f (drop (Suc i) xs)"]
  have "bt_insert (f x) x (as_map f (take i xs @ xs ! i # drop (Suc i) xs)) = as_map f (take i xs @ x # drop (Suc i) xs)"
    by (simp add: i)
  moreover have "xs = take i xs @ xs ! i # drop (Suc i) xs" by (rule id_take_nth_drop [OF i(1)])
  moreover have "xs[i := x] = take i xs @ x # drop (Suc i) xs" by (rule upd_conv_take_nth_drop [OF i(1)])
  ultimately show ?thesis using Inr by simp
qed

lemma search_by_get:
  assumes "sorted_wrt (<) (map f xs)"
  shows "(case search_by (map f xs) k of Inr i \<Rightarrow> Some (xs ! i) | Inl _ \<Rightarrow> None) = bt_get (as_map f xs) k"
proof -
  have inv: "bt_inv (as_map f xs)" using assms by (simp add: bt_inv_def)
  show ?thesis
  proof (cases "search_by (map f xs) k")
    case (Inl i)
    with search_by_spec [OF assms, of k] have i: "i \<le> length xs" "\<forall>j < i. f (xs ! j) < k"
      "\<forall>j. i \<le> j \<and> j < length xs \<longrightarrow> k < f (xs ! j)" by auto
    then have "\<forall>j < length xs. f (xs ! j) \<noteq> k"
      by (intro allI impI) (rule ccontr, case_tac "j < i", auto simp: not_less)
    then have "bt_get (as_map f xs) k = None" by (auto simp: bt_get_None_iff as_map_def in_set_conv_nth)
    with Inl show ?thesis by simp
  next
    case (Inr i)
    with search_by_spec [OF assms, of k] have "(k, xs ! i) \<in> set (as_map f xs)" by (auto simp: as_map_def)
    then have "bt_get (as_map f xs) k = Some (xs ! i)" by (rule bt_get_Some_iff [OF inv, THEN iffD2])
    with Inr show ?thesis by simp
  qed
qed

section \<open>The registry as a map\<close>

definition reg_inv :: "registry_state \<Rightarrow> bool" where
  "reg_inv st = sorted_wrt (<) (map head_key st)"

definition reg_view :: "registry_state \<Rightarrow> bytes32 \<times> bytes \<Rightarrow> head_entry option" where
  "reg_view st k = resolve st (fst k) (snd k)"

definition put_head :: "head_entry \<Rightarrow> registry_state \<Rightarrow> registry_state" where
  "put_head e st = (case find_head st (head_key e) of Inr i \<Rightarrow> st[i := e] | Inl i \<Rightarrow> insert_at i e st)"

lemma reg_inv_iff: "reg_inv st \<longleftrightarrow> bt_inv (as_map head_key st)"
  by (simp add: reg_inv_def bt_inv_def)

lemma reg_view_get: "reg_inv st \<Longrightarrow> reg_view st k = bt_get (as_map head_key st) k"
  unfolding reg_inv_def reg_view_def resolve_def find_head_def using search_by_get [of head_key st k] by simp

lemma put_head_map: "reg_inv st \<Longrightarrow> as_map head_key (put_head e st) = bt_insert (head_key e) e (as_map head_key st)"
  unfolding reg_inv_def put_head_def find_head_def by (rule upsert_refines)

lemma put_head_inv: "reg_inv st \<Longrightarrow> reg_inv (put_head e st)"
  by (simp add: reg_inv_iff put_head_map [unfolded reg_inv_iff])

lemma reg_view_put_head: "reg_inv st \<Longrightarrow> reg_view (put_head e st) = (reg_view st)(head_key e \<mapsto> e)"
  by (rule ext) (simp add: reg_view_get put_head_inv put_head_map reg_inv_iff [symmetric])

lemma find_head_view:
  "find_head st k = Inr i \<Longrightarrow> reg_view st k = Some (st ! i)" "find_head st k = Inl i \<Longrightarrow> reg_view st k = None"
  by (simp_all add: reg_view_def resolve_def)

lemma registry_apply_put:
  "registry_apply ver st sub = (if \<not> head_verify ver sub then Inl ''bad-signature''
     else if \<exists>e. reg_view st (head_key sub) = Some e \<and> version sub \<le> version e then Inl ''stale-version''
     else Inr (put_head sub st))"
  by (cases "find_head st (head_key sub)") (simp_all add: registry_apply_def put_head_def find_head_view)

lemma merge_entry_put:
  "merge_entry ver e st = (if head_verify ver e \<and> (case reg_view st (head_key e) of None \<Rightarrow> True | Some w \<Rightarrow> version w < version e)
     then put_head e st else st)"
  by (cases "find_head st (head_key e)") (auto simp: merge_entry_def put_head_def find_head_view)

interpretation heads: latest_wins head_key version "head_verify ver" reg_inv reg_view "merge_entry ver" for ver
  by unfold_locales (auto simp: merge_entry_put put_head_inv reg_view_put_head split: option.splits)

lemma reg_ext: "reg_inv s \<Longrightarrow> reg_inv t \<Longrightarrow> (\<And>k. reg_view s k = reg_view t k) \<Longrightarrow> s = t"
proof -
  assume "reg_inv s" "reg_inv t" "\<And>k. reg_view s k = reg_view t k"
  then have "as_map head_key s = as_map head_key t" by (intro bt_ext) (simp_all add: reg_inv_iff reg_view_get [symmetric])
  then have "map snd (as_map head_key s) = map snd (as_map head_key t)" by simp
  then show "s = t" by (simp add: as_map_def comp_def)
qed

lemma reg_view_Nil [simp]: "reg_view [] k = None" and reg_inv_Nil [simp]: "reg_inv []"
  by (simp_all add: reg_view_def resolve_def find_head_def search_by_def reg_inv_def)

lemma reg_view_key: "reg_inv st \<Longrightarrow> reg_view st k = Some e \<Longrightarrow> head_key e = k \<and> e \<in> set st"
  by (auto simp: reg_view_get reg_inv_iff bt_get_Some_iff) (auto simp: as_map_def)

text \<open>The transition on maps.\<close>

definition abstract_apply :: "verifier \<Rightarrow> (bytes32 \<times> bytes \<rightharpoonup> head_entry) \<Rightarrow> head_entry \<Rightarrow> string + (bytes32 \<times> bytes \<rightharpoonup> head_entry)" where
  "abstract_apply ver m sub = (if \<not> head_verify ver sub then Inl ''bad-signature''
     else case m (head_key sub) of
         None \<Rightarrow> Inr (m(head_key sub \<mapsto> sub))
       | Some e \<Rightarrow> if version sub \<le> version e then Inl ''stale-version'' else Inr (m(head_key sub \<mapsto> sub)))"

text \<open>(C7) Applying a signed submission to the sorted vector implements the update of a map from
  \<open>(owner, name)\<close> to heads: a bad signature and a version that does not increase are refused with their
  errors, any other submission replaces exactly its own key, and the vector stays sorted.\<close>

theorem registry_apply_refines:
  assumes "reg_inv st"
  shows "map_sum id reg_view (registry_apply ver st sub) = abstract_apply ver (reg_view st) sub
    \<and> (case registry_apply ver st sub of Inl _ \<Rightarrow> True | Inr st' \<Rightarrow> reg_inv st')"
  using assms by (cases "reg_view st (head_key sub)")
    (auto simp: registry_apply_put abstract_apply_def reg_view_put_head put_head_inv)

definition some_head :: head_entry where
  "some_head = \<lparr>owner = 7, h_name = [97], h_cid = 1, version = 1, h_signature = replicate 64 0\<rparr>"

lemma some_head_simps [simp]: "head_key (some_head\<lparr>h_cid := c\<rparr>) = (7, [97])" "head_key some_head = (7, [97])"
  "version (some_head\<lparr>h_cid := c\<rparr>) = 1" "version some_head = 1"
  "head_verify (\<lambda>_ _ _. True) (some_head\<lparr>h_cid := c\<rparr>)" "head_verify (\<lambda>_ _ _. True) some_head"
  by (simp_all add: some_head_def head_key_def head_verify_def valid_sig_def)

theorem registry_apply_refines_witness:
  "reg_inv [some_head] \<and>
   map_sum id reg_view (registry_apply (\<lambda>_ _ _. True) [some_head] some_head) = Inl ''stale-version''"
proof -
  have inv: "reg_inv [some_head]" by (simp add: reg_inv_def)
  have "reg_view [some_head] (7, [97]) = Some some_head"
    using inv by (simp add: reg_view_get)
  then show ?thesis
    using inv registry_apply_refines [OF inv, of "\<lambda>_ _ _. True" some_head] by (simp add: abstract_apply_def)
qed

text \<open>(C6) Replicas converge: when no owner signs two different heads of one name with one version,
  the state reached from any order and repetition of the same entries is the same vector, and each key
  is held at the highest version signed.\<close>

theorem registry_merge_converges:
  assumes "\<forall>e \<in> set es. \<forall>f \<in> set es. head_verify ver e \<and> head_verify ver f \<and> head_key e = head_key f \<and> version e = version f \<longrightarrow> e = f"
    and "set es = set fs"
  shows "merge ver es [] = merge ver fs []
    \<and> map_option version (reg_view (merge ver es []) k) = best (version ` {e \<in> set es. head_key e = k \<and> head_verify ver e})"
proof -
  have inv: "reg_inv (merge ver xs [])" for xs unfolding merge_def by (rule heads.inv_fold) simp
  have rank: "map_option version (reg_view (merge ver xs []) k) = best (version ` {e \<in> set xs. head_key e = k \<and> head_verify ver e})" for xs k
    unfolding merge_def by (rule heads.rank_from_empty) simp_all
  have prov: "reg_view (merge ver xs []) k = Some e \<Longrightarrow> e \<in> set xs \<and> head_verify ver e \<and> head_key e = k" for xs k e
    unfolding merge_def using heads.provenance [of "[]" ver xs k e] by simp
  have "reg_view (merge ver es []) k = reg_view (merge ver fs []) k" for k
  proof -
    have same: "map_option version (reg_view (merge ver es []) k) = map_option version (reg_view (merge ver fs []) k)"
      using rank [of es k] rank [of fs k] assms(2) by simp
    then show ?thesis
    proof (cases "reg_view (merge ver es []) k")
      case (Some e)
      then obtain f where f: "reg_view (merge ver fs []) k = Some f" "version e = version f"
        using same by (cases "reg_view (merge ver fs []) k") auto
      have "e \<in> set es" "f \<in> set es" "head_verify ver e \<and> head_verify ver f \<and> head_key e = head_key f \<and> version e = version f"
        using assms(2) prov [OF Some] prov [OF f(1)] f(2) by auto
      then have "e = f" using assms(1) by blast
      then show ?thesis using Some f by simp
    qed simp
  qed
  then show ?thesis using reg_ext [OF inv inv] rank by blast
qed

theorem registry_merge_converges_witness:
  "merge (\<lambda>_ _ _. True) [some_head, some_head] [] = merge (\<lambda>_ _ _. True) [some_head] []"
  using registry_merge_converges [of "[some_head, some_head]" "\<lambda>_ _ _. True" "[some_head]"] by simp

text \<open>An owner who signs two heads of one name with the same version splits the replicas: each keeps
  the one it saw first, in whatever order they merge with each other.\<close>

theorem registry_equal_versions_split:
  assumes "head_verify ver d" "head_verify ver e" "head_key d = head_key e" "version d = version e"
  shows "merge ver [d] [e] = [e] \<and> merge ver [e] [d] = [d]"
proof -
  have "reg_view [x] (head_key x) = Some x" for x
    using reg_view_get [of "[x]" "head_key x"] by (simp add: reg_inv_def)
  from this [of d] this [of e] show ?thesis using assms by (simp add: merge_def merge_entry_put)
qed

theorem registry_equal_versions_split_witness:
  "merge (\<lambda>_ _ _. True) [some_head] [some_head\<lparr>h_cid := 2\<rparr>] = [some_head\<lparr>h_cid := 2\<rparr>]
   \<and> merge (\<lambda>_ _ _. True) [some_head\<lparr>h_cid := 2\<rparr>] [some_head] = [some_head]
   \<and> some_head\<lparr>h_cid := 2\<rparr> \<noteq> some_head"
proof -
  have "h_cid (some_head\<lparr>h_cid := 2\<rparr>) \<noteq> h_cid some_head" by (simp add: some_head_def)
  then have "some_head\<lparr>h_cid := 2\<rparr> \<noteq> some_head" by (rule contrapos_nn) (rule arg_cong)
  then show ?thesis using registry_equal_versions_split [of "\<lambda>_ _ _. True" some_head "some_head\<lparr>h_cid := 2\<rparr>"] by simp
qed

section \<open>Governed rows\<close>

text \<open>Both governed registries are one algorithm on rows \<open>(key, value, version)\<close>.\<close>

definition row_get :: "('k::linorder \<times> 'x \<times> u64) list \<Rightarrow> 'k \<Rightarrow> ('x \<times> u64) option" where
  "row_get st k = (case search_by (map fst st) k of Inr i \<Rightarrow> Some (snd (st ! i)) | Inl _ \<Rightarrow> None)"

definition row_put :: "'k::linorder \<Rightarrow> 'x \<Rightarrow> u64 \<Rightarrow> ('k \<times> 'x \<times> u64) list \<Rightarrow> ('k \<times> 'x \<times> u64) list" where
  "row_put k x v st = (case search_by (map fst st) k of Inr i \<Rightarrow> st[i := (k, x, v)] | Inl i \<Rightarrow> insert_at i (k, x, v) st)"

definition row_set :: "('k::linorder \<times> 'x \<times> u64) list \<Rightarrow> 'k \<Rightarrow> 'x \<Rightarrow> u64 \<Rightarrow> string + ('k \<times> 'x \<times> u64) list" where
  "row_set st k x v = (case row_get st k of
       Some (_, w) \<Rightarrow> if v \<le> w then Inl ''stale-version'' else Inr (row_put k x v st)
     | None \<Rightarrow> Inr (row_put k x v st))"

lemma program_set_row: "program_set st n c v = row_set st n c v" "program_resolve st n = map_option fst (row_get st n)"
  and config_set_row: "config_set st' n x v = row_set st' n x v" "config_resolve st' n = map_option fst (row_get st' n)"
  by (auto simp: program_set_def config_set_def program_resolve_def config_resolve_def row_set_def row_get_def row_put_def
      split: sum.split prod.split)

lemma row_put_map:
  assumes "bt_inv st" shows "row_put k x v st = bt_insert k (x, v) st"
proof -
  have "as_map fst (row_put k x v st) = bt_insert k (k, x, v) (as_map fst st)"
    using upsert_refines [of fst st "(k, x, v)"] assms by (simp add: row_put_def bt_inv_def)
  also have "\<dots> = as_map fst (bt_insert k (x, v) st)"
    by (induction st) (auto simp: as_map_def)
  finally have "map snd (as_map fst (row_put k x v st)) = map snd (as_map fst (bt_insert k (x, v) st))" by simp
  then show ?thesis by (simp add: as_map_def comp_def)
qed

lemma row_get_map:
  assumes "bt_inv st" shows "row_get st k = bt_get st k"
proof -
  have "row_get st k = map_option snd (bt_get (as_map fst st) k)"
    using search_by_get [of fst st k, symmetric] assms by (cases "search_by (map fst st) k") (simp_all add: row_get_def bt_inv_def)
  also have "\<dots> = bt_get st k" by (induction st) (auto simp: as_map_def)
  finally show ?thesis .
qed

lemma row_set_Inr:
  assumes "bt_inv st" "row_set st k x v = Inr st'"
  shows "bt_inv st' \<and> row_get st' = (row_get st)(k \<mapsto> (x, v)) \<and> (\<forall>y w. row_get st k = Some (y, w) \<longrightarrow> w < v)"
proof -
  from assms(2) have st': "st' = row_put k x v st" and "\<forall>y w. row_get st k = Some (y, w) \<longrightarrow> w < v"
    by (auto simp: row_set_def split: option.splits if_splits)
  moreover have "bt_inv st'" using assms(1) by (simp add: st' row_put_map)
  moreover have "row_get st' = (row_get st)(k \<mapsto> (x, v))"
    using assms(1) \<open>bt_inv st'\<close> by (intro ext) (simp add: row_get_map st' row_put_map)
  ultimately show ?thesis by blast
qed

lemma row_set_Inl: "row_set st k x v = Inl e \<longleftrightarrow> e = ''stale-version'' \<and> (\<exists>y w. row_get st k = Some (y, w) \<and> v \<le> w)"
  by (auto simp: row_set_def split: option.splits)

lemma row_get_Nil [simp]: "row_get [] k = None"
  by (simp add: row_get_def search_by_def)

text \<open>The signed bytes determine the head, for names shorter than $2^{32}$ bytes.\<close>

lemma head_signing_bytes_inj:
  assumes "head_signing_bytes o1 n1 c1 v1 = head_signing_bytes o2 n2 c2 v2" "length n1 < 2 ^ 32" "length n2 < 2 ^ 32"
  shows "o1 = o2 \<and> n1 = n2 \<and> c1 = c2 \<and> v1 = v2"
proof -
  from assms(1) have e: "be_bytes 32 o1 = be_bytes 32 o2"
    "be_bytes 4 (of_nat (length n1) :: u32) = be_bytes 4 (of_nat (length n2) :: u32)"
    "n1 @ be_bytes 32 c1 @ be_bytes 8 v1 = n2 @ be_bytes 32 c2 @ be_bytes 8 v2"
    by (simp_all add: head_signing_bytes_def append_eq_append_conv)
  then have "(of_nat (length n1) :: u32) = of_nat (length n2)" using be_bytes_inj by fastforce
  then have "unat (of_nat (length n1) :: u32) = unat (of_nat (length n2) :: u32)" by simp
  then have "length n1 = length n2" using assms(2,3) by (simp add: unat_of_nat take_bit_nat_eq_self)
  with e(3) have "n1 = n2" "be_bytes 32 c1 = be_bytes 32 c2" "be_bytes 8 v1 = be_bytes 8 v2" by simp_all
  then show ?thesis using e(1) be_bytes_inj [of 32 o1 o2] be_bytes_inj [of 32 c1 c2] be_bytes_inj [of 8 v1 v2] by simp
qed

end
