(* ===== verification/Governance.thy ===== *)
theory Governance
  imports Registry
begin

text \<open>
  Governance of the network's own policy, \<open>src/crates/com/src/gov.rs\<close>: proposals, k-of-n approvals
  against the governor set (a \<open>Quorum\<close>), the chain every node folds, and the program and config
  registries derived from it. \<open>ver\<close> is ed25519 and \<open>enc\<close> the postcard encoding of a proposal.
\<close>

section \<open>Proposals and approvals\<close>

definition GOV_DOMAIN :: bytes where "GOV_DOMAIN = ascii ''craftec/gov/1''"

datatype gov_action =
    SetProgram bytes bytes32
  | SetConfig bytes "64 word"
  | AddGovernor bytes32
  | RemoveGovernor bytes32
  | GovSetThreshold u64

record governance_proposal =
  gp_action :: gov_action
  gp_seq :: u64

record governance_approval =
  ga_proposal :: governance_proposal
  ga_signatures :: "member_signature list"

definition gov_signing_bytes :: "(governance_proposal \<Rightarrow> bytes) \<Rightarrow> governance_proposal \<Rightarrow> bytes" where
  "gov_signing_bytes enc p = GOV_DOMAIN @ enc p"

definition gov_sign :: "(bytes32 \<Rightarrow> bytes \<Rightarrow> bytes) \<Rightarrow> (governance_proposal \<Rightarrow> bytes) \<Rightarrow> governance_proposal \<Rightarrow> bytes32 \<Rightarrow> member_signature" where
  "gov_sign sg enc p m = \<lparr>member = m, signature = sg m (gov_signing_bytes enc p)\<rparr>"

fun gov_member_change :: "gov_action \<Rightarrow> member_change option" where
  "gov_member_change (AddGovernor g) = Some (AddM g)"
| "gov_member_change (RemoveGovernor g) = Some (RemoveM g)"
| "gov_member_change (GovSetThreshold t) = Some (SetThresholdM t)"
| "gov_member_change (SetProgram n c) = None"
| "gov_member_change (SetConfig k v) = None"

text \<open>The outer \<open>None\<close> is the overflow panic of \<open>set.seq + 1\<close>.\<close>

definition gov_authorizes :: "verifier \<Rightarrow> (governance_proposal \<Rightarrow> bytes) \<Rightarrow> governance_approval \<Rightarrow> quorum \<Rightarrow> bool option" where
  "gov_authorizes ver enc a q = (case checked_add (q_seq q) 1 of None \<Rightarrow> None | Some n \<Rightarrow>
     Some (gp_seq (ga_proposal a) = n \<and>
       count_signers ver q (gov_signing_bytes enc (ga_proposal a)) (ga_signatures a) \<ge> threshold q))"

definition gov_apply_to :: "verifier \<Rightarrow> (governance_proposal \<Rightarrow> bytes) \<Rightarrow> governance_approval \<Rightarrow> quorum \<Rightarrow> quorum option option" where
  "gov_apply_to ver enc a q = (case gov_authorizes ver enc a q of
       None \<Rightarrow> None
     | Some False \<Rightarrow> Some None
     | Some True \<Rightarrow> (case advance q (gov_member_change (gp_action (ga_proposal a))) of
          None \<Rightarrow> None | Some q' \<Rightarrow> Some (Some q')))"

section \<open>The chain\<close>

record governance_chain =
  gc_genesis :: quorum
  approvals :: "governance_approval list"

definition gc_new :: "quorum \<Rightarrow> governance_chain" where
  "gc_new g = \<lparr>gc_genesis = g, approvals = []\<rparr>"

definition gc_seq :: "governance_chain \<Rightarrow> u64 option" where
  "gc_seq c = checked_add (q_seq (gc_genesis c)) (of_nat (length (approvals c)))"

definition gc_current :: "verifier \<Rightarrow> (governance_proposal \<Rightarrow> bytes) \<Rightarrow> governance_chain \<Rightarrow> quorum option option" where
  "gc_current ver enc c = fold_chain (gov_apply_to ver enc) (gc_genesis c) (approvals c)"

definition gc_append :: "verifier \<Rightarrow> (governance_proposal \<Rightarrow> bytes) \<Rightarrow> governance_chain \<Rightarrow> governance_approval
    \<Rightarrow> (bool \<times> governance_chain) option" where
  "gc_append ver enc c a = (case gc_current ver enc c of
       None \<Rightarrow> None
     | Some None \<Rightarrow> Some (False, c)
     | Some (Some cur) \<Rightarrow> (case gov_apply_to ver enc a cur of
          None \<Rightarrow> None
        | Some None \<Rightarrow> Some (False, c)
        | Some (Some _) \<Rightarrow> Some (True, c\<lparr>approvals := approvals c @ [a]\<rparr>)))"

fun program_replay :: "u64 \<Rightarrow> governance_approval list \<Rightarrow> program_registry \<Rightarrow> program_registry option" where
  "program_replay s [] prg = Some prg"
| "program_replay s (a # as) prg = (case checked_add s 1 of None \<Rightarrow> None | Some n \<Rightarrow>
     program_replay n as (case gp_action (ga_proposal a) of
         SetProgram name cid \<Rightarrow> (case program_set prg name cid n of Inr nxt \<Rightarrow> nxt | Inl _ \<Rightarrow> prg)
       | _ \<Rightarrow> prg))"

definition gc_program_registry :: "governance_chain \<Rightarrow> program_registry option" where
  "gc_program_registry c = program_replay (q_seq (gc_genesis c)) (approvals c) []"

fun config_replay :: "u64 \<Rightarrow> governance_approval list \<Rightarrow> config_registry \<Rightarrow> config_registry option" where
  "config_replay s [] cfg = Some cfg"
| "config_replay s (a # as) cfg = (case checked_add s 1 of None \<Rightarrow> None | Some n \<Rightarrow>
     config_replay n as (case gp_action (ga_proposal a) of
         SetConfig key x \<Rightarrow> (case config_set cfg key x n of Inr nxt \<Rightarrow> nxt | Inl _ \<Rightarrow> cfg)
       | _ \<Rightarrow> cfg))"

definition gc_config_registry :: "governance_chain \<Rightarrow> config_registry option" where
  "gc_config_registry c = config_replay (q_seq (gc_genesis c)) (approvals c) []"

section \<open>Lemmas\<close>

lemma gov_apply_to_Some:
  "gov_apply_to ver enc a q = Some (Some q') \<longleftrightarrow>
     gov_authorizes ver enc a q = Some True \<and> advance q (gov_member_change (gp_action (ga_proposal a))) = Some q'"
  by (auto simp: gov_apply_to_def split: option.splits bool.splits)

interpretation gov: approval_chain "gov_apply_to ver enc" for ver enc
  by unfold_locales (auto simp only: gov_apply_to_Some intro: advance_seq advance_wf)

lemma fold_chain_Cons:
  "fold_chain f q (a # as) = Some (Some r) \<longleftrightarrow> (\<exists>q'. f a q = Some (Some q') \<and> fold_chain f q' as = Some (Some r))"
  by (auto split: option.splits)

text \<open>Replaying rows with their sequence numbers as versions keeps the last write of every key.\<close>

fun row_replay :: "('a \<Rightarrow> ('k::linorder \<times> 'x) option) \<Rightarrow> u64 \<Rightarrow> 'a list \<Rightarrow> ('k \<times> 'x \<times> u64) list \<Rightarrow> ('k \<times> 'x \<times> u64) list option" where
  "row_replay w s [] st = Some st"
| "row_replay w s (a # as) st = (case checked_add s 1 of None \<Rightarrow> None | Some n \<Rightarrow>
     row_replay w n as (case w a of Some (k, x) \<Rightarrow> (case row_set st k x n of Inr nxt \<Rightarrow> nxt | Inl _ \<Rightarrow> st) | None \<Rightarrow> st))"

definition last_write :: "('a \<Rightarrow> ('k \<times> 'x) option) \<Rightarrow> 'k \<Rightarrow> 'a list \<Rightarrow> 'x option \<Rightarrow> 'x option" where
  "last_write w k as z = fold (\<lambda>a r. case w a of Some (k', x) \<Rightarrow> if k' = k then Some x else r | None \<Rightarrow> r) as z"

lemma row_replay_last:
  assumes "bt_inv st" "\<forall>k x v. row_get st k = Some (x, v) \<longrightarrow> v \<le> s" "unat s + length as < 2 ^ 64"
  shows "\<exists>st'. row_replay w s as st = Some st' \<and> bt_inv st'
    \<and> (\<forall>k. map_option fst (row_get st' k) = last_write w k as (map_option fst (row_get st k)))"
  using assms
proof (induction as arbitrary: s st)
  case (Cons a as)
  have n: "checked_add s 1 = Some (s + 1)" "s < s + 1" "unat (s + 1) = Suc (unat s)"
    using Cons.prems(3) by (simp_all add: checked_add_def word_less_nat_alt unat_word_ariths)
  show ?case
  proof (cases "w a")
    case None
    have "\<forall>k x v. row_get st k = Some (x, v) \<longrightarrow> v \<le> s + 1" using Cons.prems(2) n(2) by (meson less_imp_le order_trans)
    then show ?thesis using Cons.IH [of st "s + 1"] Cons.prems n None by (simp add: last_write_def)
  next
    case (Some p)
    obtain k x where p: "p = (k, x)" by (cases p)
    have "\<nexists>e. row_set st k x (s + 1) = Inl e" using Cons.prems(2) n(2) by (meson leD le_less_trans row_set_Inl)
    then obtain st1 where st1: "row_set st k x (s + 1) = Inr st1" by (cases "row_set st k x (s + 1)") auto
    note row = row_set_Inr [OF Cons.prems(1) st1]
    have up: "v \<le> s \<Longrightarrow> v \<le> s + 1" for v using n(2) by simp
    have "\<forall>k x v. row_get st1 k = Some (x, v) \<longrightarrow> v \<le> s + 1" using Cons.prems(2) row up by auto
    with Cons.IH [of st1 "s + 1"] row Cons.prems(3) n
    obtain st' where "row_replay w (s + 1) as st1 = Some st'" "bt_inv st'"
      "\<forall>k. map_option fst (row_get st' k) = last_write w k as (map_option fst (row_get st1 k))" by auto
    then show ?thesis using n st1 row Some p by (simp add: last_write_def)
  qed
qed (simp add: last_write_def)

definition sets_program :: "governance_approval \<Rightarrow> (bytes \<times> bytes32) option" where
  "sets_program a = (case gp_action (ga_proposal a) of SetProgram n c \<Rightarrow> Some (n, c) | _ \<Rightarrow> None)"

definition sets_config :: "governance_approval \<Rightarrow> (bytes \<times> 64 word) option" where
  "sets_config a = (case gp_action (ga_proposal a) of SetConfig k x \<Rightarrow> Some (k, x) | _ \<Rightarrow> None)"

lemma program_replay_row: "program_replay s as prg = row_replay sets_program s as prg"
  by (induction s as prg rule: program_replay.induct)
    (auto simp: sets_program_def program_set_row split: option.split gov_action.split)

lemma config_replay_row: "config_replay s as cfg = row_replay sets_config s as cfg"
  by (induction s as cfg rule: config_replay.induct)
    (auto simp: sets_config_def config_set_row split: option.split gov_action.split)

lemma gov_authorized_signers:
  assumes "quorum_wf q" "gov_authorizes ver enc a q = Some True"
  shows "set (signers ver q (gov_signing_bytes enc (ga_proposal a)) (ga_signatures a)) \<subseteq> set (members q)"
    and "threshold q \<le> card (set (signers ver q (gov_signing_bytes enc (ga_proposal a)) (ga_signatures a)))"
    and "checked_add (q_seq q) 1 = Some (gp_seq (ga_proposal a))"
  using assms signers_subset by (auto simp: gov_authorizes_def count_signers_card split: option.splits)

text \<open>A set of faulty governors the sets along a chain tolerate, and governors outside it sign one
  proposal per sequence number.\<close>

definition tolerated :: "bytes32 set \<Rightarrow> quorum \<Rightarrow> bool" where
  "tolerated F q \<longleftrightarrow> is_intersection_sized q \<and> card (F \<inter> set (members q)) \<le> byzantine_tolerance q"

definition signs_once :: "verifier \<Rightarrow> (governance_proposal \<Rightarrow> bytes) \<Rightarrow> bytes32 set \<Rightarrow> bool" where
  "signs_once ver enc F \<longleftrightarrow> (\<forall>m p p' x x'. m \<notin> F \<and> valid_sig ver m (gov_signing_bytes enc p) x
     \<and> valid_sig ver m (gov_signing_bytes enc p') x' \<and> gp_seq p = gp_seq p' \<longrightarrow> p = p')"

lemma authorized_same_proposal:
  assumes "quorum_wf q" "tolerated F q" "signs_once ver enc F"
    and "gov_authorizes ver enc a q = Some True" "gov_authorizes ver enc b q = Some True"
  shows "ga_proposal a = ga_proposal b"
proof -
  note A = gov_authorized_signers [OF assms(1,4)] and B = gov_authorized_signers [OF assms(1,5)]
  have "is_intersection_sized q" "card (F \<inter> set (members q)) \<le> byzantine_tolerance q"
    using assms(2) by (simp_all add: tolerated_def)
  from quorum_intersection [OF assms(1) this(1) A(1,2) B(1,2) this(2)] obtain m where "m \<notin> F"
    "\<exists>x. valid_sig ver m (gov_signing_bytes enc (ga_proposal a)) x" "\<exists>x. valid_sig ver m (gov_signing_bytes enc (ga_proposal b)) x"
    using signers_valid by metis
  moreover have "gp_seq (ga_proposal a) = gp_seq (ga_proposal b)" using A(3) B(3) by simp
  ultimately show ?thesis using assms(3) unfolding signs_once_def by blast
qed

lemma chains_prefix:
  assumes "quorum_wf q" "signs_once ver enc F"
    and "\<forall>n r. fold_chain (gov_apply_to ver enc) q (take n as) = Some (Some r) \<longrightarrow> tolerated F r"
    and "fold_chain (gov_apply_to ver enc) q as = Some (Some r)" "fold_chain (gov_apply_to ver enc) q bs = Some (Some t)"
    and "length as \<le> length bs"
  shows "map ga_proposal as = take (length as) (map ga_proposal bs)"
  using assms
proof (induction as arbitrary: q bs)
  case (Cons a as)
  then obtain b bs' where bs: "bs = b # bs'" by (cases bs) auto
  obtain q1 where q1: "gov_apply_to ver enc a q = Some (Some q1)" "fold_chain (gov_apply_to ver enc) q1 as = Some (Some r)"
    using Cons.prems(4) by (auto simp only: fold_chain_Cons)
  obtain q2 where q2: "gov_apply_to ver enc b q = Some (Some q2)" "fold_chain (gov_apply_to ver enc) q2 bs' = Some (Some t)"
    using Cons.prems(5) unfolding bs by (auto simp only: fold_chain_Cons)
  have tol: "tolerated F q" using Cons.prems(3) [THEN spec [of _ 0], THEN spec [of _ q]] by simp
  have same: "ga_proposal a = ga_proposal b"
    using q1(1) q2(1) unfolding gov_apply_to_Some by (blast intro: authorized_same_proposal [OF Cons.prems(1) tol Cons.prems(2)])
  then have "q1 = q2" using q1(1) q2(1) by (simp add: gov_apply_to_Some)
  have "\<forall>n r. fold_chain (gov_apply_to ver enc) q1 (take n as) = Some (Some r) \<longrightarrow> tolerated F r"
  proof (intro allI impI)
    fix n r assume "fold_chain (gov_apply_to ver enc) q1 (take n as) = Some (Some r)"
    then show "tolerated F r" using Cons.prems(3) [THEN spec [of _ "Suc n"], THEN spec [of _ r]] q1(1) by simp
  qed
  from Cons.IH [OF gov.wf_step [OF Cons.prems(1) q1(1)] Cons.prems(2) this q1(2) q2(2) [folded \<open>q1 = q2\<close>]]
  show ?case using Cons.prems(6) bs same by simp
qed simp

section \<open>Properties\<close>

text \<open>(C5) Governance does not fork: for two valid chains from one genesis, if every governor set
  along the shorter one is intersection sized and has no more faulty governors than it tolerates, and the
  other governors sign one proposal per sequence number, then the shorter chain's proposals are a prefix
  of the longer one's.\<close>

theorem governance_no_fork:
  assumes "quorum_wf (gc_genesis c)" "gc_genesis d = gc_genesis c" "signs_once ver enc F"
    and "\<forall>n r. gc_current ver enc (c\<lparr>approvals := take n (approvals c)\<rparr>) = Some (Some r) \<longrightarrow> tolerated F r"
    and "gc_current ver enc c = Some (Some r)" "gc_current ver enc d = Some (Some t)"
    and "length (approvals c) \<le> length (approvals d)"
  shows "map ga_proposal (approvals c) = take (length (approvals c)) (map ga_proposal (approvals d))"
  using chains_prefix [OF assms(1,3), of "approvals c" r "approvals d" t] assms by (simp add: gc_current_def)

text \<open>(C25) The registries derived from a chain that does not overflow the sequence number exist, are
  sorted, and hold for every name the program of the last \<open>SetProgram\<close> and for every key the value of the
  last \<open>SetConfig\<close> of the chain.\<close>

theorem governed_registries_last:
  assumes "unat (q_seq (gc_genesis c)) + length (approvals c) < 2 ^ 64"
  shows "\<exists>prg cfg. gc_program_registry c = Some prg \<and> bt_inv prg \<and> gc_config_registry c = Some cfg \<and> bt_inv cfg
    \<and> (\<forall>n. program_resolve prg n = last_write sets_program n (approvals c) None)
    \<and> (\<forall>k. config_resolve cfg k = last_write sets_config k (approvals c) None)"
proof -
  have nil: "\<forall>k x v. row_get [] k = Some (x, v) \<longrightarrow> v \<le> q_seq (gc_genesis c)" by simp
  from row_replay_last [OF bt_inv_Nil nil assms, of sets_program] row_replay_last [OF bt_inv_Nil nil assms, of sets_config]
  show ?thesis
    by (auto simp: gc_program_registry_def gc_config_registry_def program_replay_row config_replay_row program_set_row config_set_row)
qed

section \<open>Witnesses\<close>

definition approval :: "gov_action \<Rightarrow> u64 \<Rightarrow> bytes32 list \<Rightarrow> governance_approval" where
  "approval act n ms = \<lparr>ga_proposal = \<lparr>gp_action = act, gp_seq = n\<rparr>, ga_signatures = map (\<lambda>m. \<lparr>member = m, signature = replicate 64 0\<rparr>) ms\<rparr>"

lemma approval_applies:
  assumes "quorum_wf q" "distinct ms" "set ms \<subseteq> set (members q)" "threshold q \<le> length ms"
    and "\<forall>m \<in> set ms. ver m (gov_signing_bytes enc \<lparr>gp_action = act, gp_seq = n\<rparr>) (replicate 64 0)"
    and "checked_add (q_seq q) 1 = Some n" "advance q (gov_member_change act) = Some q'"
  shows "gov_apply_to ver enc (approval act n ms) q = Some (Some q')"
proof -
  have "filter (\<lambda>s. is_member q (member s) \<and> valid_sig ver (member s) (gov_signing_bytes enc \<lparr>gp_action = act, gp_seq = n\<rparr>) (signature s))
      (ga_signatures (approval act n ms)) = ga_signatures (approval act n ms)"
    using assms(1,3,5) by (auto simp: approval_def filter_id_conv is_member_iff valid_sig_def)
  then have "signers ver q (gov_signing_bytes enc \<lparr>gp_action = act, gp_seq = n\<rparr>) (ga_signatures (approval act n ms)) = ms"
    using assms(2) by (simp add: signers_def) (simp add: approval_def comp_def)
  then show ?thesis
    using assms(4,6,7) by (simp add: gov_apply_to_Some gov_authorizes_def count_signers_def) (simp add: approval_def)
qed

definition council :: "bytes32 list \<Rightarrow> nat \<Rightarrow> quorum" where
  "council ms t = \<lparr>members = ms, threshold = t, q_seq = 0\<rparr>"

lemma council_payload:
  "advance (council ms t) (gov_member_change (SetConfig k x)) = Some (\<lparr>members = ms, threshold = t, q_seq = 1\<rparr>)"
  "checked_add (q_seq (council ms t)) 1 = Some 1"
  by (simp_all add: advance_def council_def checked_add_def)

definition fork_chain :: "64 word \<Rightarrow> bytes32 list \<Rightarrow> governance_chain" where
  "fork_chain x ms = \<lparr>gc_genesis = council [1, 2, 3, 4] 2, approvals = [approval (SetConfig [115] x) 1 ms]\<rparr>"

text \<open>Sequence numbers alone do not order the chain: four governors with threshold two, each
  signing once, produce two valid chains of the same length that set one key to different values.\<close>

theorem governance_forks:
  "quorum_wf (gc_genesis (fork_chain 8 [1, 2])) \<and> gc_genesis (fork_chain 9 [3, 4]) = gc_genesis (fork_chain 8 [1, 2])
   \<and> (\<exists>q. gc_current any_ver no_enc (fork_chain 8 [1, 2]) = Some (Some q) \<and> gc_current any_ver no_enc (fork_chain 9 [3, 4]) = Some (Some q))
   \<and> map_option (\<lambda>r. config_resolve r [115]) (gc_config_registry (fork_chain 8 [1, 2])) = Some (Some 8)
   \<and> map_option (\<lambda>r. config_resolve r [115]) (gc_config_registry (fork_chain 9 [3, 4])) = Some (Some 9)"
proof -
  have wf: "quorum_wf (council [1, 2, 3, 4] 2)" by (simp add: quorum_wf_def council_def word_le_nat_alt)
  have "gov_apply_to any_ver no_enc (approval (SetConfig [115] x) 1 ms) (council [1, 2, 3, 4] 2)
      = Some (Some \<lparr>members = [1, 2, 3, 4], threshold = 2, q_seq = 1\<rparr>)"
    if "distinct ms" "set ms \<subseteq> {1, 2, 3, 4}" "2 \<le> length ms" for x ms
    using that wf by (intro approval_applies council_payload) (auto simp: council_def any_ver_def)
  from this [of "[1, 2]" 8] this [of "[3, 4]" 9] have "gc_current any_ver no_enc (fork_chain 8 [1, 2])
      = Some (Some \<lparr>members = [1, 2, 3, 4], threshold = 2, q_seq = 1\<rparr>)"
    "gc_current any_ver no_enc (fork_chain 9 [3, 4]) = Some (Some \<lparr>members = [1, 2, 3, 4], threshold = 2, q_seq = 1\<rparr>)"
    by (simp_all add: gc_current_def fork_chain_def)
  moreover have "map_option (\<lambda>r. config_resolve r [115]) (gc_config_registry (fork_chain x ms)) = Some (Some x)" for x ms
    by (simp add: gc_config_registry_def fork_chain_def council_def checked_add_def approval_def config_set_def config_resolve_def
        search_by_def insert_at_def bsearch_base.simps)
  ultimately show ?thesis using wf by (simp add: fork_chain_def)
qed

theorem governed_registries_last_witness:
  "\<exists>cfg. gc_config_registry (fork_chain 8 []) = Some cfg \<and> config_resolve cfg [115] = Some 8"
proof -
  have "unat (q_seq (gc_genesis (fork_chain 8 []))) + length (approvals (fork_chain 8 [])) < 2 ^ 64"
    "last_write sets_config [115] (approvals (fork_chain 8 [])) None = Some 8"
    by (simp_all add: fork_chain_def council_def last_write_def sets_config_def approval_def)
  then show ?thesis using governed_registries_last [of "fork_chain 8 []"] by metis
qed

definition one_proposal :: governance_proposal where
  "one_proposal = \<lparr>gp_action = SetConfig [115] 8, gp_seq = 1\<rparr>"

definition one_enc :: "governance_proposal \<Rightarrow> bytes" where
  "one_enc p = (if p = one_proposal then [1] else [0])"

definition one_ver :: verifier where
  "one_ver pk msg sig \<longleftrightarrow> msg = GOV_DOMAIN @ [1]"

definition one_chain :: governance_chain where
  "one_chain = \<lparr>gc_genesis = council [5] 1, approvals = [approval (SetConfig [115] 8) 1 [5]]\<rparr>"

theorem governance_no_fork_witness:
  "map ga_proposal (approvals one_chain) = take 1 (map ga_proposal (approvals one_chain)) \<and> signs_once one_ver one_enc {}"
proof -
  have wf: "quorum_wf (council [5] 1)" by (simp add: quorum_wf_def council_def)
  have once: "signs_once one_ver one_enc {}"
    by (auto simp: signs_once_def valid_sig_def one_ver_def gov_signing_bytes_def one_enc_def split: if_splits)
  have step: "gov_apply_to one_ver one_enc (approval (SetConfig [115] 8) 1 [5]) (council [5] 1)
      = Some (Some \<lparr>members = [5], threshold = 1, q_seq = 1\<rparr>)"
    using wf by (intro approval_applies council_payload)
      (auto simp: council_def one_ver_def gov_signing_bytes_def one_enc_def one_proposal_def)
  then have cur: "gc_current one_ver one_enc one_chain = Some (Some \<lparr>members = [5], threshold = 1, q_seq = 1\<rparr>)"
    by (simp add: gc_current_def one_chain_def)
  have tol: "\<forall>n r. gc_current one_ver one_enc (one_chain\<lparr>approvals := take n (approvals one_chain)\<rparr>) = Some (Some r) \<longrightarrow> tolerated {} r"
  proof (intro allI impI)
    fix n r assume r: "gc_current one_ver one_enc (one_chain\<lparr>approvals := take n (approvals one_chain)\<rparr>) = Some (Some r)"
    have "members r = [5] \<and> threshold r = 1"
      using r step by (cases n) (auto simp: gc_current_def one_chain_def council_def)
    then show "tolerated {} r" by (simp add: tolerated_def is_intersection_sized_def)
  qed
  have "gc_genesis one_chain = council [5] 1" "length (approvals one_chain) = 1" by (simp_all add: one_chain_def)
  then show ?thesis using governance_no_fork [OF _ refl once tol cur cur] wf once by simp
qed

end
