(* ===== verification/DHT_Record.thy ===== *)
theory DHT_Record
  imports Quorum Latest_Wins
begin

text \<open>
  Signed records and the local record store of the hash table, \<open>src/crates/dht/src/record.rs\<close>: per
  key and publisher the record of the highest sequence number, with an expiry. Hash maps are sorted
  lists, the clock is an argument, ed25519 is the parameter \<open>ver\<close>, and a snapshot is the list of
  persisted records (the file and its postcard encoding are the caller's).
\<close>

section \<open>Records\<close>

record stored_record =
  sr_key :: bytes32
  sr_publisher :: bytes32
  sr_seq :: u64
  sr_value :: bytes
  sr_sig :: bytes

definition sr_signing_bytes :: "bytes32 \<Rightarrow> bytes32 \<Rightarrow> u64 \<Rightarrow> bytes \<Rightarrow> bytes" where
  "sr_signing_bytes key publisher s v = be_bytes 32 key @ be_bytes 32 publisher @ be_bytes 8 s @ v"

definition sr_sign :: "(bytes32 \<Rightarrow> bytes \<Rightarrow> bytes) \<Rightarrow> bytes32 \<Rightarrow> bytes32 \<Rightarrow> u64 \<Rightarrow> bytes \<Rightarrow> stored_record" where
  "sr_sign sg publisher key s v = \<lparr>sr_key = key, sr_publisher = publisher, sr_seq = s, sr_value = v,
     sr_sig = sg publisher (sr_signing_bytes key publisher s v)\<rparr>"

definition sr_verify :: "verifier \<Rightarrow> stored_record \<Rightarrow> bool" where
  "sr_verify ver r = valid_sig ver (sr_publisher r) (sr_signing_bytes (sr_key r) (sr_publisher r) (sr_seq r) (sr_value r)) (sr_sig r)"

section \<open>The store\<close>

type_synonym expiring = "stored_record \<times> u64"
type_synonym per_key = "(bytes32, expiring) btree"
type_synonym record_map = "(bytes32, per_key) btree"

record record_store =
  rs_inner :: record_map
  ttl_millis :: u64

definition rs_new :: "u64 \<Rightarrow> record_store" where
  "rs_new ttl = \<lparr>rs_inner = [], ttl_millis = ttl\<rparr>"

definition rs_insert :: "stored_record \<Rightarrow> u64 \<Rightarrow> record_map \<Rightarrow> record_map" where
  "rs_insert r expires m = bt_insert (sr_key r) (bt_insert (sr_publisher r) (r, expires) (bt_get_or [] m (sr_key r))) m"

definition rs_put :: "verifier \<Rightarrow> stored_record \<Rightarrow> u64 \<Rightarrow> record_store \<Rightarrow> bool \<times> record_store" where
  "rs_put ver r now st = (if \<not> sr_verify ver r then (False, st)
     else case bt_get (bt_get_or [] (rs_inner st) (sr_key r)) (sr_publisher r) of
         Some (existing, _) \<Rightarrow> if sr_seq existing \<ge> sr_seq r then (False, st)
           else (True, st\<lparr>rs_inner := rs_insert r (sat_add now (ttl_millis st)) (rs_inner st)\<rparr>)
       | None \<Rightarrow> (True, st\<lparr>rs_inner := rs_insert r (sat_add now (ttl_millis st)) (rs_inner st)\<rparr>))"

definition rs_get :: "bytes32 \<Rightarrow> u64 \<Rightarrow> record_store \<Rightarrow> stored_record list" where
  "rs_get key now st = (case bt_get (rs_inner st) key of None \<Rightarrow> []
     | Some pk \<Rightarrow> map fst (filter (\<lambda>(r, ex). ex > now) (map snd pk)))"

definition live_entries :: "u64 \<Rightarrow> per_key \<Rightarrow> per_key" where
  "live_entries now pk = filter (\<lambda>(p, r, ex). ex > now) pk"

definition rs_expire :: "u64 \<Rightarrow> record_store \<Rightarrow> nat \<times> record_store" where
  "rs_expire now st =
     (let removed = (\<Sum>(k, pk)\<leftarrow>rs_inner st. length pk - length (live_entries now pk)) in
      (removed, st\<lparr>rs_inner := filter (\<lambda>(k, pk). pk \<noteq> []) (map (\<lambda>(k, pk). (k, live_entries now pk)) (rs_inner st))\<rparr>))"

definition rs_len :: "record_store \<Rightarrow> nat" where
  "rs_len st = (\<Sum>(k, pk)\<leftarrow>rs_inner st. length pk)"

definition rs_save :: "record_store \<Rightarrow> expiring list" where
  "rs_save st = concat (map (\<lambda>(k, pk). map snd pk) (rs_inner st))"

definition rs_load_step :: "verifier \<Rightarrow> u64 \<Rightarrow> expiring \<Rightarrow> nat \<times> record_map \<Rightarrow> nat \<times> record_map" where
  "rs_load_step ver now e acc = (case e of (r, expires) \<Rightarrow> case acc of (loaded, m) \<Rightarrow>
     if expires \<le> now then (loaded, m)
     else if \<not> sr_verify ver r then (loaded, m)
     else case bt_get (bt_get_or [] m (sr_key r)) (sr_publisher r) of
         Some (existing, _) \<Rightarrow> if sr_seq existing \<ge> sr_seq r then (loaded, m) else (Suc loaded, rs_insert r expires m)
       | None \<Rightarrow> (Suc loaded, rs_insert r expires m))"

definition rs_load_from :: "verifier \<Rightarrow> expiring list option \<Rightarrow> u64 \<Rightarrow> record_store \<Rightarrow> nat \<times> record_store" where
  "rs_load_from ver snap now st = (case snap of None \<Rightarrow> (0, st)
     | Some rs \<Rightarrow> (case fold (rs_load_step ver now) rs (0, rs_inner st) of (loaded, m) \<Rightarrow> (loaded, st\<lparr>rs_inner := m\<rparr>)))"

section \<open>The store as a map\<close>

definition rm_get :: "record_map \<Rightarrow> bytes32 \<times> bytes32 \<Rightarrow> expiring option" where
  "rm_get m k = (case bt_get m (fst k) of None \<Rightarrow> None | Some pk \<Rightarrow> bt_get pk (snd k))"

definition pk_ok :: "verifier \<Rightarrow> bytes32 \<Rightarrow> per_key \<Rightarrow> bool" where
  "pk_ok ver k pk \<longleftrightarrow> bt_inv pk \<and> (\<forall>(p, r, ex) \<in> set pk. sr_key r = k \<and> sr_publisher r = p \<and> sr_verify ver r)"

definition rm_inv :: "verifier \<Rightarrow> record_map \<Rightarrow> bool" where
  "rm_inv ver m \<longleftrightarrow> bt_inv m \<and> (\<forall>(k, pk) \<in> set m. pk \<noteq> [] \<and> pk_ok ver k pk)"

definition entry_key :: "expiring \<Rightarrow> bytes32 \<times> bytes32" where
  "entry_key e = (sr_key (fst e), sr_publisher (fst e))"

definition entry_seq :: "expiring \<Rightarrow> u64" where
  "entry_seq e = sr_seq (fst e)"

definition store_entry :: "verifier \<Rightarrow> expiring \<Rightarrow> record_map \<Rightarrow> record_map" where
  "store_entry ver e m = (if sr_verify ver (fst e) \<and> (case rm_get m (entry_key e) of None \<Rightarrow> True | Some f \<Rightarrow> entry_seq f < entry_seq e)
     then rs_insert (fst e) (snd e) m else m)"

lemma rm_get_or: "bt_get (bt_get_or [] m k) p = rm_get m (k, p)"
  by (simp add: bt_get_or_def rm_get_def split: option.split)

lemma rm_get_insert: "rm_get (rs_insert r ex m) k = (if k = (sr_key r, sr_publisher r) then Some (r, ex) else rm_get m k)"
  by (cases k) (auto simp: rs_insert_def rm_get_def bt_get_or_def split: option.split)

lemma set_bt_insert: "bt_inv m \<Longrightarrow> set (bt_insert k v m) = insert (k, v) {x \<in> set m. fst x \<noteq> k}"
  by (induction k v m rule: bt_insert.induct) (auto dest: less_imp_neq)

lemma pk_ok_filter: "pk_ok ver k pk \<Longrightarrow> pk_ok ver k (filter P pk)"
  by (auto simp: pk_ok_def bt_inv_filter)

lemma pk_ok_insert: "pk_ok ver k pk \<Longrightarrow> sr_key r = k \<Longrightarrow> sr_verify ver r \<Longrightarrow> pk_ok ver k (bt_insert (sr_publisher r) (r, ex) pk)"
  by (auto simp: pk_ok_def set_bt_insert)

lemma rm_inv_pk: "rm_inv ver m \<Longrightarrow> bt_get m k = Some pk \<Longrightarrow> bt_inv pk \<and> pk \<noteq> [] \<and> pk_ok ver k pk"
  by (auto simp: rm_inv_def bt_get_Some_iff pk_ok_def)

lemma rm_inv_insert:
  assumes "rm_inv ver m" "sr_verify ver r"
  shows "rm_inv ver (rs_insert r ex m)"
proof -
  have "pk_ok ver (sr_key r) (bt_get_or [] m (sr_key r))"
    using rm_inv_pk [OF assms(1), of "sr_key r"] by (auto simp: bt_get_or_def pk_ok_def split: option.split)
  then have "pk_ok ver (sr_key r) (bt_insert (sr_publisher r) (r, ex) (bt_get_or [] m (sr_key r)))"
    using assms(2) by (simp add: pk_ok_insert)
  moreover have "bt_insert (sr_publisher r) (r, ex) (bt_get_or [] m (sr_key r)) \<noteq> []"
    by (metis bt_get_Nil bt_get_insert option.distinct(1))
  ultimately show ?thesis
    using assms(1) by (auto simp: rm_inv_def rs_insert_def set_bt_insert)
qed

interpretation recs: latest_wins entry_key entry_seq "\<lambda>e. sr_verify ver (fst e)" "rm_inv ver" rm_get "store_entry ver" for ver
  by unfold_locales (auto simp: store_entry_def rm_inv_insert rm_get_insert entry_key_def entry_seq_def split: option.splits)

lemma rs_put_entry:
  "snd (rs_put ver r now st) = st\<lparr>rs_inner := store_entry ver (r, sat_add now (ttl_millis st)) (rs_inner st)\<rparr>"
  by (auto simp: rs_put_def rm_get_or store_entry_def entry_key_def entry_seq_def split: option.split)

lemma rs_load_entries:
  "snd (fold (rs_load_step ver now) es (n, m)) = fold (store_entry ver) (filter (\<lambda>e. now < snd e) es) m"
proof (induction es arbitrary: n m)
  case (Cons e es)
  have "snd (rs_load_step ver now e (n, m)) = (if now < snd e then store_entry ver e m else m)"
    by (cases e) (auto simp: rs_load_step_def rm_get_or store_entry_def entry_key_def entry_seq_def not_less split: option.split)
  then show ?case using Cons.IH by (cases "rs_load_step ver now e (n, m)") (simp split: if_splits)
qed simp

lemma rm_get_Some: "rm_inv ver m \<Longrightarrow> rm_get m (k, p) = Some e \<longleftrightarrow> (\<exists>pk. (k, pk) \<in> set m \<and> (p, e) \<in> set pk)"
proof -
  assume inv: "rm_inv ver m"
  have "rm_get m (k, p) = Some e \<longleftrightarrow> (\<exists>pk. bt_get m k = Some pk \<and> bt_get pk p = Some e)"
    by (auto simp: rm_get_def split: option.splits)
  also have "\<dots> \<longleftrightarrow> (\<exists>pk. bt_get m k = Some pk \<and> (p, e) \<in> set pk)"
    by (intro ex_cong1 conj_cong refl bt_get_Some_iff) (simp add: rm_inv_pk [OF inv])
  also have "\<dots> \<longleftrightarrow> (\<exists>pk. (k, pk) \<in> set m \<and> (p, e) \<in> set pk)"
    using inv by (simp add: rm_inv_def bt_get_Some_iff)
  finally show ?thesis .
qed

lemma rm_ext:
  assumes "rm_inv ver m" "rm_inv ver m'" "\<And>k. rm_get m k = rm_get m' k"
  shows "m = m'"
proof (rule bt_ext)
  show "bt_inv m" "bt_inv m'" using assms by (simp_all add: rm_inv_def)
  fix k
  have none: "bt_get n k = None" if "rm_inv ver n" "\<And>p. rm_get n (k, p) = None" for n
  proof (rule ccontr)
    assume "bt_get n k \<noteq> None"
    then obtain pk where pk: "bt_get n k = Some pk" by blast
    with rm_inv_pk [OF that(1) pk] obtain p e where "(p, e) \<in> set pk" by (cases pk) auto
    then have "p \<in> fst ` set pk" by force
    then have "bt_get pk p \<noteq> None" unfolding bt_get_None_iff by simp
    with pk that(2) [of p] show False by (simp add: rm_get_def)
  qed
  show "bt_get m k = bt_get m' k"
  proof (cases "bt_get m k")
    case None
    then have "rm_get m' (k, p) = None" for p using assms(3) [of "(k, p)"] by (simp add: rm_get_def)
    with none [OF assms(2)] None show ?thesis by simp
  next
    case (Some pk)
    have "bt_get m' k \<noteq> None"
    proof
      assume "bt_get m' k = None"
      then have "rm_get m (k, p) = None" for p using assms(3) [of "(k, p)"] by (simp add: rm_get_def)
      with none [OF assms(1)] Some show False by simp
    qed
    then obtain pk' where pk': "bt_get m' k = Some pk'" by blast
    have "bt_get pk p = bt_get pk' p" for p using assms(3) [of "(k, p)"] Some pk' by (simp add: rm_get_def)
    then have "pk = pk'" using rm_inv_pk [OF assms(1) Some] rm_inv_pk [OF assms(2) pk'] by (blast intro: bt_ext)
    with Some pk' show ?thesis by simp
  qed
qed

section \<open>Expiry and snapshots\<close>

definition rm_live :: "u64 \<Rightarrow> record_map \<Rightarrow> record_map" where
  "rm_live now m = filter (\<lambda>(k, pk). pk \<noteq> []) (map (\<lambda>(k, pk). (k, live_entries now pk)) m)"

lemma rs_expire_live: "rs_inner (snd (rs_expire now st)) = rm_live now (rs_inner st)"
  by (simp add: rs_expire_def rm_live_def Let_def)

lemma bt_inv_map: "bt_inv (map (\<lambda>(k, v). (k, f k v)) m) \<longleftrightarrow> bt_inv m"
  by (simp add: bt_inv_def comp_def case_prod_unfold)

lemma rm_live_inv: "rm_inv ver m \<Longrightarrow> rm_inv ver (rm_live now m)"
  by (auto simp: rm_inv_def rm_live_def live_entries_def bt_inv_filter bt_inv_map intro: pk_ok_filter)

lemma rm_live_mem: "(k, pk) \<in> set (rm_live now m) \<longleftrightarrow> pk \<noteq> [] \<and> (\<exists>pk'. (k, pk') \<in> set m \<and> pk = live_entries now pk')"
  by (auto simp: rm_live_def)

lemma live_entries_mem: "(p, e) \<in> set (live_entries now pk) \<longleftrightarrow> (p, e) \<in> set pk \<and> now < snd e"
  by (cases e) (simp add: live_entries_def)

lemma rm_live_entry:
  "(\<exists>pk. (k, pk) \<in> set (rm_live now m) \<and> (p, e) \<in> set pk) \<longleftrightarrow> (\<exists>pk. (k, pk) \<in> set m \<and> (p, e) \<in> set pk) \<and> now < snd e"
proof
  assume "\<exists>pk. (k, pk) \<in> set (rm_live now m) \<and> (p, e) \<in> set pk"
  then show "(\<exists>pk. (k, pk) \<in> set m \<and> (p, e) \<in> set pk) \<and> now < snd e"
    unfolding rm_live_mem using live_entries_mem by blast
next
  assume "(\<exists>pk. (k, pk) \<in> set m \<and> (p, e) \<in> set pk) \<and> now < snd e"
  then obtain pk where "(k, pk) \<in> set m" "(p, e) \<in> set (live_entries now pk)" by (auto simp: live_entries_mem)
  moreover from this(2) have "live_entries now pk \<noteq> []" by auto
  ultimately show "\<exists>pk. (k, pk) \<in> set (rm_live now m) \<and> (p, e) \<in> set pk" unfolding rm_live_mem by blast
qed

lemma rm_get_live:
  assumes "rm_inv ver m"
  shows "rm_get (rm_live now m) k = (case rm_get m k of None \<Rightarrow> None | Some e \<Rightarrow> if now < snd e then Some e else None)"
proof -
  obtain a b where k: "k = (a, b)" by (cases k)
  have iff: "rm_get (rm_live now m) (a, b) = Some e \<longleftrightarrow> rm_get m (a, b) = Some e \<and> now < snd e" for e
    unfolding rm_get_Some [OF rm_live_inv [OF assms]] rm_get_Some [OF assms] by (rule rm_live_entry)
  show ?thesis unfolding k
  proof (cases "rm_get (rm_live now m) (a, b)")
    case None
    then show "rm_get (rm_live now m) (a, b) = (case rm_get m (a, b) of None \<Rightarrow> None | Some e \<Rightarrow> if now < snd e then Some e else None)"
      using iff by (simp split: option.split)
  next
    case (Some e)
    then show "rm_get (rm_live now m) (a, b) = (case rm_get m (a, b) of None \<Rightarrow> None | Some e \<Rightarrow> if now < snd e then Some e else None)"
      using iff [of e] by simp
  qed
qed

lemma rm_inv_entry: "rm_inv ver m \<Longrightarrow> (k, pk) \<in> set m \<Longrightarrow> (p, e) \<in> set pk \<Longrightarrow> entry_key e = (k, p) \<and> sr_verify ver (fst e)"
  by (cases e) (force simp: rm_inv_def pk_ok_def entry_key_def)

lemma rs_save_mem:
  assumes "rm_inv ver (rs_inner st)"
  shows "e \<in> set (rs_save st) \<longleftrightarrow> rm_get (rs_inner st) (entry_key e) = Some e"
proof
  assume "e \<in> set (rs_save st)"
  then obtain k pk p where "(k, pk) \<in> set (rs_inner st)" "(p, e) \<in> set pk" by (auto simp: rs_save_def)
  with rm_inv_entry [OF assms this] show "rm_get (rs_inner st) (entry_key e) = Some e" using rm_get_Some [OF assms] by auto
next
  assume "rm_get (rs_inner st) (entry_key e) = Some e"
  then obtain pk where "(fst (entry_key e), pk) \<in> set (rs_inner st)" "(snd (entry_key e), e) \<in> set pk"
    using rm_get_Some [OF assms, of "fst (entry_key e)" "snd (entry_key e)" e] by auto
  then have "e \<in> snd ` set pk" "snd ` set pk \<subseteq> set (rs_save st)" by (force simp: rs_save_def)+
  then show "e \<in> set (rs_save st)" by blast
qed

lemma pk_ok_keys: "pk_ok ver k pk \<Longrightarrow> map entry_key (map snd pk) = map (Pair k) (map fst pk)"
  by (auto simp: pk_ok_def entry_key_def)

lemma keys_distinct:
  assumes "bt_inv m" "\<forall>x \<in> set m. bt_inv (snd x)"
  shows "distinct (concat (map (\<lambda>x. map (Pair (fst x)) (map fst (snd x))) m))"
  using assms
proof (induction m)
  case (Cons x m)
  have "bt_inv m" "\<forall>k \<in> fst ` set m. fst x < k" using Cons.prems(1) by (cases x; simp)+
  moreover have "distinct (map (Pair (fst x)) (map fst (snd x)))"
    using Cons.prems(2) bt_inv_distinct [of "snd x"] by (simp add: distinct_map inj_on_def)
  moreover have "fst y \<in> fst ` set m" if "y \<in> set (concat (map (\<lambda>x. map (Pair (fst x)) (map fst (snd x))) m))" for y
    using that by force
  moreover have "fst y = fst x" if "y \<in> set (map (Pair (fst x)) (map fst (snd x)))" for y using that by auto
  ultimately show ?case using Cons.IH Cons.prems(2) by (simp only: concat.simps list.map distinct_append) fastforce
qed simp

lemma rs_save_distinct: "rm_inv ver (rs_inner st) \<Longrightarrow> distinct (map entry_key (rs_save st))"
proof -
  assume inv: "rm_inv ver (rs_inner st)"
  have "map (\<lambda>x. map entry_key (map snd (snd x))) (rs_inner st) = map (\<lambda>x. map (Pair (fst x)) (map fst (snd x))) (rs_inner st)"
    using inv by (intro map_cong refl pk_ok_keys) (auto simp: rm_inv_def)
  then have "map entry_key (rs_save st) = concat (map (\<lambda>x. map (Pair (fst x)) (map fst (snd x))) (rs_inner st))"
    unfolding rs_save_def map_concat map_map comp_def case_prod_unfold by (rule arg_cong)
  moreover have "bt_inv (rs_inner st)" "\<forall>x \<in> set (rs_inner st). bt_inv (snd x)"
    using inv by (auto simp: rm_inv_def pk_ok_def)
  ultimately show ?thesis using keys_distinct [of "rs_inner st"] by (simp only:)
qed

text \<open>Loading entries of distinct keys into a map that has none of them keeps them all.\<close>

lemma load_step_fresh:
  "now < snd e \<Longrightarrow> sr_verify ver (fst e) \<Longrightarrow> rm_get m (entry_key e) = None \<Longrightarrow>
     rs_load_step ver now e (n, m) = (Suc n, rs_insert (fst e) (snd e) m)"
  by (cases e) (auto simp: rs_load_step_def rm_get_or entry_key_def not_le)

lemma load_fresh:
  assumes "distinct (map entry_key es)" "\<forall>e \<in> set es. sr_verify ver (fst e) \<and> rm_get m (entry_key e) = None"
  shows "fst (fold (rs_load_step ver now) es (n, m)) = n + length (filter (\<lambda>e. now < snd e) es)
    \<and> rm_get (snd (fold (rs_load_step ver now) es (n, m))) k
       = (case find (\<lambda>e. entry_key e = k) (filter (\<lambda>e. now < snd e) es) of Some e \<Rightarrow> Some e | None \<Rightarrow> rm_get m k)"
  using assms
proof (induction es arbitrary: n m)
  case (Cons e es)
  show ?case
  proof (cases "now < snd e")
    case True
    let ?m = "rs_insert (fst e) (snd e) m"
    have get: "rm_get ?m k = (if k = entry_key e then Some e else rm_get m k)" for k
      by (simp add: rm_get_insert entry_key_def)
    have "\<forall>f \<in> set es. sr_verify ver (fst f) \<and> rm_get ?m (entry_key f) = None"
      using Cons.prems unfolding get by (auto simp del: split_paired_All split_paired_Ex) (metis image_eqI)
    then have "fst (fold (rs_load_step ver now) es (Suc n, ?m)) = Suc n + length (filter (\<lambda>e. now < snd e) es)
      \<and> rm_get (snd (fold (rs_load_step ver now) es (Suc n, ?m))) k
         = (case find (\<lambda>e. entry_key e = k) (filter (\<lambda>e. now < snd e) es) of Some e \<Rightarrow> Some e | None \<Rightarrow> rm_get ?m k)"
      using Cons.IH [of ?m "Suc n"] Cons.prems(1) by simp
    moreover have "entry_key f \<noteq> entry_key e" if "f \<in> set es" for f
      using Cons.prems(1) that by (metis distinct.simps(2) image_eqI list.map(2) set_map)
    then have "find (\<lambda>f. entry_key f = entry_key e) (filter (\<lambda>e. now < snd e) es) = None"
      unfolding find_None_iff set_filter by blast
    ultimately show ?thesis using True Cons.prems(2) load_step_fresh [OF True] get by (auto split: option.split)
  next
    case False
    then have "rs_load_step ver now e (n, m) = (n, m)" by (cases e) (simp add: rs_load_step_def not_less)
    then show ?thesis using False Cons.IH [of m n] Cons.prems by simp
  qed
qed simp

lemma rm_get_find:
  assumes "rm_inv ver (rs_inner st)"
  shows "find (\<lambda>e. entry_key e = k) (filter (\<lambda>e. now < snd e) (rs_save st)) = rm_get (rm_live now (rs_inner st)) k"
proof (cases "find (\<lambda>e. entry_key e = k) (filter (\<lambda>e. now < snd e) (rs_save st))")
  case None
  have "rm_get (rm_live now (rs_inner st)) k = None"
  proof (cases "rm_get (rs_inner st) k")
    case (Some e)
    then obtain pk where "(fst k, pk) \<in> set (rs_inner st)" "(snd k, e) \<in> set pk"
      using rm_get_Some [OF assms, of "fst k" "snd k" e] by auto
    from rm_inv_entry [OF assms this] have "entry_key e = k" by simp
    with Some have "e \<in> set (rs_save st)" using rs_save_mem [OF assms] by simp
    with None \<open>entry_key e = k\<close> have "\<not> now < snd e" by (auto simp: find_None_iff simp del: split_paired_Ex split_paired_All)
    with Some show ?thesis by (simp add: rm_get_live [OF assms])
  qed (simp add: rm_get_live [OF assms])
  with None show ?thesis by simp
next
  case (Some e)
  then have "entry_key e = k" "e \<in> set (rs_save st)" "now < snd e" by (auto simp: find_Some_iff dest: nth_mem)
  with Some show ?thesis using rs_save_mem [OF assms, of e] by (simp add: rm_get_live [OF assms])
qed

lemma rs_save_verified:
  assumes "rm_inv ver (rs_inner st)" "e \<in> set (rs_save st)"
  shows "sr_verify ver (fst e)"
proof -
  obtain k pk p where "(k, pk) \<in> set (rs_inner st)" "(p, e) \<in> set pk" using assms(2) by (auto simp: rs_save_def)
  from rm_inv_entry [OF assms(1) this] show ?thesis by simp
qed

lemma rs_len_save: "rs_len st = length (rs_save st)"
  by (simp add: rs_len_def rs_save_def length_concat comp_def case_prod_unfold)

lemma rs_save_live:
  "rs_save (st\<lparr>rs_inner := rm_live now (rs_inner st)\<rparr>) = filter (\<lambda>e. now < snd e) (rs_save st)"
proof -
  have drop: "concat (map (\<lambda>x. map snd (snd x)) (filter (\<lambda>x. snd x \<noteq> []) m)) = concat (map (\<lambda>x. map snd (snd x)) m)" for m :: record_map
    by (induction m) auto
  have live: "map snd (live_entries now pk) = filter (\<lambda>e. now < snd e) (map snd pk)" for pk
    by (induction pk) (auto simp: live_entries_def)
  show ?thesis
    by (simp add: rs_save_def rm_live_def case_prod_unfold drop comp_def live filter_concat)
qed

lemma rs_get_set:
  assumes "rm_inv ver (rs_inner st)"
  shows "set (rs_get key now st) = {r. \<exists>p ex. rm_get (rs_inner st) (key, p) = Some (r, ex) \<and> now < ex}"
proof (cases "bt_get (rs_inner st) key")
  case (Some pk)
  have "bt_inv pk" using rm_inv_pk [OF assms Some] by simp
  then show ?thesis using Some by (force simp: rs_get_def rm_get_def bt_get_Some_iff image_iff)
qed (simp add: rs_get_def rm_get_def)

lemma rs_get_ok:
  assumes "rm_inv ver (rs_inner st)" "r \<in> set (rs_get key now st)"
  shows "sr_verify ver r \<and> sr_key r = key"
proof -
  obtain p ex where "rm_get (rs_inner st) (key, p) = Some (r, ex)" using assms by (auto simp: rs_get_set)
  then obtain pk where "(key, pk) \<in> set (rs_inner st)" "(p, r, ex) \<in> set pk" by (auto simp: rm_get_Some [OF assms(1)])
  from rm_inv_entry [OF assms(1) this] show ?thesis by (simp add: entry_key_def)
qed

section \<open>Properties\<close>

text \<open>A run of the store: records arriving with the time of their arrival.\<close>

definition rs_put_all :: "verifier \<Rightarrow> (stored_record \<times> u64) list \<Rightarrow> record_store \<Rightarrow> record_store" where
  "rs_put_all ver rs st = fold (\<lambda>(r, now) st. snd (rs_put ver r now st)) rs st"

lemma rs_put_all_entries:
  "rs_put_all ver rs st = st\<lparr>rs_inner := fold (store_entry ver) (map (\<lambda>(r, now). (r, sat_add now (ttl_millis st))) rs) (rs_inner st)\<rparr>"
  unfolding rs_put_all_def
  by (induction rs arbitrary: st) (simp_all add: rs_put_entry case_prod_unfold)

text \<open>From an empty store, whatever records arrive in whatever order and at whatever times, the
  store holds per key and publisher the highest sequence number among the validly signed ones, and it
  holds only validly signed records under their own key and publisher.\<close>

theorem record_store_holds_latest:
  "map_option entry_seq (rm_get (rs_inner (rs_put_all ver rs (rs_new ttl))) (k, p))
     = best (sr_seq ` {r \<in> fst ` set rs. sr_key r = k \<and> sr_publisher r = p \<and> sr_verify ver r})
   \<and> rm_inv ver (rs_inner (rs_put_all ver rs (rs_new ttl)))"
proof -
  let ?es = "map (\<lambda>(r, now). (r, sat_add now ttl)) rs"
  have "rm_inv ver []" by (simp add: rm_inv_def)
  moreover have "rm_get [] (k, p) = None" by (simp add: rm_get_def)
  ultimately have "map_option entry_seq (rm_get (fold (store_entry ver) ?es []) (k, p))
      = best (entry_seq ` {e \<in> set ?es. entry_key e = (k, p) \<and> sr_verify ver (fst e)})"
    by (rule recs.rank_of_new)
  moreover have "rm_inv ver (fold (store_entry ver) ?es [])" by (rule recs.inv_fold) (simp add: rm_inv_def)
  moreover have "entry_seq ` {e \<in> set ?es. entry_key e = (k, p) \<and> sr_verify ver (fst e)}
      = sr_seq ` {r \<in> fst ` set rs. sr_key r = k \<and> sr_publisher r = p \<and> sr_verify ver r}"
    by (force simp: entry_seq_def entry_key_def)
  ultimately show ?thesis by (simp add: rs_put_all_entries rs_new_def)
qed

text \<open>A restart loses nothing but what has expired: loading a snapshot of a well-formed store into an
  empty one gives exactly the store that expiry would leave, and the count returned is its size.\<close>

theorem snapshot_roundtrip:
  assumes "rm_inv ver (rs_inner st)"
  shows "rs_load_from ver (Some (rs_save st)) now (rs_new (ttl_millis st))
    = (rs_len (snd (rs_expire now st)), snd (rs_expire now st))"
proof -
  let ?r = "fold (rs_load_step ver now) (rs_save st) (0, [])"
  have ok: "\<forall>e \<in> set (rs_save st). sr_verify ver (fst e) \<and> rm_get [] (entry_key e) = None"
    using rs_save_verified [OF assms] by (simp add: rm_get_def)
  have exp: "snd (rs_expire now st) = st\<lparr>rs_inner := rm_live now (rs_inner st)\<rparr>"
    by (simp add: rs_expire_def rm_live_def Let_def)
  note load = load_fresh [OF rs_save_distinct [OF assms] ok, of now 0]
  have "fst ?r = rs_len (st\<lparr>rs_inner := rm_live now (rs_inner st)\<rparr>)"
    using load by (simp add: rs_len_save rs_save_live)
  moreover have "snd ?r = rm_live now (rs_inner st)"
  proof (rule rm_ext)
    show "rm_inv ver (rm_live now (rs_inner st))" by (rule rm_live_inv [OF assms])
    show "rm_inv ver (snd ?r)"
      unfolding rs_load_entries by (rule recs.inv_fold) (simp add: rm_inv_def)
    show "rm_get (snd ?r) k = rm_get (rm_live now (rs_inner st)) k" for k
      using load [of k] by (simp add: rm_get_find [OF assms] rm_get_def [of "[]"] split: option.splits)
  qed
  ultimately have "?r = (rs_len (st\<lparr>rs_inner := rm_live now (rs_inner st)\<rparr>), rm_live now (rs_inner st))" by (simp add: prod_eq_iff)
  then show ?thesis unfolding exp by (cases st) (simp add: rs_load_from_def rs_new_def)
qed

text \<open>A query returns exactly the unexpired records held under the key, every one of them validly
  signed for that key, and sweeping expired records away never changes an answer.\<close>

theorem get_returns_live:
  assumes "rm_inv ver (rs_inner st)"
  shows "set (rs_get key now st) = {r. \<exists>p ex. rm_get (rs_inner st) (key, p) = Some (r, ex) \<and> now < ex}
    \<and> (\<forall>r \<in> set (rs_get key now st). sr_verify ver r \<and> sr_key r = key)
    \<and> (t \<le> now \<longrightarrow> set (rs_get key now (snd (rs_expire t st))) = set (rs_get key now st))"
proof -
  have inv': "rm_inv ver (rs_inner (snd (rs_expire t st)))"
    by (simp add: rs_expire_live rm_live_inv [OF assms])
  have "\<forall>r \<in> set (rs_get key now st). sr_verify ver r \<and> sr_key r = key" using rs_get_ok [OF assms] by blast
  moreover have "set (rs_get key now (snd (rs_expire t st))) = set (rs_get key now st)" if "t \<le> now"
  proof -
    have "rm_get (rm_live t (rs_inner st)) (key, p) = Some (r, ex) \<and> now < ex
        \<longleftrightarrow> rm_get (rs_inner st) (key, p) = Some (r, ex) \<and> now < ex" for p r ex
      using that by (auto simp: rm_get_live [OF assms] split: option.splits if_splits)
    then show ?thesis unfolding rs_get_set [OF inv'] rs_get_set [OF assms] rs_expire_live by simp
  qed
  ultimately show ?thesis using rs_get_set [OF assms] by simp
qed

section \<open>Witnesses\<close>

definition wit_rec :: stored_record where
  "wit_rec = \<lparr>sr_key = 1, sr_publisher = 2, sr_seq = 3, sr_value = [9], sr_sig = replicate 64 0\<rparr>"

lemma wit_rec_inv: "rm_inv any_ver [(1, [(2, wit_rec, 10)])]"
  by (simp add: rm_inv_def pk_ok_def wit_rec_def sr_verify_def valid_sig_def any_ver_def)

theorem snapshot_roundtrip_witness:
  "rs_load_from any_ver (Some (rs_save \<lparr>rs_inner = [(1, [(2, wit_rec, 10)])], ttl_millis = 7\<rparr>)) 5 (rs_new 7)
     = (1, \<lparr>rs_inner = [(1, [(2, wit_rec, 10)])], ttl_millis = 7\<rparr>)"
  using snapshot_roundtrip [of any_ver "\<lparr>rs_inner = [(1, [(2, wit_rec, 10)])], ttl_millis = 7\<rparr>" 5] wit_rec_inv
  by (simp add: rs_expire_def live_entries_def rs_len_def)

theorem get_returns_live_witness:
  "set (rs_get 1 5 \<lparr>rs_inner = [(1, [(2, wit_rec, 10)])], ttl_millis = 7\<rparr>) = {wit_rec} \<and> sr_verify any_ver wit_rec"
  using get_returns_live [of any_ver "\<lparr>rs_inner = [(1, [(2, wit_rec, 10)])], ttl_millis = 7\<rparr>" 1 5 4] wit_rec_inv
  by (simp add: rs_get_def)

end
