(* ===== verification/DHT_Table.thy ===== *)
theory DHT_Table
  imports Zeph_Prelude
begin

text \<open>
  The Kademlia routing table, \<open>src/crates/dht/src/table.rs\<close>: XOR distance on 256-bit keys, the
  bucket of a key, and the k-buckets with insertion, eviction and the closest contacts. A key is the
  256-bit word its 32 bytes spell big-endian, so the order of arrays is the order of words. The
  address of a contact is a type parameter.
\<close>

unbundle bit_operations_syntax

section \<open>Distance and buckets\<close>

definition K :: nat where "K = 20"

definition BUCKETS :: nat where "BUCKETS = 256"

record 'a contact =
  c_id :: bytes32
  c_addr :: 'a

definition distance :: "bytes32 \<Rightarrow> bytes32 \<Rightarrow> bytes32" where
  "distance a b = a XOR b"

definition leading_zeros :: "u8 \<Rightarrow> nat" where
  "leading_zeros x = length (takeWhile (\<lambda>i. \<not> bit x i) (rev [0..<8]))"

fun bucket_scan :: "nat \<Rightarrow> bytes \<Rightarrow> bytes \<Rightarrow> nat option" where
  "bucket_scan i (a # as) (b # bs) = (let x = a XOR b in
     if x \<noteq> 0 then Some (255 - (i * 8 + leading_zeros x)) else bucket_scan (Suc i) as bs)"
| "bucket_scan i _ _ = None"

definition bucket_index :: "bytes32 \<Rightarrow> bytes32 \<Rightarrow> nat option" where
  "bucket_index self_id other = bucket_scan 0 (be_bytes 32 self_id) (be_bytes 32 other)"

datatype ordering = Less | Equal | Greater

definition closer_to :: "bytes32 \<Rightarrow> bytes32 \<Rightarrow> bytes32 \<Rightarrow> ordering" where
  "closer_to target a b = (if distance a target < distance b target then Less
     else if distance a target = distance b target then Equal else Greater)"

section \<open>The table\<close>

record 'a routing_table =
  rt_self :: bytes32
  buckets :: "'a contact list list"

definition rt_new :: "bytes32 \<Rightarrow> 'a routing_table" where
  "rt_new self_id = \<lparr>rt_self = self_id, buckets = replicate BUCKETS []\<rparr>"

text \<open>One bucket: a known contact moves to the back with the new address, a new one is appended if there is room.\<close>

definition bucket_insert :: "'a contact \<Rightarrow> 'a contact list \<Rightarrow> 'a contact list" where
  "bucket_insert c b = (let pos = length (takeWhile (\<lambda>x. c_id x \<noteq> c_id c) b) in
     if pos < length b then take pos b @ drop (Suc pos) b @ [(b ! pos)\<lparr>c_addr := c_addr c\<rparr>]
     else if length b < K then b @ [c] else b)"

definition rt_insert :: "'a contact \<Rightarrow> 'a routing_table \<Rightarrow> 'a routing_table" where
  "rt_insert c t = (case bucket_index (rt_self t) (c_id c) of None \<Rightarrow> t
     | Some idx \<Rightarrow> t\<lparr>buckets := (buckets t)[idx := bucket_insert c (buckets t ! idx)]\<rparr>)"

definition rt_remove :: "bytes32 \<Rightarrow> 'a routing_table \<Rightarrow> 'a routing_table" where
  "rt_remove i t = (case bucket_index (rt_self t) i of None \<Rightarrow> t
     | Some idx \<Rightarrow> t\<lparr>buckets := (buckets t)[idx := filter (\<lambda>c. c_id c \<noteq> i) (buckets t ! idx)]\<rparr>)"

definition rt_contacts :: "'a routing_table \<Rightarrow> 'a contact list" where
  "rt_contacts t = concat (buckets t)"

definition rt_closest :: "bytes32 \<Rightarrow> nat \<Rightarrow> 'a routing_table \<Rightarrow> 'a contact list" where
  "rt_closest target n t = take n (sort_key (\<lambda>c. distance (c_id c) target) (rt_contacts t))"

definition rt_len :: "'a routing_table \<Rightarrow> nat" where
  "rt_len t = (\<Sum>b\<leftarrow>buckets t. length b)"

definition rt_contains :: "bytes32 \<Rightarrow> 'a routing_table \<Rightarrow> bool" where
  "rt_contains i t = (case bucket_index (rt_self t) i of None \<Rightarrow> False
     | Some idx \<Rightarrow> list_ex (\<lambda>c. c_id c = i) (buckets t ! idx))"

section \<open>The most significant bit\<close>

definition top_bit :: "'w::len word \<Rightarrow> nat \<Rightarrow> bool" where
  "top_bit w n \<longleftrightarrow> bit w n \<and> (\<forall>m > n. \<not> bit w m)"

lemma top_bit_unat: "top_bit w n \<longleftrightarrow> 2 ^ n \<le> unat w \<and> unat w < 2 ^ Suc n" for w :: "'w::len word"
proof
  assume top: "top_bit w n"
  have "bit w m \<Longrightarrow> m < Suc n" for m using top by (metis top_bit_def not_less_eq)
  then have "take_bit (Suc n) w = w" by (intro bit_word_eqI) (auto simp: bit_take_bit_iff)
  then have "unat w = take_bit (Suc n) (unat w)" by (metis unsigned_take_bit_eq)
  then have "unat w < 2 ^ Suc n" by (metis take_bit_nat_less_exp)
  moreover have "bit (unat w) n" using top by (simp add: top_bit_def bit_unsigned_iff bit_imp_le_length)
  then have "unat w div 2 ^ n \<noteq> 0" by (metis bit_iff_odd even_zero)
  then have "2 ^ n \<le> unat w" by (metis div_less not_less)
  ultimately show "2 ^ n \<le> unat w \<and> unat w < 2 ^ Suc n" by simp
next
  assume a: "2 ^ n \<le> unat w \<and> unat w < 2 ^ Suc n"
  have "unat w div 2 ^ n = 1" using a by (intro div_nat_eqI) simp_all
  then have "bit (unat w) n" by (simp add: bit_iff_odd)
  then have "bit w n" by (simp add: bit_unsigned_iff)
  moreover have "\<not> bit w m" if "n < m" for m
  proof -
    have "unat w < 2 ^ m" using a that by (meson Suc_leI less_le_trans one_le_numeral power_increasing)
    then have "\<not> bit (unat w) m" by (simp add: bit_iff_odd)
    then show ?thesis by (auto simp: bit_unsigned_iff dest: bit_imp_le_length)
  qed
  ultimately show "top_bit w n" by (simp add: top_bit_def)
qed

lemma leading_zeros_top: "x \<noteq> 0 \<Longrightarrow> top_bit x (7 - leading_zeros x) \<and> leading_zeros x < 8"
proof -
  assume "x \<noteq> 0"
  then obtain j where j: "bit x j" by (metis bit_eq_iff bit_0_eq bot_apply bot_bool_def)
  then have "j < 8" using bit_imp_le_length by fastforce
  let ?l = "leading_zeros x" and ?r = "rev [0..<8::nat]"
  have l: "?l < 8"
  proof (rule ccontr)
    assume "\<not> ?l < 8"
    then have "takeWhile (\<lambda>i. \<not> bit x i) ?r = ?r"
      unfolding leading_zeros_def by (metis length_rev length_upt minus_nat.diff_0 not_less takeWhile_eq_take take_all)
    then have "\<forall>i \<in> set ?r. \<not> bit x i" by (metis takeWhile_eq_all_conv)
    with j \<open>j < 8\<close> show False by auto
  qed
  have nth: "?r ! i = 7 - i" if "i < 8" for i using that by (simp add: rev_nth)
  have "bit x (?r ! ?l)" using l nth_length_takeWhile [of "\<lambda>i. \<not> bit x i" ?r] by (simp add: leading_zeros_def)
  then have "bit x (7 - ?l)" using nth [OF l] by simp
  moreover have "\<not> bit x m" if "7 - ?l < m" for m
  proof (cases "m < 8")
    case True
    have "7 - m < ?l" using that True l by linarith
    then have "\<not> bit x (?r ! (7 - m))"
      unfolding leading_zeros_def by (metis takeWhile_nth nth_mem set_takeWhileD)
    then show ?thesis using nth [of "7 - m"] True by simp
  qed (use bit_imp_le_length [of x m] in fastforce)
  ultimately show ?thesis using l by (simp add: top_bit_def)
qed

lemma xor_zero_iff: "a XOR b = 0 \<longleftrightarrow> a = b" for a b :: "'w::len word"
  by (metis bit.xor_cancel_right bit.xor_self xor.assoc xor.left_neutral xor.right_neutral)

lemma bit_be_bytes: "i < 32 \<Longrightarrow> bit (be_bytes 32 w ! i) j \<longleftrightarrow> j < 8 \<and> bit w (8 * (31 - i) + j)" for w :: bytes32
  by (auto simp: be_bytes_def bit_ucast_iff bit_drop_bit_eq dest: bit_imp_le_length)

lemma distance_bytes: "be_bytes 32 (distance a b) = map2 (XOR) (be_bytes 32 a) (be_bytes 32 b)"
proof (rule nth_equalityI)
  fix i assume "i < length (be_bytes 32 (distance a b))"
  then have i: "i < 32" by simp
  then have "bit (be_bytes 32 (distance a b) ! i) j \<longleftrightarrow> bit (be_bytes 32 a ! i XOR be_bytes 32 b ! i) j" for j
    by (auto simp: bit_be_bytes bit_xor_iff distance_def)
  then show "be_bytes 32 (distance a b) ! i = map2 (XOR) (be_bytes 32 a) (be_bytes 32 b) ! i"
    using i by (simp add: bit_eq_iff)
qed simp

lemma bucket_scan_spec:
  "length as = length bs \<Longrightarrow> (case bucket_scan i as bs of
      None \<Rightarrow> as = bs
    | Some n \<Rightarrow> \<exists>j < length as. (\<forall>k < j. as ! k = bs ! k) \<and> as ! j \<noteq> bs ! j \<and> n = 255 - ((i + j) * 8 + leading_zeros (as ! j XOR bs ! j)))"
proof (induction i as bs rule: bucket_scan.induct)
  case (1 i a as b bs)
  show ?case
  proof (cases "a = b")
    case True
    then have eq: "bucket_scan i (a # as) (b # bs) = bucket_scan (Suc i) as bs" by simp
    show ?thesis
    proof (cases "bucket_scan (Suc i) as bs")
      case None
      then show ?thesis using 1 True eq by simp
    next
      case (Some n)
      then obtain j where j: "j < length as" "\<forall>k < j. as ! k = bs ! k" "as ! j \<noteq> bs ! j"
        "n = 255 - ((Suc i + j) * 8 + leading_zeros (as ! j XOR bs ! j))"
        using 1 True by auto
      have "\<forall>k < Suc j. (a # as) ! k = (b # bs) ! k" using j(2) True by (auto simp: less_Suc_eq_0_disj)
      then have "\<exists>j < length (a # as). (\<forall>k < j. (a # as) ! k = (b # bs) ! k) \<and> (a # as) ! j \<noteq> (b # bs) ! j
          \<and> n = 255 - ((i + j) * 8 + leading_zeros ((a # as) ! j XOR (b # bs) ! j))"
        using j by (intro exI [of _ "Suc j"]) simp
      then show ?thesis unfolding eq Some by simp
    qed
  next
    case False
    then have "bucket_scan i (a # as) (b # bs) = Some (255 - (i * 8 + leading_zeros (a XOR b)))" by (simp add: xor_zero_iff)
    then show ?thesis using False by (auto intro!: exI [of _ 0])
  qed
qed auto

lemma bucket_index_None: "bucket_index a b = None \<longleftrightarrow> a = b"
proof
  assume "bucket_index a b = None"
  then have "be_bytes 32 a = be_bytes 32 b"
    using bucket_scan_spec [of "be_bytes 32 a" "be_bytes 32 b" 0] by (simp add: bucket_index_def)
  then show "a = b" using be_bytes_inj [of 32 a b] by simp
next
  assume "a = b"
  then show "bucket_index a b = None"
    using bucket_scan_spec [of "be_bytes 32 a" "be_bytes 32 a" 0] by (auto simp: bucket_index_def split: option.splits)
qed

lemma bucket_index_top:
  assumes "bucket_index a b = Some n"
  shows "top_bit (distance a b) n"
proof -
  obtain j where j: "j < 32" "\<forall>k < j. be_bytes 32 a ! k = be_bytes 32 b ! k" "be_bytes 32 a ! j \<noteq> be_bytes 32 b ! j"
    "n = 255 - (j * 8 + leading_zeros (be_bytes 32 a ! j XOR be_bytes 32 b ! j))"
    using bucket_scan_spec [of "be_bytes 32 a" "be_bytes 32 b" 0] assms by (auto simp: bucket_index_def)
  define x where "x = be_bytes 32 a ! j XOR be_bytes 32 b ! j"
  have "x \<noteq> 0" using j(3) by (simp add: x_def xor_zero_iff)
  then have x: "top_bit x (7 - leading_zeros x)" "leading_zeros x < 8" using leading_zeros_top by blast+
  have n: "n = 8 * (31 - j) + (7 - leading_zeros x)" using j(1,4) x(2) by (simp add: x_def [symmetric])
  have in_x: "bit x t \<longleftrightarrow> t < 8 \<and> bit (distance a b) (8 * (31 - j) + t)" for t
    using j(1) by (auto simp: x_def bit_xor_iff bit_be_bytes distance_def)
  have "\<not> bit (distance a b) m" if m: "n < m" for m
  proof (cases "m < 8 * (32 - j)")
    case True
    define t where "t = m - 8 * (31 - j)"
    have t: "m = 8 * (31 - j) + t" "7 - leading_zeros x < t" "t < 8" using m n True j(1) by (simp_all add: t_def)
    have "\<not> bit x t" using x(1) t(2) by (simp add: top_bit_def)
    then show ?thesis using in_x [of t] t by simp
  next
    case False
    show ?thesis
    proof (cases "m < 256")
      case True
      have k: "31 - m div 8 < j" using False True by linarith
      have mm: "8 * (31 - (31 - m div 8)) + m mod 8 = m" using True by (simp add: less_mult_imp_div_less)
      have "bit a m \<longleftrightarrow> bit b m"
        using bit_be_bytes [of "31 - m div 8" a "m mod 8"] bit_be_bytes [of "31 - m div 8" b "m mod 8"] j(2) k mm by simp
      then show ?thesis by (simp add: distance_def bit_xor_iff)
    qed (use bit_imp_le_length [of "distance a b" m] in fastforce)
  qed
  moreover have "bit (distance a b) n" using x in_x [of "7 - leading_zeros x"] n by (simp add: top_bit_def)
  ultimately show ?thesis by (simp add: top_bit_def)
qed

lemma bucket_index_lt: "bucket_index a b = Some n \<Longrightarrow> n < 256"
  using bucket_index_top [of a b n] bit_imp_le_length [of "distance a b" n] by (auto simp: top_bit_def)

section \<open>The table invariant\<close>

text \<open>Bucket \<open>i\<close> of the table of \<open>me\<close>: at most \<open>K\<close> contacts, one per id, each at its bucket.\<close>

definition bucket_ok :: "bytes32 \<Rightarrow> nat \<Rightarrow> 'a contact list \<Rightarrow> bool" where
  "bucket_ok me i b \<longleftrightarrow> length b \<le> K \<and> distinct (map c_id b) \<and> (\<forall>c \<in> set b. bucket_index me (c_id c) = Some i)"

definition rt_inv :: "'a routing_table \<Rightarrow> bool" where
  "rt_inv t \<longleftrightarrow> length (buckets t) = BUCKETS \<and> (\<forall>i < BUCKETS. bucket_ok (rt_self t) i (buckets t ! i))"

lemma bucket_insert_new: "c_id c \<notin> c_id ` set b \<Longrightarrow> bucket_insert c b = (if length b < K then b @ [c] else b)"
proof -
  assume "c_id c \<notin> c_id ` set b"
  then have "takeWhile (\<lambda>x. c_id x \<noteq> c_id c) b = b" unfolding takeWhile_eq_all_conv by (metis image_eqI)
  then show ?thesis unfolding bucket_insert_def Let_def by (simp only: less_irrefl if_False)
qed

lemma bucket_insert_known:
  assumes "c_id c \<in> c_id ` set b"
  obtains xs e ys where "b = xs @ e # ys" "c_id e = c_id c" "c_id c \<notin> c_id ` set xs"
    "bucket_insert c b = xs @ ys @ [e\<lparr>c_addr := c_addr c\<rparr>]"
proof -
  have "\<exists>x \<in> set b. c_id x = c_id c" using assms by force
  from split_list_first_prop [OF this] obtain xs e ys
    where b: "b = xs @ e # ys" "c_id e = c_id c" "\<forall>x \<in> set xs. c_id x \<noteq> c_id c" by blast
  then have "takeWhile (\<lambda>x. c_id x \<noteq> c_id c) b = xs" by (simp add: takeWhile_append2)
  then have "bucket_insert c b = xs @ ys @ [e\<lparr>c_addr := c_addr c\<rparr>]" by (simp add: bucket_insert_def b nth_append)
  with b show ?thesis by (intro that [of xs e ys]) auto
qed

lemma set_bucket_insert:
  "distinct (map c_id b) \<Longrightarrow> c_id ` set (bucket_insert c b) =
     c_id ` set b \<union> (if c_id c \<in> c_id ` set b \<or> length b < K then {c_id c} else {})"
  by (cases "c_id c \<in> c_id ` set b") (auto simp: bucket_insert_new elim!: bucket_insert_known)

lemma bucket_insert_ok: "bucket_ok me i b \<Longrightarrow> bucket_index me (c_id c) = Some i \<Longrightarrow> bucket_ok me i (bucket_insert c b)"
proof (cases "c_id c \<in> c_id ` set b")
  case True
  assume ok: "bucket_ok me i b"
  from True obtain xs e ys where b: "b = xs @ e # ys" "c_id e = c_id c"
    "bucket_insert c b = xs @ ys @ [e\<lparr>c_addr := c_addr c\<rparr>]" by (rule bucket_insert_known)
  show ?thesis using ok unfolding b(3) by (auto simp: bucket_ok_def b(1))
qed (auto simp: bucket_ok_def bucket_insert_new)

lemma rt_inv_new: "rt_inv (rt_new me)"
  by (simp add: rt_inv_def rt_new_def bucket_ok_def)

lemma rt_inv_update:
  assumes "rt_inv t" "\<And>b. i < 256 \<Longrightarrow> bucket_ok (rt_self t) i b \<Longrightarrow> bucket_ok (rt_self t) i (f b)"
  shows "rt_inv (t\<lparr>buckets := (buckets t)[i := f (buckets t ! i)]\<rparr>)"
proof -
  have "bucket_ok (rt_self t) j ((buckets t)[i := f (buckets t ! i)] ! j)" if "j < 256" for j
    using assms that by (cases "j = i") (simp_all add: rt_inv_def BUCKETS_def)
  then show ?thesis using assms(1) by (simp add: rt_inv_def BUCKETS_def)
qed

lemma rt_inv_insert: "rt_inv t \<Longrightarrow> rt_inv (rt_insert c t)"
  by (auto simp: rt_insert_def split: option.split intro!: rt_inv_update bucket_insert_ok)

lemma rt_inv_remove: "rt_inv t \<Longrightarrow> rt_inv (rt_remove i t)"
  by (auto simp: rt_remove_def split: option.split intro!: rt_inv_update)
    (auto simp: bucket_ok_def intro: order.trans [OF length_filter_le] distinct_map_filter)

lemma rt_mem: "rt_inv t \<Longrightarrow> c \<in> set (rt_contacts t) \<longleftrightarrow> (\<exists>i. bucket_index (rt_self t) (c_id c) = Some i \<and> c \<in> set (buckets t ! i))"
proof
  assume inv: "rt_inv t" and "c \<in> set (rt_contacts t)"
  then obtain i where i: "i < 256" "c \<in> set (buckets t ! i)"
    by (auto simp: rt_contacts_def rt_inv_def BUCKETS_def in_set_conv_nth [of _ "buckets t"])
  then show "\<exists>i. bucket_index (rt_self t) (c_id c) = Some i \<and> c \<in> set (buckets t ! i)"
    using inv by (auto simp: rt_inv_def bucket_ok_def BUCKETS_def)
next
  assume "rt_inv t" "\<exists>i. bucket_index (rt_self t) (c_id c) = Some i \<and> c \<in> set (buckets t ! i)"
  then show "c \<in> set (rt_contacts t)"
    using bucket_index_lt by (fastforce simp: rt_contacts_def rt_inv_def BUCKETS_def in_set_conv_nth [of _ "buckets t"])
qed

lemma rt_contains_iff: "rt_inv t \<Longrightarrow> rt_contains i t \<longleftrightarrow> i \<in> c_id ` set (rt_contacts t)"
  by (auto simp: rt_contains_def list_ex_iff rt_mem image_iff split: option.split)

lemma rt_self_insert [simp]: "rt_self (rt_insert c t) = rt_self t" and rt_self_remove [simp]: "rt_self (rt_remove i t) = rt_self t"
  by (simp_all add: rt_insert_def rt_remove_def split: option.split)

lemma rt_contains_insert:
  assumes "rt_inv t"
  shows "rt_contains i (rt_insert c t) \<longleftrightarrow> rt_contains i t \<or> i = c_id c \<and>
    (\<exists>j. bucket_index (rt_self t) (c_id c) = Some j \<and> length (buckets t ! j) < K)"
proof (cases "bucket_index (rt_self t) (c_id c)")
  case None
  then show ?thesis by (simp add: rt_insert_def)
next
  case (Some j)
  have j: "j < length (buckets t)" using assms bucket_index_lt [OF Some] by (simp add: rt_inv_def BUCKETS_def)
  have "distinct (map c_id (buckets t ! j))" using assms j by (simp add: rt_inv_def bucket_ok_def)
  note upd = set_bucket_insert [OF this, of c]
  have mem: "list_ex (\<lambda>c. c_id c = i) b \<longleftrightarrow> i \<in> c_id ` set b" for b by (auto simp: list_ex_iff)
  show ?thesis
  proof (cases "bucket_index (rt_self t) i = Some j")
    case True
    then show ?thesis using Some j upd by (auto simp: rt_contains_def rt_insert_def mem)
  next
    case False
    then have "i \<noteq> c_id c" using Some by auto
    then show ?thesis using Some False by (auto simp: rt_contains_def rt_insert_def split: option.split)
  qed
qed

lemma rt_contains_remove: "rt_inv t \<Longrightarrow> rt_contains i (rt_remove j t) \<longleftrightarrow> rt_contains i t \<and> i \<noteq> j"
proof (cases "bucket_index (rt_self t) j")
  case None
  assume "rt_inv t"
  have "\<not> rt_contains j t" using None by (simp add: rt_contains_def)
  then show ?thesis using None by (auto simp: rt_remove_def)
next
  case (Some n)
  assume "rt_inv t"
  then have n: "n < length (buckets t)" using bucket_index_lt [OF Some] by (simp add: rt_inv_def BUCKETS_def)
  show ?thesis
    using Some n by (cases "bucket_index (rt_self t) i = Some n")
      (auto simp: rt_contains_def rt_remove_def list_ex_iff split: option.split)
qed

lemma rt_distinct: "rt_inv t \<Longrightarrow> distinct (map c_id (rt_contacts t))"
proof -
  assume inv: "rt_inv t"
  have "distinct (map c_id (concat (drop n (buckets t)))) \<and>
      (\<forall>c \<in> set (concat (drop n (buckets t))). \<exists>i \<ge> n. bucket_index (rt_self t) (c_id c) = Some i)" if "n \<le> 256" for n
    using that
  proof (induction n rule: inc_induct)
    case (step n)
    have n: "n < length (buckets t)" and ok: "bucket_ok (rt_self t) n (buckets t ! n)"
      using inv step.hyps by (simp_all add: rt_inv_def BUCKETS_def)
    have "drop n (buckets t) = buckets t ! n # drop (Suc n) (buckets t)" using n by (rule Cons_nth_drop_Suc [symmetric])
    moreover have "c_id ` set (buckets t ! n) \<inter> c_id ` set (concat (drop (Suc n) (buckets t))) = {}"
    proof -
      have False if cd: "c \<in> set (buckets t ! n)" "d \<in> set (concat (drop (Suc n) (buckets t)))" "c_id c = c_id d" for c d
      proof -
        obtain i where "i \<ge> Suc n" "bucket_index (rt_self t) (c_id d) = Some i" using step.IH cd(2) by blast
        moreover have "bucket_index (rt_self t) (c_id c) = Some n" using ok cd(1) by (simp add: bucket_ok_def)
        ultimately show False using cd(3) by simp
      qed
      then show ?thesis by blast
    qed
    moreover have "\<forall>c \<in> set (buckets t ! n). \<exists>i \<ge> n. bucket_index (rt_self t) (c_id c) = Some i"
      using ok by (auto simp: bucket_ok_def)
    moreover have "\<forall>c \<in> set (concat (drop (Suc n) (buckets t))). \<exists>i \<ge> n. bucket_index (rt_self t) (c_id c) = Some i"
      using step.IH by (meson Suc_leD)
    ultimately show ?case using step.IH ok by (auto simp: bucket_ok_def simp del: set_concat)
  qed (use inv in \<open>simp add: rt_inv_def BUCKETS_def\<close>)
  from this [of 0] show ?thesis by (simp add: rt_contacts_def)
qed

lemma distance_inj: "distance a t = distance b t \<longleftrightarrow> a = b"
proof
  assume "distance a t = distance b t"
  then have "bit (distance a t) n \<longleftrightarrow> bit (distance b t) n" for n by simp
  then show "a = b" by (intro bit_word_eqI) (auto simp: distance_def bit_xor_iff)
qed simp

text \<open>The first \<open>n\<close> of a sorted list are the smallest.\<close>

lemma take_sort_key:
  fixes f :: "'b \<Rightarrow> 'k::linorder"
  shows "sorted (map f (take n (sort_key f xs)))" "length (take n (sort_key f xs)) = min n (length xs)"
    "set (take n (sort_key f xs)) \<subseteq> set xs"
    "c \<in> set (take n (sort_key f xs)) \<Longrightarrow> d \<in> set xs - set (take n (sort_key f xs)) \<Longrightarrow> f c \<le> f d"
proof -
  define A where "A = sort_key f xs"
  have A: "sorted (map f A)" "set A = set xs" "length A = length xs" by (simp_all add: A_def)
  have parts: "map f A = map f (take n A) @ map f (drop n A)" by (simp flip: map_append)
  have "set A = set (take n A) \<union> set (drop n A)" by (simp flip: set_append)
  moreover have "f x \<le> f y" if "x \<in> set (take n A)" "y \<in> set (drop n A)" for x y
    using A(1) that unfolding parts sorted_append by auto
  ultimately show "c \<in> set (take n (sort_key f xs)) \<Longrightarrow> d \<in> set xs - set (take n (sort_key f xs)) \<Longrightarrow> f c \<le> f d"
    using A(2) unfolding A_def by blast
  show "sorted (map f (take n (sort_key f xs)))" using A(1) unfolding parts sorted_append by (simp add: A_def)
  show "length (take n (sort_key f xs)) = min n (length xs)" by simp
  show "set (take n (sort_key f xs)) \<subseteq> set xs" using A(2) unfolding A_def by (auto dest: in_set_takeD)
qed

section \<open>Properties\<close>

text \<open>The bucket found by scanning bytes is the position of the most significant bit of the XOR
  distance: bucket \<open>i\<close> holds exactly the keys at distance \<open>2^i\<close> up to \<open>2^(i+1)\<close>, and only the own key has none.\<close>

theorem bucket_index_log2:
  "(bucket_index a b = Some i \<longleftrightarrow> 2 ^ i \<le> unat (distance a b) \<and> unat (distance a b) < 2 ^ Suc i)
   \<and> (bucket_index a b = None \<longleftrightarrow> a = b)"
proof -
  have uniq: "m = n" if "top_bit (distance a b) m" "top_bit (distance a b) n" for m n
    using that by (meson linorder_neqE_nat top_bit_def)
  have "bucket_index a b = Some i \<longleftrightarrow> top_bit (distance a b) i"
  proof
    assume top: "top_bit (distance a b) i"
    have "a \<noteq> b"
    proof
      assume "a = b"
      then show False using top by (simp add: top_bit_def distance_def)
    qed
    then obtain n where "bucket_index a b = Some n" using bucket_index_None by blast
    with bucket_index_top uniq top show "bucket_index a b = Some i" by blast
  qed (rule bucket_index_top)
  then show ?thesis using top_bit_unat [of "distance a b" i] bucket_index_None by simp
qed

text \<open>The operations of the node on its table.\<close>

datatype 'a table_op = Insert "'a contact" | Remove bytes32

fun table_step :: "'a table_op \<Rightarrow> 'a routing_table \<Rightarrow> 'a routing_table" where
  "table_step (Insert c) t = rt_insert c t"
| "table_step (Remove i) t = rt_remove i t"

text \<open>Whatever is inserted and evicted, the table has 256 buckets of at most \<open>K\<close> contacts, every
  contact in the bucket of its distance, no id twice anywhere, and never the node itself.\<close>

theorem table_invariant:
  "let t = fold table_step ops (rt_new me) in
     rt_inv t \<and> distinct (map c_id (rt_contacts t)) \<and> \<not> rt_contains me t \<and> rt_len t \<le> 256 * K"
proof -
  let ?t = "fold table_step ops (rt_new me)"
  have step: "rt_inv (table_step x t)" "rt_self (table_step x t) = rt_self t" if "rt_inv t" for x and t :: "'a routing_table"
    using that by (cases x; simp add: rt_inv_insert rt_inv_remove)+
  have run: "rt_inv (fold table_step xs t) \<and> rt_self (fold table_step xs t) = rt_self t" if "rt_inv t" for xs and t :: "'a routing_table"
    using that by (induction xs arbitrary: t) (auto simp: step)
  have inv: "rt_inv ?t" "rt_self ?t = me" using run [OF rt_inv_new] by (simp_all add: rt_new_def)
  moreover have "\<not> rt_contains me ?t" using inv(2) bucket_index_None [of me me] by (simp add: rt_contains_def)
  moreover have "rt_len ?t \<le> 256 * K"
  proof -
    have "(\<Sum>b\<leftarrow>buckets ?t. length b) \<le> (\<Sum>b\<leftarrow>buckets ?t. K)"
      using inv(1) by (intro sum_list_mono) (auto simp: rt_inv_def bucket_ok_def in_set_conv_nth)
    then show ?thesis using inv(1) by (simp add: rt_len_def rt_inv_def BUCKETS_def sum_list_triv)
  qed
  ultimately show ?thesis using rt_distinct [OF inv(1)] by (simp add: Let_def)
qed

text \<open>\<open>closest\<close> returns the nearest contacts: in order of distance to the target, as many as asked
  or all there are, and every contact it leaves out is farther than each one it returns.\<close>

theorem closest_nearest:
  assumes "rt_inv t"
  shows "sorted (map (\<lambda>c. distance (c_id c) target) (rt_closest target n t))
    \<and> length (rt_closest target n t) = min n (length (rt_contacts t))
    \<and> set (rt_closest target n t) \<subseteq> set (rt_contacts t)
    \<and> (\<forall>c \<in> set (rt_closest target n t). \<forall>d \<in> set (rt_contacts t) - set (rt_closest target n t).
         distance (c_id c) target < distance (c_id d) target)"
proof -
  let ?f = "\<lambda>c. distance (c_id c) target" and ?A = "rt_closest target n t"
  have near: "sorted (map ?f ?A)" "length ?A = min n (length (rt_contacts t))" "set ?A \<subseteq> set (rt_contacts t)"
    "\<And>c d. c \<in> set ?A \<Longrightarrow> d \<in> set (rt_contacts t) - set ?A \<Longrightarrow> ?f c \<le> ?f d"
    unfolding rt_closest_def by (rule take_sort_key)+
  have "?f c < ?f d" if "c \<in> set ?A" "d \<in> set (rt_contacts t) - set ?A" for c d
  proof -
    have "c_id c \<noteq> c_id d" using rt_distinct [OF assms] that near(3) by (auto simp: distinct_map inj_on_def)
    then show ?thesis using near(4) [OF that] distance_inj by (metis order.strict_iff_order)
  qed
  then show ?thesis using near(1-3) by blast
qed

section \<open>Witnesses\<close>

theorem closest_nearest_witness:
  "rt_inv (rt_insert \<lparr>c_id = 1, c_addr = ()\<rparr> (rt_new 0)) \<and> length (rt_closest 0 5 (rt_insert \<lparr>c_id = 1, c_addr = ()\<rparr> (rt_new 0))) = 1"
proof -
  let ?c = "\<lparr>c_id = 1, c_addr = ()\<rparr> :: unit contact" and ?t = "rt_insert \<lparr>c_id = 1, c_addr = ()\<rparr> (rt_new 0)"
  have inv: "rt_inv ?t" by (intro rt_inv_insert rt_inv_new)
  obtain i where i: "bucket_index 0 1 = Some i" using bucket_index_None [of 0 1] by force
  have "rt_contains 1 ?t" using rt_contains_insert [OF rt_inv_new, of 1 ?c 0] bucket_index_lt [OF i] i
    by (simp add: rt_new_def K_def BUCKETS_def)
  moreover have "\<not> rt_contains j ?t" if "j \<noteq> 1" for j
    using rt_contains_insert [OF rt_inv_new, of j ?c 0] that bucket_index_lt
    by (auto simp: rt_contains_def rt_new_def BUCKETS_def split: option.splits)
  ultimately have "c_id ` set (rt_contacts ?t) = {1}" unfolding rt_contains_iff [OF inv] by blast
  then have "length (rt_contacts ?t) = 1"
    using distinct_card [OF rt_distinct [OF inv]] by simp
  then show ?thesis using closest_nearest [OF inv, of 0 5] inv by simp
qed

end
