(* ===== verification/DHT_Node.thy ===== *)
theory DHT_Node
  imports DHT_Record DHT_Table
begin

text \<open>
  The Kademlia node, \<open>src/crates/dht/src/node.rs\<close> with the messages of \<open>proto.rs\<close>: learning and
  evicting contacts, answering queries, and the iterative lookups. The network is the parameter \<open>net\<close>
  (what a request to a contact yields after its two attempts, \<open>None\<close> for no answer), the address
  parser and printer are parameters, and each operation takes the clock reading it uses; the \<open>k\<close>-th
  round of a lookup reads \<open>tm k\<close>. The outcomes of one batch concern different peers and are applied in
  batch order. An operation that panics on overflow returns \<open>None\<close>.
\<close>

section \<open>Messages\<close>

record wire_contact =
  w_id :: bytes32
  w_addr :: bytes

datatype dht_message =
    Ping wire_contact
  | Pong wire_contact
  | FindNode wire_contact bytes32
  | Nodes "wire_contact list"
  | Store stored_record
  | StoreAck bool
  | FindValue wire_contact bytes32
  | Value "stored_record list" "wire_contact list"

definition wire_from :: "('a \<Rightarrow> bytes) \<Rightarrow> 'a contact \<Rightarrow> wire_contact" where
  "wire_from sh c = \<lparr>w_id = c_id c, w_addr = sh (c_addr c)\<rparr>"

definition into_contact :: "(bytes \<Rightarrow> 'a option) \<Rightarrow> wire_contact \<Rightarrow> 'a contact option" where
  "into_contact parse w = map_option (\<lambda>a. \<lparr>c_id = w_id w, c_addr = a\<rparr>) (parse (w_addr w))"

section \<open>The node\<close>

definition ALPHA :: nat where "ALPHA = 3"

definition EVICT_AFTER :: u32 where "EVICT_AFTER = 3"

definition TOMBSTONE_TTL_MS :: u64 where "TOMBSTONE_TTL_MS = 600000"

record 'a dht_node =
  dn_me :: "'a contact"
  dn_table :: "'a routing_table"
  dn_store :: record_store
  failures :: "(bytes32, u32) btree"
  tombstones :: "(bytes32, u64) btree"
  seeds :: "bytes32 list"

definition dn_new :: "'a contact \<Rightarrow> u64 \<Rightarrow> 'a dht_node" where
  "dn_new me ttl = \<lparr>dn_me = me, dn_table = rt_new (c_id me), dn_store = rs_new ttl, failures = [], tombstones = [], seeds = []\<rparr>"

definition note_alive :: "bytes32 \<Rightarrow> 'a dht_node \<Rightarrow> 'a dht_node" where
  "note_alive i n = n\<lparr>failures := bt_remove i (failures n)\<rparr>"

definition note_dead :: "u64 \<Rightarrow> 'a contact \<Rightarrow> 'a dht_node \<Rightarrow> 'a dht_node option" where
  "note_dead now peer n = (if c_id peer \<in> set (seeds n) then Some n
     else case checked_add (bt_get_or 0 (failures n) (c_id peer)) 1 of None \<Rightarrow> None | Some f \<Rightarrow>
       if f \<ge> EVICT_AFTER
       then (case checked_add now TOMBSTONE_TTL_MS of None \<Rightarrow> None | Some till \<Rightarrow>
         Some (n\<lparr>failures := bt_remove (c_id peer) (failures n), dn_table := rt_remove (c_id peer) (dn_table n),
                 tombstones := bt_insert (c_id peer) till (tombstones n)\<rparr>))
       else Some (n\<lparr>failures := bt_insert (c_id peer) f (failures n)\<rparr>))"

definition tombstoned :: "u64 \<Rightarrow> bytes32 \<Rightarrow> 'a dht_node \<Rightarrow> bool \<times> 'a dht_node" where
  "tombstoned now i n = (case bt_get (tombstones n) i of
       Some expiry \<Rightarrow> if expiry > now then (True, n) else (False, n\<lparr>tombstones := bt_remove i (tombstones n)\<rparr>)
     | None \<Rightarrow> (False, n))"

fun learn_filter :: "u64 \<Rightarrow> 'a contact list \<Rightarrow> 'a dht_node \<Rightarrow> 'a contact list \<times> 'a dht_node" where
  "learn_filter now [] n = ([], n)"
| "learn_filter now (c # cs) n = (if c_id c = c_id (dn_me n) then learn_filter now cs n
     else case tombstoned now (c_id c) n of (dead, n1) \<Rightarrow>
       case learn_filter now cs n1 of (fresh, n2) \<Rightarrow> (if dead then fresh else c # fresh, n2))"

definition learn :: "u64 \<Rightarrow> 'a contact list \<Rightarrow> 'a dht_node \<Rightarrow> 'a dht_node" where
  "learn now cs n = (case learn_filter now cs n of (fresh, n1) \<Rightarrow> n1\<lparr>dn_table := fold rt_insert fresh (dn_table n1)\<rparr>)"

definition dn_expire :: "u64 \<Rightarrow> 'a dht_node \<Rightarrow> nat \<times> 'a dht_node" where
  "dn_expire now n = (case rs_expire now (dn_store n) of (k, s) \<Rightarrow> (k, n\<lparr>dn_store := s\<rparr>))"

definition load_table :: "(bytes \<Rightarrow> 'a option) \<Rightarrow> wire_contact list option \<Rightarrow> 'a dht_node \<Rightarrow> nat \<times> 'a dht_node" where
  "load_table parse snap n = (case snap of None \<Rightarrow> (0, n)
     | Some ws \<Rightarrow> let cs = List.map_filter (into_contact parse) ws in
         (length cs, n\<lparr>dn_table := fold rt_insert cs (dn_table n)\<rparr>))"

definition save_table :: "('a \<Rightarrow> bytes) \<Rightarrow> 'a dht_node \<Rightarrow> wire_contact list" where
  "save_table sh n = map (wire_from sh) (rt_contacts (dn_table n))"

definition closest_local :: "bytes32 \<Rightarrow> 'a dht_node \<Rightarrow> 'a contact list" where
  "closest_local target n = rt_closest target K (dn_table n)"

definition learn_from :: "(bytes \<Rightarrow> 'a option) \<Rightarrow> u64 \<Rightarrow> wire_contact \<Rightarrow> 'a dht_node \<Rightarrow> 'a dht_node" where
  "learn_from parse now w n = (case into_contact parse w of Some c \<Rightarrow> learn now [c] n | None \<Rightarrow> n)"

fun handle :: "verifier \<Rightarrow> (bytes \<Rightarrow> 'a option) \<Rightarrow> ('a \<Rightarrow> bytes) \<Rightarrow> u64 \<Rightarrow> dht_message \<Rightarrow> 'a dht_node \<Rightarrow> dht_message \<times> 'a dht_node" where
  "handle ver parse sh now (Ping from) n = (Pong (wire_from sh (dn_me n)), learn_from parse now from n)"
| "handle ver parse sh now (FindNode from target) n = (let n = learn_from parse now from n in
     (Nodes (map (wire_from sh) (closest_local target n)), n))"
| "handle ver parse sh now (Store record) n = (case rs_put ver record now (dn_store n) of (stored, s) \<Rightarrow>
     (StoreAck stored, n\<lparr>dn_store := s\<rparr>))"
| "handle ver parse sh now (FindValue from key) n = (let n = learn_from parse now from n in
     (Value (rs_get key now (dn_store n)) (map (wire_from sh) (closest_local key n)), n))"
| "handle ver parse sh now _ n = (Nodes [], n)"

section \<open>Queries\<close>

type_synonym 'a network = "'a contact \<Rightarrow> dht_message \<Rightarrow> dht_message option"

definition request :: "'a network \<Rightarrow> u64 \<Rightarrow> 'a contact \<Rightarrow> dht_message \<Rightarrow> 'a dht_node \<Rightarrow> (dht_message option \<times> 'a dht_node) option" where
  "request net now peer msg n = (case net peer msg of
       Some reply \<Rightarrow> Some (Some reply, note_alive (c_id peer) n)
     | None \<Rightarrow> map_option (\<lambda>n. (None, n)) (note_dead now peer n))"

text \<open>The requests of one batch, answers in batch order.\<close>

fun request_all :: "'a network \<Rightarrow> u64 \<Rightarrow> dht_message \<Rightarrow> 'a contact list \<Rightarrow> 'a dht_node
    \<Rightarrow> (dht_message option list \<times> 'a dht_node) option" where
  "request_all net now msg [] n = Some ([], n)"
| "request_all net now msg (c # cs) n = (case request net now c msg n of None \<Rightarrow> None
     | Some (r, n1) \<Rightarrow> (case request_all net now msg cs n1 of None \<Rightarrow> None
         | Some (rs, n2) \<Rightarrow> Some (r # rs, n2)))"

definition found_nodes :: "(bytes \<Rightarrow> 'a option) \<Rightarrow> dht_message option \<Rightarrow> 'a contact list" where
  "found_nodes parse r = (case r of Some (Nodes ws) \<Rightarrow> List.map_filter (into_contact parse) ws | _ \<Rightarrow> [])"

section \<open>Iterative lookups\<close>

type_synonym 'a known = "(bytes32, 'a contact) btree"

definition add_known :: "'a contact list \<Rightarrow> 'a known \<Rightarrow> 'a known" where
  "add_known cs m = fold (\<lambda>c. bt_insert (c_id c) c) cs m"

definition shortlist :: "bytes32 \<Rightarrow> 'a known \<Rightarrow> 'a contact list" where
  "shortlist target m = take K (sort_key (\<lambda>c. distance (c_id c) target) (map snd m))"

definition batch :: "bytes32 list \<Rightarrow> 'a contact list \<Rightarrow> 'a contact list" where
  "batch queried sl = take ALPHA (filter (\<lambda>c. c_id c \<notin> set queried) sl)"

text \<open>The loop \<open>lookup\<close> and \<open>get\<close> share; a round may panic. Every round asks an id not asked before.\<close>

function iterate :: "(nat \<Rightarrow> 'a contact list \<Rightarrow> 'a known \<Rightarrow> 's \<Rightarrow> ('a known \<times> 's) option) \<Rightarrow> bytes32 \<Rightarrow> nat \<Rightarrow> bytes32 list
    \<Rightarrow> 'a known \<Rightarrow> 's \<Rightarrow> ('a contact list \<times> bytes32 list \<times> 'a known \<times> 's) option" where
  "iterate rnd target k queried m s = (let sl = shortlist target m; b = batch queried sl in
     if b = [] then Some (sl, queried, m, s)
     else case rnd k b m s of None \<Rightarrow> None
       | Some (m', s') \<Rightarrow> iterate rnd target (Suc k) (queried @ map c_id b) m' s')"
  by pat_completeness auto
termination
proof (relation "measure (\<lambda>(rnd, target, k, queried, m, s). card (- set queried))", goal_cases)
  case (2 rnd target k queried m s sl b ms m' s')
  then have b: "hd b \<in> set b" by simp
  then have "c_id (hd b) \<in> - set queried" using 2 by (auto simp: batch_def dest!: in_set_takeD)
  then have "- set (queried @ map c_id b) \<subset> - set queried" using b by auto
  then show ?case by (simp add: psubset_card_mono)
qed simp

declare iterate.simps [simp del]

definition lookup_round :: "'a network \<Rightarrow> (bytes \<Rightarrow> 'a option) \<Rightarrow> ('a \<Rightarrow> bytes) \<Rightarrow> (nat \<Rightarrow> u64) \<Rightarrow> bytes32 \<Rightarrow> nat \<Rightarrow> 'a contact list
    \<Rightarrow> 'a known \<Rightarrow> 'a dht_node \<Rightarrow> ('a known \<times> 'a dht_node) option" where
  "lookup_round net parse sh tm target k b m n =
     (case request_all net (tm k) (FindNode (wire_from sh (dn_me n)) target) b n of None \<Rightarrow> None
      | Some (rs, n1) \<Rightarrow> let discovered = concat (map (found_nodes parse) rs) in
          Some (add_known discovered m, learn (tm k) discovered n1))"

definition lookup :: "'a network \<Rightarrow> (bytes \<Rightarrow> 'a option) \<Rightarrow> ('a \<Rightarrow> bytes) \<Rightarrow> (nat \<Rightarrow> u64) \<Rightarrow> bytes32 \<Rightarrow> 'a dht_node
    \<Rightarrow> ('a contact list \<times> 'a dht_node) option" where
  "lookup net parse sh tm target n =
     map_option (\<lambda>(sl, q, m, n). (sl, n))
       (iterate (lookup_round net parse sh tm target) target 0 [] (add_known (closest_local target n) []) n)"

definition merge_best :: "stored_record \<Rightarrow> (bytes32, stored_record) btree \<Rightarrow> (bytes32, stored_record) btree" where
  "merge_best r bst = (case bt_get bst (sr_publisher r) of
       Some existing \<Rightarrow> if sr_seq existing \<ge> sr_seq r then bst else bt_insert (sr_publisher r) r bst
     | None \<Rightarrow> bt_insert (sr_publisher r) r bst)"

type_synonym 'a get_state = "(bytes32, stored_record) btree \<times> 'a dht_node"

definition value_reply :: "verifier \<Rightarrow> (bytes \<Rightarrow> 'a option) \<Rightarrow> u64 \<Rightarrow> bytes32 \<Rightarrow> dht_message option \<Rightarrow> 'a known \<times> 'a get_state
    \<Rightarrow> 'a known \<times> 'a get_state" where
  "value_reply ver parse now key r acc = (case acc of (m, bst, n) \<Rightarrow> (case r of
       Some (Value records closer) \<Rightarrow>
         let bst = fold merge_best (filter (\<lambda>r. sr_key r = key \<and> sr_verify ver r) records) bst;
             contacts = List.map_filter (into_contact parse) closer
         in (add_known contacts m, bst, learn now contacts n)
     | _ \<Rightarrow> (m, bst, n)))"

definition get_round :: "'a network \<Rightarrow> verifier \<Rightarrow> (bytes \<Rightarrow> 'a option) \<Rightarrow> ('a \<Rightarrow> bytes) \<Rightarrow> (nat \<Rightarrow> u64) \<Rightarrow> bytes32 \<Rightarrow> nat \<Rightarrow> 'a contact list
    \<Rightarrow> 'a known \<Rightarrow> 'a get_state \<Rightarrow> ('a known \<times> 'a get_state) option" where
  "get_round net ver parse sh tm key k b m s = (case s of (bst, n) \<Rightarrow>
     (case request_all net (tm k) (FindValue (wire_from sh (dn_me n)) key) b n of None \<Rightarrow> None
      | Some (rs, n1) \<Rightarrow> Some (fold (value_reply ver parse (tm k) key) rs (m, bst, n1))))"

definition dn_get :: "'a network \<Rightarrow> verifier \<Rightarrow> (bytes \<Rightarrow> 'a option) \<Rightarrow> ('a \<Rightarrow> bytes) \<Rightarrow> u64 \<Rightarrow> (nat \<Rightarrow> u64) \<Rightarrow> bytes32 \<Rightarrow> 'a dht_node
    \<Rightarrow> (stored_record list \<times> 'a dht_node) option" where
  "dn_get net ver parse sh now tm key n =
     map_option (\<lambda>(sl, q, m, bst, n). (map snd bst, n))
       (iterate (get_round net ver parse sh tm key) key 0 [] (add_known (closest_local key n) [])
         (fold merge_best (rs_get key now (dn_store n)) [], n))"

definition bootstrap :: "'a network \<Rightarrow> (bytes \<Rightarrow> 'a option) \<Rightarrow> ('a \<Rightarrow> bytes) \<Rightarrow> u64 \<Rightarrow> (nat \<Rightarrow> u64) \<Rightarrow> u64 \<Rightarrow> 'a contact list \<Rightarrow> 'a dht_node
    \<Rightarrow> 'a dht_node option" where
  "bootstrap net parse sh now tm later cs n =
     (let n1 = learn now cs (n\<lparr>seeds := seeds n @ map c_id cs\<rparr>) in
      map_option (\<lambda>(found, n2). learn later found n2) (lookup net parse sh tm (c_id (dn_me n1)) n1))"

definition dn_put :: "'a network \<Rightarrow> verifier \<Rightarrow> (bytes32 \<Rightarrow> bytes \<Rightarrow> bytes) \<Rightarrow> (bytes \<Rightarrow> 'a option) \<Rightarrow> ('a \<Rightarrow> bytes) \<Rightarrow> u64 \<Rightarrow> (nat \<Rightarrow> u64) \<Rightarrow> u64
    \<Rightarrow> bytes32 \<Rightarrow> u64 \<Rightarrow> bytes \<Rightarrow> 'a dht_node \<Rightarrow> 'a dht_node option" where
  "dn_put net ver sg parse sh now tm later key s v n =
     (let r = sr_sign sg (c_id (dn_me n)) key s v;
          n1 = n\<lparr>dn_store := snd (rs_put ver r now (dn_store n))\<rparr> in
      case lookup net parse sh tm key n1 of None \<Rightarrow> None
      | Some (targets, n2) \<Rightarrow> map_option snd (request_all net later (Store r) targets n2))"

section \<open>The loop\<close>

text \<open>A round that keeps \<open>J\<close> and does not panic: the loop returns, with a shortlist whose every member was asked.\<close>

lemma iterate_returns:
  assumes "\<And>k b q m s. J q m s \<Longrightarrow> b = batch q (shortlist target m) \<Longrightarrow> b \<noteq> [] \<Longrightarrow>
      \<exists>m' s'. rnd k b m s = Some (m', s') \<and> J (q @ map c_id b) m' s'"
    and "J q m s"
  shows "\<exists>q' m' s'. iterate rnd target k q m s = Some (shortlist target m', q', m', s') \<and> J q' m' s'
    \<and> c_id ` set (shortlist target m') \<subseteq> set q'"
  using assms
proof (induction rnd target k q m s rule: iterate.induct)
  case (1 rnd target k q m s)
  show ?case
  proof (cases "batch q (shortlist target m) = []")
    case True
    then have "c_id ` set (shortlist target m) \<subseteq> set q"
      by (auto simp: batch_def ALPHA_def filter_empty_conv take_eq_Nil)
    then show ?thesis using True "1.prems"(2) by (subst iterate.simps) (simp add: Let_def)
  next
    case False
    obtain m' s' where step: "rnd k (batch q (shortlist target m)) m s = Some (m', s')"
      "J (q @ map c_id (batch q (shortlist target m))) m' s'" using "1.prems"(1) [OF "1.prems"(2) refl False] by blast
    from "1.IH" [OF refl refl False step(1) refl "1.prems"(1) step(2)] show ?thesis
      using False step(1) by (subst iterate.simps) (simp add: Let_def)
  qed
qed

section \<open>Invariants\<close>

definition known_ok :: "'a known \<Rightarrow> bool" where
  "known_ok m \<longleftrightarrow> bt_inv m \<and> (\<forall>(i, c) \<in> set m. c_id c = i)"

definition node_inv :: "verifier \<Rightarrow> 'a dht_node \<Rightarrow> bool" where
  "node_inv ver n \<longleftrightarrow> rt_inv (dn_table n) \<and> rt_self (dn_table n) = c_id (dn_me n) \<and> rm_inv ver (rs_inner (dn_store n))
     \<and> (\<forall>i f. bt_get (failures n) i = Some f \<longrightarrow> f < EVICT_AFTER)"

definition clock_ok :: "u64 \<Rightarrow> bool" where
  "clock_ok now \<longleftrightarrow> unat now + unat TOMBSTONE_TTL_MS < 2 ^ 64"

lemma set_add_known: "bt_inv m \<Longrightarrow> bt_inv (add_known cs m) \<and> fst ` set (add_known cs m) = fst ` set m \<union> c_id ` set cs"
  unfolding add_known_def by (induction cs arbitrary: m) (auto simp: keys_bt_insert)

lemma add_known_ok: "known_ok m \<Longrightarrow> known_ok (add_known cs m)"
proof (induction cs arbitrary: m)
  case (Cons c cs)
  have "known_ok (bt_insert (c_id c) c m)" using Cons.prems by (auto simp: known_ok_def set_bt_insert)
  from Cons.IH [OF this] show ?case by (simp add: add_known_def)
qed (simp add: add_known_def)

lemma known_ok_Nil [simp]: "known_ok []"
  by (simp add: known_ok_def)

lemma tombstoned_frame:
  "dn_me (snd (tombstoned now i n)) = dn_me n \<and> dn_table (snd (tombstoned now i n)) = dn_table n
   \<and> dn_store (snd (tombstoned now i n)) = dn_store n \<and> failures (snd (tombstoned now i n)) = failures n
   \<and> seeds (snd (tombstoned now i n)) = seeds n"
  by (simp add: tombstoned_def split: option.split)

lemma learn_filter_frame:
  "dn_me (snd (learn_filter now cs n)) = dn_me n \<and> dn_table (snd (learn_filter now cs n)) = dn_table n
   \<and> dn_store (snd (learn_filter now cs n)) = dn_store n \<and> failures (snd (learn_filter now cs n)) = failures n
   \<and> seeds (snd (learn_filter now cs n)) = seeds n"
proof (induction now cs n rule: learn_filter.induct)
  case (2 now c cs n)
  obtain dead n1 where t: "tombstoned now (c_id c) n = (dead, n1)" by fastforce
  obtain fresh n2 where f: "learn_filter now cs n1 = (fresh, n2)" by fastforce
  show ?case using 2 t f tombstoned_frame [of now "c_id c" n] by (simp split: if_splits)
qed simp

lemma fold_insert_inv: "rt_inv t \<Longrightarrow> rt_inv (fold rt_insert cs t) \<and> rt_self (fold rt_insert cs t) = rt_self t"
  by (induction cs arbitrary: t) (auto simp: rt_inv_insert)

lemma learn_eq: "learn now cs n = (snd (learn_filter now cs n))\<lparr>dn_table := fold rt_insert (fst (learn_filter now cs n)) (dn_table n)\<rparr>"
  using learn_filter_frame [of now cs n] by (simp add: learn_def case_prod_unfold)

lemma learn_frame: "dn_me (learn now cs n) = dn_me n" "dn_store (learn now cs n) = dn_store n"
    "seeds (learn now cs n) = seeds n" "failures (learn now cs n) = failures n"
  by (simp_all add: learn_eq learn_filter_frame)

lemma learn_inv:
  assumes "node_inv ver n" shows "node_inv ver (learn now cs n)"
proof -
  have "rt_inv (dn_table (learn now cs n))" "rt_self (dn_table (learn now cs n)) = rt_self (dn_table n)"
    using assms fold_insert_inv [of "dn_table n"] by (simp_all add: node_inv_def learn_eq)
  then show ?thesis using assms by (simp add: node_inv_def learn_frame)
qed

lemma note_alive_inv: "node_inv ver n \<Longrightarrow> node_inv ver (note_alive i n)"
  by (simp add: node_inv_def note_alive_def)

lemma failure_count: "node_inv ver n \<Longrightarrow> checked_add (bt_get_or 0 (failures n) i) 1 = Some (bt_get_or 0 (failures n) i + 1)"
proof -
  assume "node_inv ver n"
  then have "bt_get_or 0 (failures n) i < EVICT_AFTER"
    by (auto simp: node_inv_def bt_get_or_def EVICT_AFTER_def split: option.split)
  then have "unat (bt_get_or 0 (failures n) i) < 3" by (simp add: EVICT_AFTER_def word_less_nat_alt)
  then show ?thesis by (intro checked_add_eq) simp
qed

lemma note_dead_returns:
  assumes "node_inv ver n" "clock_ok now"
  shows "\<exists>n'. note_dead now peer n = Some n' \<and> node_inv ver n' \<and> dn_me n' = dn_me n \<and> dn_store n' = dn_store n \<and> seeds n' = seeds n"
proof -
  have "checked_add now TOMBSTONE_TTL_MS = Some (now + TOMBSTONE_TTL_MS)"
    using assms(2) by (intro checked_add_eq) (simp add: clock_ok_def)
  then show ?thesis using assms(1) failure_count [OF assms(1)]
    by (auto simp: note_dead_def node_inv_def rt_inv_remove not_le)
qed

lemma request_all_returns:
  assumes "node_inv ver n" "clock_ok now"
  shows "\<exists>n'. request_all net now msg cs n = Some (map (\<lambda>c. net c msg) cs, n') \<and> node_inv ver n'
    \<and> dn_me n' = dn_me n \<and> dn_store n' = dn_store n \<and> seeds n' = seeds n"
  using assms(1)
proof (induction cs arbitrary: n)
  case (Cons c cs)
  have "\<exists>n1. request net now c msg n = Some (net c msg, n1) \<and> node_inv ver n1 \<and> dn_me n1 = dn_me n \<and> dn_store n1 = dn_store n \<and> seeds n1 = seeds n"
  proof (cases "net c msg")
    case None
    with note_dead_returns [OF Cons.prems assms(2), of c] show ?thesis by (auto simp: request_def)
  next
    case (Some r)
    with note_alive_inv [OF Cons.prems] show ?thesis by (simp add: request_def) (simp add: note_alive_def)
  qed
  then obtain n1 where n1: "request net now c msg n = Some (net c msg, n1)" "node_inv ver n1" "dn_me n1 = dn_me n" "dn_store n1 = dn_store n" "seeds n1 = seeds n" by blast
  from Cons.IH [OF n1(2)] obtain n2 where "request_all net now msg cs n1 = Some (map (\<lambda>c. net c msg) cs, n2)" "node_inv ver n2"
    "dn_me n2 = dn_me n1" "dn_store n2 = dn_store n1" "seeds n2 = seeds n1" by blast
  with n1 show ?case by simp
qed simp

section \<open>What the loop converges to\<close>

text \<open>An id is covered by a shortlist: it is in it, or the shortlist is full of closer ones.\<close>

definition covered :: "bytes32 \<Rightarrow> 'a contact list \<Rightarrow> bytes32 \<Rightarrow> bool" where
  "covered target sl i \<longleftrightarrow> i \<in> c_id ` set sl \<or> length sl = K \<and> (\<forall>e \<in> set sl. distance (c_id e) target < distance i target)"

lemma known_ids: "known_ok m \<Longrightarrow> map c_id (map snd m) = map fst m"
  by (auto simp: known_ok_def)

lemma shortlist_distinct: "known_ok m \<Longrightarrow> distinct (map c_id (shortlist target m))"
proof -
  assume ok: "known_ok m"
  then have "distinct (map c_id (map snd m))" by (simp only: known_ids) (simp add: known_ok_def bt_inv_distinct)
  then have "distinct (map c_id (sort_key (\<lambda>c. distance (c_id c) target) (map snd m)))"
    by (subst mset_eq_imp_distinct_iff [of _ "map c_id (map snd m)"]) (simp_all add: multiset.map_comp)
  then show ?thesis by (simp add: shortlist_def flip: take_map)
qed

lemma shortlist_covers:
  assumes "known_ok m" "i \<in> fst ` set m"
  shows "covered target (shortlist target m) i"
proof (cases "i \<in> c_id ` set (shortlist target m)")
  case False
  let ?f = "\<lambda>c. distance (c_id c) target"
  obtain d where d: "d \<in> set (map snd m)" "c_id d = i" using assms by (force simp: known_ok_def)
  with False have nd: "d \<in> set (map snd m) - set (shortlist target m)" by auto
  have "?f e < ?f d" if "e \<in> set (shortlist target m)" for e
  proof -
    have "?f e \<le> ?f d" using take_sort_key(4) [of e K ?f "map snd m" d] that nd by (simp add: shortlist_def)
    moreover have "c_id e \<noteq> c_id d" using False d(2) that by (metis image_eqI)
    ultimately show ?thesis using distance_inj by (metis order.strict_iff_order)
  qed
  moreover have "length (shortlist target m) = K"
  proof (rule ccontr)
    assume "length (shortlist target m) \<noteq> K"
    then have "length m \<le> K" by (simp add: shortlist_def min_def split: if_splits)
    then have "shortlist target m = sort_key ?f (map snd m)" by (simp add: shortlist_def)
    then show False using nd by simp
  qed
  ultimately show ?thesis using d by (simp add: covered_def)
qed (simp add: covered_def)

lemma found_nodes_all:
  "c \<in> set b \<Longrightarrow> c_id ` set (found_nodes parse (net c msg)) \<subseteq> c_id ` set (concat (map (found_nodes parse) (map (\<lambda>c. net c msg) b)))"
  by auto

lemma lookup_round_returns:
  assumes "known_ok m" "node_inv ver n" "clock_ok (tm k)"
    and "\<forall>i \<in> set q. \<exists>c. c_id c = i \<and> c_id ` set (found_nodes parse (net c (FindNode (wire_from sh (dn_me n)) target))) \<subseteq> fst ` set m"
  shows "\<exists>m' n'. lookup_round net parse sh tm target k b m n = Some (m', n') \<and> known_ok m' \<and> node_inv ver n' \<and> dn_me n' = dn_me n
    \<and> fst ` set m \<subseteq> fst ` set m' \<and> (\<forall>i \<in> set (q @ map c_id b). \<exists>c. c_id c = i
        \<and> c_id ` set (found_nodes parse (net c (FindNode (wire_from sh (dn_me n)) target))) \<subseteq> fst ` set m')"
proof -
  let ?msg = "FindNode (wire_from sh (dn_me n)) target"
  obtain n1 where n1: "request_all net (tm k) ?msg b n = Some (map (\<lambda>c. net c ?msg) b, n1)" "node_inv ver n1" "dn_me n1 = dn_me n"
    using request_all_returns [OF assms(2,3)] by blast
  define D where "D = concat (map (found_nodes parse) (map (\<lambda>c. net c ?msg) b))"
  have eq: "lookup_round net parse sh tm target k b m n = Some (add_known D m, learn (tm k) D n1)"
    using n1(1) by (simp add: lookup_round_def Let_def D_def)
  have keys: "fst ` set (add_known D m) = fst ` set m \<union> c_id ` set D"
    using assms(1) set_add_known [of m D] by (simp add: known_ok_def)
  have "\<exists>c. c_id c = i \<and> c_id ` set (found_nodes parse (net c ?msg)) \<subseteq> fst ` set (add_known D m)" if i: "i \<in> set (q @ map c_id b)" for i
  proof (cases "i \<in> set q")
    case True
    then obtain c where "c_id c = i" "c_id ` set (found_nodes parse (net c ?msg)) \<subseteq> fst ` set m" using assms(4) by blast
    then show ?thesis unfolding keys by (intro exI [of _ c] conjI le_supI1)
  next
    case False
    then obtain c where c: "c \<in> set b" "c_id c = i" using i by auto
    have "c_id ` set (found_nodes parse (net c ?msg)) \<subseteq> c_id ` set D" unfolding D_def by (rule found_nodes_all [OF c(1)])
    with c(2) show ?thesis unfolding keys by (intro exI [of _ c] conjI le_supI2)
  qed
  then have asked: "\<forall>i \<in> set (q @ map c_id b). \<exists>c. c_id c = i \<and> c_id ` set (found_nodes parse (net c ?msg)) \<subseteq> fst ` set (add_known D m)" by blast
  have me: "dn_me (learn (tm k) D n1) = dn_me n" using n1(3) by (simp add: learn_frame)
  show ?thesis
    by (intro exI conjI, rule eq, rule add_known_ok [OF assms(1)], rule learn_inv [OF n1(2)], rule me, unfold keys, rule Un_upper1,
        rule asked [unfolded keys])
qed

section \<open>Values\<close>

interpretation bests: latest_wins sr_publisher sr_seq "\<lambda>_. True" bt_inv bt_get merge_best
  by unfold_locales (auto simp: merge_best_def split: option.splits)

definition valid_records :: "verifier \<Rightarrow> bytes32 \<Rightarrow> dht_message option \<Rightarrow> stored_record list" where
  "valid_records ver key r = (case r of Some (Value records closer) \<Rightarrow> filter (\<lambda>r. sr_key r = key \<and> sr_verify ver r) records | _ \<Rightarrow> [])"

definition value_contacts :: "(bytes \<Rightarrow> 'a option) \<Rightarrow> dht_message option \<Rightarrow> 'a contact list" where
  "value_contacts parse r = (case r of Some (Value records closer) \<Rightarrow> List.map_filter (into_contact parse) closer | _ \<Rightarrow> [])"

lemma value_reply_eq:
  "\<exists>n'. value_reply ver parse now key r (m, bst, n) = (add_known (value_contacts parse r) m, fold merge_best (valid_records ver key r) bst, n')
     \<and> (n' = n \<or> (\<exists>cs. n' = learn now cs n))"
  by (auto simp: value_reply_def valid_records_def value_contacts_def add_known_def Let_def split: option.split dht_message.split)

lemma value_replies:
  assumes "node_inv ver n"
  shows "\<exists>n'. fold (value_reply ver parse now key) rs (m, bst, n)
      = (add_known (concat (map (value_contacts parse) rs)) m, fold merge_best (concat (map (valid_records ver key) rs)) bst, n')
    \<and> node_inv ver n' \<and> dn_me n' = dn_me n"
  using assms
proof (induction rs arbitrary: m bst n)
  case (Cons r rs)
  obtain n1 where n1: "value_reply ver parse now key r (m, bst, n)
      = (add_known (value_contacts parse r) m, fold merge_best (valid_records ver key r) bst, n1)"
    "node_inv ver n1" "dn_me n1 = dn_me n"
    using value_reply_eq [of ver parse now key r m bst n] Cons.prems learn_inv learn_frame(1) by metis
  from Cons.IH [OF n1(2)] show ?case using n1 by (simp add: add_known_def)
qed (simp add: add_known_def)

text \<open>A record is superseded by a result that has a record of its publisher at least as new.\<close>

definition superseded :: "(bytes32, stored_record) btree \<Rightarrow> stored_record \<Rightarrow> bool" where
  "superseded bst r \<longleftrightarrow> (\<exists>w. bt_get bst (sr_publisher r) = Some w \<and> sr_seq r \<le> sr_seq w)"

lemma superseded_mono: "bt_inv bst \<Longrightarrow> superseded bst r \<Longrightarrow> superseded (fold merge_best rs bst) r"
  unfolding superseded_def using bests.monotone [of bst "sr_publisher r" _ rs] by (meson order_trans)

lemma superseded_all:
  assumes "bt_inv bst" "r \<in> set rs"
  shows "superseded (fold merge_best rs bst) r"
proof -
  obtain xs ys where rs: "rs = xs @ r # ys" using split_list [OF assms(2)] by blast
  let ?b = "fold merge_best xs bst"
  have inv: "bt_inv ?b" "bt_inv (merge_best r ?b)" using assms(1) bests.inv_fold bests.inv_put by blast+
  have "superseded (merge_best r ?b) r"
    by (auto simp: superseded_def bests.get_put [OF inv(1)] not_less split: option.splits)
  then show ?thesis using superseded_mono [OF inv(2)] by (simp add: rs)
qed

definition best_ok :: "verifier \<Rightarrow> bytes32 \<Rightarrow> (bytes32, stored_record) btree \<Rightarrow> bool" where
  "best_ok ver key bst \<longleftrightarrow> bt_inv bst \<and> (\<forall>p r. bt_get bst p = Some r \<longrightarrow> sr_publisher r = p \<and> sr_key r = key \<and> sr_verify ver r)"

lemma best_ok_fold:
  assumes "best_ok ver key bst" "\<forall>r \<in> set rs. sr_key r = key \<and> sr_verify ver r"
  shows "best_ok ver key (fold merge_best rs bst)"
proof -
  have "bt_inv bst" using assms(1) by (simp add: best_ok_def)
  then show ?thesis using assms bests.inv_fold [of bst rs] bests.provenance [of bst rs] unfolding best_ok_def by metis
qed

lemma valid_records_ok: "r \<in> set (valid_records ver key x) \<Longrightarrow> sr_key r = key \<and> sr_verify ver r"
  by (auto simp: valid_records_def split: option.splits dht_message.splits)

lemma get_round_returns:
  fixes sh :: "'a \<Rightarrow> bytes" and key :: bytes32 and n :: "'a dht_node"
  assumes "known_ok m" "node_inv ver n" "clock_ok (tm k)"
  defines "msg \<equiv> FindValue (wire_from sh (dn_me n)) key"
  shows "\<exists>n'. get_round net ver parse sh tm key k b m (bst, n)
      = Some (add_known (concat (map (\<lambda>c. value_contacts parse (net c msg)) b)) m,
          fold merge_best (concat (map (\<lambda>c. valid_records ver key (net c msg)) b)) bst, n')
    \<and> node_inv ver n' \<and> dn_me n' = dn_me n"
proof -
  obtain n1 where n1: "request_all net (tm k) msg b n = Some (map (\<lambda>c. net c msg) b, n1)" "node_inv ver n1" "dn_me n1 = dn_me n"
    using request_all_returns [OF assms(2,3)] by blast
  from value_replies [OF n1(2), of parse "tm k" key "map (\<lambda>c. net c msg) b" m bst] n1
  show ?thesis by (auto simp: get_round_def msg_def comp_def)
qed

lemma superseded_mem:
  assumes "best_ok ver key bst" "superseded bst r"
  shows "\<exists>w \<in> set (map snd bst). sr_publisher w = sr_publisher r \<and> sr_seq r \<le> sr_seq w"
proof -
  obtain w where w: "bt_get bst (sr_publisher r) = Some w" "sr_seq r \<le> sr_seq w" using assms(2) by (auto simp: superseded_def)
  then have "(sr_publisher r, w) \<in> set bst" "sr_publisher w = sr_publisher r"
    using assms(1) bt_get_Some_iff [of bst "sr_publisher r" w] by (simp_all add: best_ok_def)
  with w show ?thesis by force
qed

lemma best_values:
  assumes "best_ok ver key bst"
  shows "distinct (map sr_publisher (map snd bst)) \<and> (\<forall>r \<in> set (map snd bst). sr_verify ver r \<and> sr_key r = key)"
proof -
  have inv: "bt_inv bst" and ok: "\<forall>x \<in> set bst. sr_publisher (snd x) = fst x \<and> sr_key (snd x) = key \<and> sr_verify ver (snd x)"
    using assms bt_get_Some_iff [of bst] by (auto simp: best_ok_def)
  have "map sr_publisher (map snd bst) = map fst bst" using ok by simp
  then show ?thesis using bt_inv_distinct [OF inv] ok by (simp only:) auto
qed

text \<open>The contacts a fetch can come to know: those it starts from and those named in the answer of one of them.\<close>

inductive reached :: "(bytes \<Rightarrow> 'a option) \<Rightarrow> 'a network \<Rightarrow> dht_message \<Rightarrow> 'a contact list \<Rightarrow> 'a contact \<Rightarrow> bool"
  for parse net msg start where
  reached_start: "c \<in> set start \<Longrightarrow> reached parse net msg start c"
| reached_named: "reached parse net msg start c \<Longrightarrow> d \<in> set (value_contacts parse (net c msg)) \<Longrightarrow> reached parse net msg start d"

definition all_reached :: "(bytes \<Rightarrow> 'a option) \<Rightarrow> 'a network \<Rightarrow> dht_message \<Rightarrow> 'a contact list \<Rightarrow> 'a known \<Rightarrow> bool" where
  "all_reached parse net msg start m \<longleftrightarrow> (\<forall>x \<in> set m. reached parse net msg start (snd x))"

lemma all_reached_add:
  assumes "all_reached parse net msg start m" "\<forall>c \<in> set cs. reached parse net msg start c"
  shows "all_reached parse net msg start (add_known cs m)"
  using assms
proof (induction cs arbitrary: m)
  case (Cons c cs)
  have "all_reached parse net msg start (bt_insert (c_id c) c m)"
    using Cons.prems set_bt_insert_subset [of "c_id c" c m] by (fastforce simp: all_reached_def)
  with Cons show ?case by (simp add: add_known_def)
qed (simp add: add_known_def)

text \<open>Where a record of the result comes from.\<close>

definition sourced :: "verifier \<Rightarrow> bytes32 \<Rightarrow> (bytes \<Rightarrow> 'a option) \<Rightarrow> 'a network \<Rightarrow> dht_message \<Rightarrow> 'a contact list \<Rightarrow> stored_record list
    \<Rightarrow> stored_record \<Rightarrow> bool" where
  "sourced ver key parse net msg start local r \<longleftrightarrow>
     r \<in> set local \<or> (\<exists>c. reached parse net msg start c \<and> r \<in> set (valid_records ver key (net c msg)))"

lemma sourced_fold:
  assumes "bt_inv bst" "\<forall>p r. bt_get bst p = Some r \<longrightarrow> P r" "\<forall>r \<in> set rs. P r"
  shows "\<forall>p r. bt_get (fold merge_best rs bst) p = Some r \<longrightarrow> P r"
  using bests.provenance [OF assms(1), of rs] assms(2,3) by metis

text \<open>What holds after every round of a fetch.\<close>

definition answered :: "verifier \<Rightarrow> bytes32 \<Rightarrow> (bytes \<Rightarrow> 'a option) \<Rightarrow> 'a network \<Rightarrow> dht_message \<Rightarrow> 'a known \<Rightarrow> (bytes32, stored_record) btree
    \<Rightarrow> 'a contact \<Rightarrow> bool" where
  "answered ver key parse net msg m bst c \<longleftrightarrow> c_id ` set (value_contacts parse (net c msg)) \<subseteq> fst ` set m
     \<and> (\<forall>r \<in> set (valid_records ver key (net c msg)). superseded bst r)"

definition get_inv :: "verifier \<Rightarrow> bytes32 \<Rightarrow> (bytes \<Rightarrow> 'a option) \<Rightarrow> 'a network \<Rightarrow> dht_message \<Rightarrow> 'a contact \<Rightarrow> 'a contact list \<Rightarrow> stored_record list
    \<Rightarrow> bytes32 list \<Rightarrow> 'a known \<Rightarrow> 'a get_state \<Rightarrow> bool" where
  "get_inv ver key parse net msg me start local q m s \<longleftrightarrow> known_ok m \<and> node_inv ver (snd s) \<and> dn_me (snd s) = me \<and> c_id ` set start \<subseteq> fst ` set m
     \<and> best_ok ver key (fst s) \<and> (\<forall>r \<in> set local. superseded (fst s) r)
     \<and> (\<forall>i \<in> set q. \<exists>c. c_id c = i \<and> reached parse net msg start c \<and> answered ver key parse net msg m (fst s) c)
     \<and> all_reached parse net msg start m \<and> (\<forall>p r. bt_get (fst s) p = Some r \<longrightarrow> sourced ver key parse net msg start local r)"

lemma answered_round:
  fixes parse :: "bytes \<Rightarrow> 'a option" and net :: "'a network" and msg :: dht_message and b :: "'a contact list"
  assumes "known_ok m" "best_ok ver key bst"
  defines "m' \<equiv> add_known (concat (map (\<lambda>c. value_contacts parse (net c msg)) b)) m"
    and "bst' \<equiv> fold merge_best (concat (map (\<lambda>c. valid_records ver key (net c msg)) b)) bst"
  shows "fst ` set m \<subseteq> fst ` set m'" "best_ok ver key bst'"
    and "answered ver key parse net msg m bst c \<Longrightarrow> answered ver key parse net msg m' bst' c"
    and "c \<in> set b \<Longrightarrow> answered ver key parse net msg m' bst' c"
proof -
  have keys: "fst ` set m' = fst ` set m \<union> c_id ` set (concat (map (\<lambda>c. value_contacts parse (net c msg)) b))"
    using set_add_known [THEN conjunct2, of m] assms(1) unfolding m'_def known_ok_def by blast
  have inv: "bt_inv bst" using assms(2) by (simp add: best_ok_def)
  show "fst ` set m \<subseteq> fst ` set m'" unfolding keys by blast
  show "best_ok ver key bst'"
    unfolding bst'_def using valid_records_ok by (intro best_ok_fold [OF assms(2)]) fastforce
  show "answered ver key parse net msg m' bst' c" if "answered ver key parse net msg m bst c"
    using that superseded_mono [OF inv] unfolding answered_def keys bst'_def by blast
  show "answered ver key parse net msg m' bst' c" if "c \<in> set b"
  proof -
    have "c_id ` set (value_contacts parse (net c msg)) \<subseteq> fst ` set m'" unfolding keys using that by auto
    moreover have "superseded bst' r" if "r \<in> set (valid_records ver key (net c msg))" for r
      unfolding bst'_def using that \<open>c \<in> set b\<close> by (intro superseded_all [OF inv]) auto
    ultimately show ?thesis by (simp add: answered_def)
  qed
qed

lemma get_inv_step:
  fixes parse :: "bytes \<Rightarrow> 'a option"
  assumes J: "get_inv ver key parse net (FindValue (wire_from sh me) key) me start local q m s" and "\<forall>k. clock_ok (tm k)"
    and b: "set b \<subseteq> snd ` set m"
  shows "\<exists>m' s'. get_round net ver parse sh tm key k b m s = Some (m', s')
    \<and> get_inv ver key parse net (FindValue (wire_from sh me) key) me start local (q @ map c_id b) m' s'"
proof -
  let ?msg = "FindValue (wire_from sh me) key"
  let ?reached = "reached parse net ?msg start" and ?sourced = "sourced ver key parse net ?msg start local"
  obtain bst n where s: "s = (bst, n)" by (cases s)
  have ok: "known_ok m" "node_inv ver n" "dn_me n = me" "best_ok ver key bst" "c_id ` set start \<subseteq> fst ` set m" "\<forall>r \<in> set local. superseded bst r"
    "\<forall>i \<in> set q. \<exists>c. c_id c = i \<and> ?reached c \<and> answered ver key parse net ?msg m bst c"
    "all_reached parse net ?msg start m" "\<forall>p r. bt_get bst p = Some r \<longrightarrow> ?sourced r" using J s by (simp_all add: get_inv_def)
  let ?m = "add_known (concat (map (\<lambda>c. value_contacts parse (net c ?msg)) b)) m"
    and ?b = "fold merge_best (concat (map (\<lambda>c. valid_records ver key (net c ?msg)) b)) bst"
  have round: "fst ` set m \<subseteq> fst ` set ?m" "best_ok ver key ?b"
    "\<And>c. answered ver key parse net ?msg m bst c \<Longrightarrow> answered ver key parse net ?msg ?m ?b c"
    "\<And>c. c \<in> set b \<Longrightarrow> answered ver key parse net ?msg ?m ?b c"
    by (rule answered_round [OF ok(1,4)]; assumption?)+
  have asked: "?reached c" if "c \<in> set b" for c using that b ok(8) by (auto simp: all_reached_def)
  have "\<exists>n'. get_round net ver parse sh tm key k b m (bst, n) = Some (?m, ?b, n') \<and> node_inv ver n' \<and> dn_me n' = dn_me n"
    unfolding ok(3) [symmetric] by (rule get_round_returns [OF ok(1,2)]) (simp add: assms(2))
  then obtain n' where n': "get_round net ver parse sh tm key k b m s = Some (?m, ?b, n')" "node_inv ver n'" "dn_me n' = me"
    unfolding s ok(3) by blast
  have "\<exists>c. c_id c = i \<and> ?reached c \<and> answered ver key parse net ?msg ?m ?b c" if i: "i \<in> set (q @ map c_id b)" for i
  proof (cases "i \<in> set q")
    case True
    then show ?thesis using ok(7) round(3) by blast
  next
    case False
    then obtain c where "c \<in> set b" "c_id c = i" using i by auto
    then show ?thesis using round(4) asked by blast
  qed
  moreover have "\<forall>r \<in> set local. superseded ?b r" using ok(4,6) superseded_mono by (simp add: best_ok_def)
  moreover have "all_reached parse net ?msg start ?m"
    using asked by (intro all_reached_add [OF ok(8)]) (auto intro: reached_named)
  moreover have "\<forall>p r. bt_get ?b p = Some r \<longrightarrow> ?sourced r"
    using ok(4) asked by (intro sourced_fold [OF _ ok(9)]) (auto simp: best_ok_def sourced_def)
  ultimately have "get_inv ver key parse net ?msg me start local (q @ map c_id b) ?m (?b, n')"
    unfolding get_inv_def fst_conv snd_conv
    by (intro conjI add_known_ok [OF ok(1)] n'(2,3) round(2) order.trans [OF ok(5) round(1)] ballI) blast+
  with n'(1) show ?thesis by blast
qed

lemma get_inv_start:
  assumes "node_inv ver n"
  shows "get_inv ver key parse net msg (dn_me n) (closest_local key n) (rs_get key now (dn_store n)) []
    (add_known (closest_local key n) []) (fold merge_best (rs_get key now (dn_store n)) [], n)"
proof -
  let ?start = "closest_local key n" and ?local = "rs_get key now (dn_store n)"
  have "best_ok ver key (fold merge_best ?local [])"
    using rs_get_ok [of ver "dn_store n" _ key now] assms by (intro best_ok_fold) (auto simp: best_ok_def node_inv_def)
  moreover have "\<forall>r \<in> set ?local. superseded (fold merge_best ?local []) r"
    using superseded_all [OF bt_inv_Nil] by blast
  moreover have "all_reached parse net msg ?start (add_known ?start [])"
    by (rule all_reached_add) (auto simp: all_reached_def intro: reached_start)
  moreover have "\<forall>p r. bt_get (fold merge_best ?local []) p = Some r \<longrightarrow> sourced ver key parse net msg ?start ?local r"
    by (rule sourced_fold) (auto simp: sourced_def)
  moreover have "c_id ` set ?start \<subseteq> fst ` set (add_known ?start [])" using set_add_known [of "[]" ?start] by auto
  ultimately show ?thesis using assms add_known_ok [of "[]"] by (simp add: get_inv_def)
qed

section \<open>Eviction\<close>

lemma learn_filter_tombstone:
  "bt_get (tombstones n) i = Some ex \<Longrightarrow> now < ex \<Longrightarrow> i \<notin> c_id ` set (fst (learn_filter now cs n))"
proof (induction now cs n rule: learn_filter.induct)
  case (2 now c cs n)
  obtain dead n1 where t: "tombstoned now (c_id c) n = (dead, n1)" by fastforce
  have "bt_get (tombstones n1) i = Some ex" "c_id c = i \<longrightarrow> dead"
    using t 2(3,4) by (auto simp: tombstoned_def split: option.splits if_splits)
  then show ?case using 2 t by (auto simp: case_prod_unfold)
qed simp

lemma contains_fold_insert: "rt_inv t \<Longrightarrow> rt_contains i (fold rt_insert cs t) \<Longrightarrow> rt_contains i t \<or> i \<in> c_id ` set cs"
proof (induction cs arbitrary: t)
  case (Cons c cs)
  then have "rt_contains i (rt_insert c t) \<or> i \<in> c_id ` set cs" by (simp add: rt_inv_insert)
  then show ?case using rt_contains_insert [OF Cons.prems(1), of i c] by auto
qed simp

lemma tombstone_not_learned:
  assumes "node_inv ver n" "bt_get (tombstones n) i = Some ex" "now < ex" "\<not> rt_contains i (dn_table n)"
  shows "\<not> rt_contains i (dn_table (learn now cs n))"
  using contains_fold_insert [of "dn_table n" i] learn_filter_tombstone [OF assms(2,3), of cs] assms(1,4)
  by (auto simp: learn_eq node_inv_def)

lemma note_dead_counts:
  assumes "node_inv ver n" "c_id peer \<notin> set (seeds n)" "bt_get_or 0 (failures n) (c_id peer) + 1 < EVICT_AFTER"
  shows "note_dead now peer n = Some (n\<lparr>failures := bt_insert (c_id peer) (bt_get_or 0 (failures n) (c_id peer) + 1) (failures n)\<rparr>)"
  using assms failure_count [OF assms(1)] by (auto simp: note_dead_def)

lemma note_dead_evicts:
  assumes "node_inv ver n" "c_id peer \<notin> set (seeds n)" "bt_get_or 0 (failures n) (c_id peer) + 1 = EVICT_AFTER" "clock_ok now"
  shows "\<exists>n'. note_dead now peer n = Some n' \<and> node_inv ver n' \<and> \<not> rt_contains (c_id peer) (dn_table n')
    \<and> bt_get (tombstones n') (c_id peer) = Some (now + TOMBSTONE_TTL_MS)"
proof -
  have "checked_add now TOMBSTONE_TTL_MS = Some (now + TOMBSTONE_TTL_MS)"
    using assms(4) by (intro checked_add_eq) (simp add: clock_ok_def)
  moreover have "rt_inv (dn_table n)" using assms(1) by (simp add: node_inv_def)
  ultimately show ?thesis
    using assms failure_count [OF assms(1), of "c_id peer"] by (simp add: note_dead_def node_inv_def rt_inv_remove rt_contains_remove)
qed

lemma handle_inv: "node_inv ver n \<Longrightarrow> node_inv ver (snd (handle ver parse sh now msg n))"
proof (cases msg)
  case (Store r)
  assume inv: "node_inv ver n"
  then have "rm_inv ver (rs_inner (snd (rs_put ver r now (dn_store n))))"
    using recs.inv_put by (simp add: node_inv_def rs_put_entry)
  then show ?thesis using inv Store by (simp add: case_prod_unfold node_inv_def)
qed (auto simp: Let_def learn_from_def learn_inv split: option.split)

section \<open>Properties\<close>

text \<open>(C16) A lookup always returns, whatever the other nodes answer: at most \<open>K\<close> distinct contacts in
  order of distance, and converged, in that every contact known at the start and every contact that a
  member of the result named is in the result too, unless the result is full of closer ones.\<close>

theorem lookup_converges:
  assumes "node_inv ver n" "\<forall>k. clock_ok (tm k)"
  shows "\<exists>sl n'. lookup net parse sh tm target n = Some (sl, n') \<and> node_inv ver n'
    \<and> length sl \<le> K \<and> distinct (map c_id sl) \<and> sorted (map (\<lambda>c. distance (c_id c) target) sl)
    \<and> (\<forall>d \<in> set (closest_local target n). covered target sl (c_id d))
    \<and> (\<forall>c \<in> set sl. \<exists>c'. c_id c' = c_id c \<and>
         (\<forall>d \<in> set (found_nodes parse (net c' (FindNode (wire_from sh (dn_me n)) target))). covered target sl (c_id d)))"
proof -
  let ?msg = "FindNode (wire_from sh (dn_me n)) target" and ?m = "add_known (closest_local target n) []"
  define J where "J q m n' \<longleftrightarrow> known_ok m \<and> node_inv ver n' \<and> dn_me n' = dn_me n \<and> fst ` set ?m \<subseteq> fst ` set m
      \<and> (\<forall>i \<in> set q. \<exists>c. c_id c = i \<and> c_id ` set (found_nodes parse (net c ?msg)) \<subseteq> fst ` set m)" for q and m :: "'a known" and n'
  have step: "\<exists>m' s'. lookup_round net parse sh tm target k b m s = Some (m', s') \<and> J (q @ map c_id b) m' s'"
    if "J q m s" for k b q m s
    using that lookup_round_returns [of m ver s tm k q parse net sh target b] assms(2) unfolding J_def by fastforce
  have "J [] ?m n" using assms(1) add_known_ok [of "[]"] by (simp add: J_def)
  from iterate_returns [of J target "lookup_round net parse sh tm target", OF step this]
  obtain q' m' n' where it: "iterate (lookup_round net parse sh tm target) target 0 [] ?m n = Some (shortlist target m', q', m', n')"
    and J: "J q' m' n'" and asked: "c_id ` set (shortlist target m') \<subseteq> set q'" by blast
  have ok: "known_ok m'" and start: "fst ` set ?m \<subseteq> fst ` set m'" using J by (simp_all add: J_def)
  have "c_id d \<in> fst ` set m'" if "d \<in> set (closest_local target n)" for d
    using that start set_add_known [of "[]" "closest_local target n"] by auto
  moreover have "\<exists>c'. c_id c' = c_id c \<and> (\<forall>d \<in> set (found_nodes parse (net c' ?msg)). covered target (shortlist target m') (c_id d))"
    if "c \<in> set (shortlist target m')" for c
  proof -
    have "c_id c \<in> set q'" using asked that by blast
    then obtain c' where "c_id c' = c_id c" "c_id ` set (found_nodes parse (net c' ?msg)) \<subseteq> fst ` set m'"
      using J unfolding J_def by blast
    then show ?thesis using shortlist_covers [OF ok] by blast
  qed
  moreover have "length (shortlist target m') \<le> K" "sorted (map (\<lambda>c. distance (c_id c) target) (shortlist target m'))"
    using take_sort_key(1,2) by (simp_all add: shortlist_def)
  ultimately show ?thesis
    using it J shortlist_distinct [OF ok] shortlist_covers [OF ok] by (auto simp: lookup_def J_def)
qed

lemma batch_known: "set (batch q (shortlist key m)) \<subseteq> snd ` set m"
  by (auto simp: batch_def shortlist_def dest!: in_set_takeD)

lemma get_loop:
  fixes parse :: "bytes \<Rightarrow> 'a option"
  assumes "node_inv ver n" "\<forall>k. clock_ok (tm k)"
  shows "\<exists>q' m' bst n'. iterate (get_round net ver parse sh tm key) key 0 [] (add_known (closest_local key n) [])
        (fold merge_best (rs_get key now (dn_store n)) [], n) = Some (shortlist key m', q', m', bst, n')
    \<and> get_inv ver key parse net (FindValue (wire_from sh (dn_me n)) key) (dn_me n) (closest_local key n) (rs_get key now (dn_store n)) q' m' (bst, n')
    \<and> c_id ` set (shortlist key m') \<subseteq> set q'"
proof -
  let ?J = "get_inv ver key parse net (FindValue (wire_from sh (dn_me n)) key) (dn_me n) (closest_local key n) (rs_get key now (dn_store n))"
  have step: "\<exists>m' s'. get_round net ver parse sh tm key k b m s = Some (m', s') \<and> ?J (q @ map c_id b) m' s'"
    if "?J q m s" "b = batch q (shortlist key m)" for k b q m s
    using get_inv_step [OF that(1) assms(2)] that(2) batch_known by blast
  from iterate_returns [of ?J key "get_round net ver parse sh tm key", OF step get_inv_start [OF assms(1)]] show ?thesis by fastforce
qed

text \<open>(C37) Fetching a key always returns, on a clock below its limit: validly signed records of that key, one per publisher, each
  held unexpired by this node or answered by a contact the fetch came to know, and none older than what this node holds
  unexpired or than what the closest nodes answered. The closest nodes are the final shortlist of the loop: at most \<open>K\<close>
  distinct contacts in order of distance, each known from the routing table or named in an answer; the local contacts and
  those its members named are in it, unless it is full of closer ones; and every member was asked, at some address under its id
  that the fetch came to know.\<close>

theorem get_finds_latest:
  fixes n :: "'a dht_node" and sh :: "'a \<Rightarrow> bytes" and key :: bytes32 and now :: u64
  assumes "node_inv ver n" "\<forall>k. clock_ok (tm k)"
  defines "msg \<equiv> FindValue (wire_from sh (dn_me n)) key" and "start \<equiv> closest_local key n" and "local \<equiv> rs_get key now (dn_store n)"
  shows "\<exists>sl q m bst n'.
      iterate (get_round net ver parse sh tm key) key 0 [] (add_known start []) (fold merge_best local [], n) = Some (sl, q, m, bst, n')
    \<and> dn_get net ver parse sh now tm key n = Some (map snd bst, n') \<and> node_inv ver n'
    \<and> distinct (map sr_publisher (map snd bst)) \<and> (\<forall>r \<in> set (map snd bst). sr_verify ver r \<and> sr_key r = key
        \<and> (r \<in> set local \<or> (\<exists>c. reached parse net msg start c \<and> r \<in> set (valid_records ver key (net c msg)))))
    \<and> (\<forall>r \<in> set local. \<exists>w \<in> set (map snd bst). sr_publisher w = sr_publisher r \<and> sr_seq r \<le> sr_seq w)
    \<and> length sl \<le> K \<and> distinct (map c_id sl) \<and> sorted (map (\<lambda>c. distance (c_id c) key) sl)
    \<and> (\<forall>c \<in> set sl. reached parse net msg start c) \<and> (\<forall>d \<in> set start. covered key sl (c_id d))
    \<and> (\<forall>c \<in> set sl. \<exists>c'. c_id c' = c_id c \<and> reached parse net msg start c'
        \<and> (\<forall>r \<in> set (valid_records ver key (net c' msg)). \<exists>w \<in> set (map snd bst). sr_publisher w = sr_publisher r \<and> sr_seq r \<le> sr_seq w)
        \<and> (\<forall>d \<in> set (value_contacts parse (net c' msg)). covered key sl (c_id d)))"
proof -
  obtain q' m' bst n' where it: "iterate (get_round net ver parse sh tm key) key 0 [] (add_known start []) (fold merge_best local [], n)
      = Some (shortlist key m', q', m', bst, n')" and J: "get_inv ver key parse net msg (dn_me n) start local q' m' (bst, n')"
    and asked: "c_id ` set (shortlist key m') \<subseteq> set q'"
    using get_loop [OF assms(1,2), of net parse sh key now] unfolding msg_def start_def local_def by blast
  have ok: "known_ok m'" "c_id ` set start \<subseteq> fst ` set m'" "best_ok ver key bst" "\<forall>r \<in> set local. superseded bst r"
    "\<forall>i \<in> set q'. \<exists>c. c_id c = i \<and> reached parse net msg start c \<and> answered ver key parse net msg m' bst c" "node_inv ver n'"
    "all_reached parse net msg start m'" "\<forall>p r. bt_get bst p = Some r \<longrightarrow> sourced ver key parse net msg start local r"
    using J by (simp_all add: get_inv_def)
  let ?sl = "shortlist key m'"
  have start: "covered key ?sl (c_id d)" if "d \<in> set start" for d
    using that ok(2) by (intro shortlist_covers [OF ok(1)]) auto
  have named: "\<exists>c'. c_id c' = c_id c \<and> reached parse net msg start c'
      \<and> (\<forall>r \<in> set (valid_records ver key (net c' msg)). \<exists>w \<in> set (map snd bst). sr_publisher w = sr_publisher r \<and> sr_seq r \<le> sr_seq w)
      \<and> (\<forall>d \<in> set (value_contacts parse (net c' msg)). covered key ?sl (c_id d))" if c: "c \<in> set ?sl" for c
  proof -
    have "c_id c \<in> set q'" using asked c by blast
    then obtain c' where c': "c_id c' = c_id c" "reached parse net msg start c'" "answered ver key parse net msg m' bst c'" using ok(5) by blast
    have "covered key ?sl (c_id d)" if "d \<in> set (value_contacts parse (net c' msg))" for d
      using that c'(3) by (intro shortlist_covers [OF ok(1)]) (auto simp: answered_def)
    moreover have "\<exists>w \<in> set (map snd bst). sr_publisher w = sr_publisher r \<and> sr_seq r \<le> sr_seq w"
      if "r \<in> set (valid_records ver key (net c' msg))" for r
      using that c'(3) by (intro superseded_mem [OF ok(3)]) (simp add: answered_def)
    ultimately show ?thesis using c'(1,2) by (intro exI [of _ c'] conjI ballI)
  qed
  have local: "\<exists>w \<in> set (map snd bst). sr_publisher w = sr_publisher r \<and> sr_seq r \<le> sr_seq w" if "r \<in> set local" for r
    using that ok(4) by (intro superseded_mem [OF ok(3)]) simp
  have res: "dn_get net ver parse sh now tm key n = Some (map snd bst, n')" using it by (simp add: dn_get_def start_def local_def)
  have source: "r \<in> set local \<or> (\<exists>c. reached parse net msg start c \<and> r \<in> set (valid_records ver key (net c msg)))"
    if "r \<in> set (map snd bst)" for r
    using that ok(3,8) bt_get_Some_iff [of bst] by (fastforce simp: best_ok_def sourced_def)
  have sl: "length ?sl \<le> K" "sorted (map (\<lambda>c. distance (c_id c) key) ?sl)" "c \<in> set ?sl \<Longrightarrow> reached parse net msg start c" for c
    using take_sort_key(1,2) ok(7) by (auto simp: shortlist_def all_reached_def dest!: in_set_takeD)
  show ?thesis
  proof (rule exI [of _ ?sl], rule exI [of _ q'], rule exI [of _ m'], rule exI [of _ bst], rule exI [of _ n'], intro conjI ballI)
    show "distinct (map sr_publisher (map snd bst))" using best_values [OF ok(3)] by blast
    show "sr_verify ver r" "sr_key r = key" if "r \<in> set (map snd bst)" for r using best_values [OF ok(3)] that by blast+
  qed (use it res ok(6) local start named source sl shortlist_distinct [OF ok(1)] in blast)+
qed

text \<open>A dead peer is forgotten for good: after three failed requests in a row a peer that is not a
  seed is out of the routing table, and until its tombstone expires nothing the node is told puts it back.\<close>

theorem evicted_stays_out:
  assumes "node_inv ver n" "c_id peer \<notin> set (seeds n)" "bt_get (failures n) (c_id peer) = None" "clock_ok t3"
  shows "\<exists>n'. Option.bind (note_dead t1 peer n) (\<lambda>n. Option.bind (note_dead t2 peer n) (note_dead t3 peer)) = Some n'
    \<and> \<not> rt_contains (c_id peer) (dn_table n')
    \<and> (\<forall>now cs. now < t3 + TOMBSTONE_TTL_MS \<longrightarrow> \<not> rt_contains (c_id peer) (dn_table (learn now cs n')))"
proof -
  let ?i = "c_id peer"
  define n1 where "n1 = n\<lparr>failures := bt_insert ?i 1 (failures n)\<rparr>"
  define n2 where "n2 = n1\<lparr>failures := bt_insert ?i 2 (failures n1)\<rparr>"
  have d1: "note_dead t1 peer n = Some n1"
    using note_dead_counts [OF assms(1,2)] assms(3) by (simp add: n1_def bt_get_or_def EVICT_AFTER_def)
  have i1: "node_inv ver n1" using assms(1) by (auto simp: node_inv_def n1_def EVICT_AFTER_def)
  have d2: "note_dead t2 peer n1 = Some n2"
    using note_dead_counts [OF i1] assms(2) by (simp add: n1_def n2_def bt_get_or_def EVICT_AFTER_def)
  have i2: "node_inv ver n2" using i1 by (auto simp: node_inv_def n2_def EVICT_AFTER_def)
  have "bt_get_or 0 (failures n2) ?i + 1 = EVICT_AFTER" "?i \<notin> set (seeds n2)"
    using assms(2) by (simp_all add: n1_def n2_def bt_get_or_def EVICT_AFTER_def)
  with note_dead_evicts [OF i2 _ _ assms(4)] obtain n' where "note_dead t3 peer n2 = Some n'" "node_inv ver n'"
    "\<not> rt_contains ?i (dn_table n')" "bt_get (tombstones n') ?i = Some (t3 + TOMBSTONE_TTL_MS)" by blast
  then show ?thesis using d1 d2 tombstone_not_learned by (simp add: Option.bind_def) blast
qed

text \<open>Serving keeps the node sound: whatever messages arrive, in whatever order, the routing table
  and the record store keep their invariants, and what is answered to a value query are validly signed
  records of the key asked for and at most \<open>K\<close> contacts.\<close>

theorem serving_sound:
  assumes "node_inv ver n"
  shows "node_inv ver (fold (\<lambda>(now, msg) n. snd (handle ver parse sh now msg n)) msgs n)
    \<and> (\<exists>rs ws. fst (handle ver parse sh t (FindValue from key) n) = Value rs ws \<and> length ws \<le> K
        \<and> (\<forall>r \<in> set rs. sr_verify ver r \<and> sr_key r = key))"
proof
  show "node_inv ver (fold (\<lambda>(now, msg) n. snd (handle ver parse sh now msg n)) msgs n)"
    using assms by (induction msgs arbitrary: n) (auto simp: handle_inv)
  let ?n = "learn_from parse t from n"
  have inv: "rm_inv ver (rs_inner (dn_store ?n))"
    using assms by (auto simp: learn_from_def node_inv_def learn_frame split: option.split)
  have "length (closest_local key ?n) \<le> K" by (simp add: closest_local_def rt_closest_def)
  then show "\<exists>rs ws. fst (handle ver parse sh t (FindValue from key) n) = Value rs ws \<and> length ws \<le> K
      \<and> (\<forall>r \<in> set rs. sr_verify ver r \<and> sr_key r = key)"
    using rs_get_ok [OF inv] by (simp add: Let_def)
qed

section \<open>Witnesses\<close>

definition wit_node :: "unit dht_node" where
  "wit_node = dn_new \<lparr>c_id = 0, c_addr = ()\<rparr> 1000"

definition no_net :: "unit network" where
  "no_net c msg = None"

lemma wit_node_inv: "node_inv any_ver wit_node"
  by (simp add: wit_node_def dn_new_def node_inv_def rt_inv_new rt_new_def [of 0] rs_new_def rm_inv_def)
    (simp add: rt_inv_new rt_new_def [symmetric])

lemma clock_ok_0: "clock_ok 5"
  by (simp add: clock_ok_def TOMBSTONE_TTL_MS_def)

theorem lookup_converges_witness:
  "\<exists>sl n'. lookup no_net (\<lambda>_. None) (\<lambda>_. []) (\<lambda>_. 5) 7 wit_node = Some (sl, n') \<and> length sl \<le> K"
  using lookup_converges [of any_ver wit_node "\<lambda>_. 5" no_net "\<lambda>_. None" "\<lambda>_. []" 7] wit_node_inv clock_ok_0 by blast

theorem get_finds_latest_witness:
  "\<exists>rs n'. dn_get no_net any_ver (\<lambda>_. None) (\<lambda>_. []) 5 (\<lambda>_. 5) 7 wit_node = Some (rs, n') \<and> (\<forall>r \<in> set rs. sr_key r = 7)"
  using get_finds_latest [of any_ver wit_node "\<lambda>_. 5" no_net "\<lambda>_. None" "\<lambda>_. []" 7 5] wit_node_inv clock_ok_0 by blast

theorem evicted_stays_out_witness:
  "\<exists>n'. Option.bind (note_dead 5 \<lparr>c_id = 1, c_addr = ()\<rparr> wit_node)
      (\<lambda>n. Option.bind (note_dead 5 \<lparr>c_id = 1, c_addr = ()\<rparr> n) (note_dead 5 \<lparr>c_id = 1, c_addr = ()\<rparr>)) = Some n'
    \<and> \<not> rt_contains 1 (dn_table n')"
  using evicted_stays_out [of any_ver wit_node "\<lparr>c_id = 1, c_addr = ()\<rparr>" 5 5 5] wit_node_inv clock_ok_0
  by (auto simp: wit_node_def dn_new_def)

theorem serving_sound_witness:
  "\<exists>rs ws. fst (handle any_ver (\<lambda>_. None) (\<lambda>_. []) 5 (FindValue \<lparr>w_id = 1, w_addr = []\<rparr> 7) wit_node) = Value rs ws \<and> length ws \<le> K"
  using serving_sound [of any_ver wit_node "\<lambda>_. None" "\<lambda>_. []" "[]" 5 "\<lparr>w_id = 1, w_addr = []\<rparr>" 7] wit_node_inv by blast

end
