(* ===== verification/HLC.thy ===== *)
theory HLC
  imports Zeph_Prelude
begin

text \<open>
  The hybrid logical clock, \<open>src/crates/core/src/hlc.rs\<close>. The state is the atomic \<open>last\<close>; the
  compare-exchange loops make every call one atomic step on it, and the wall-clock reading is an
  argument. Overflow of the additions panics and is \<open>None\<close>; the shift that packs milliseconds drops
  their upper bits, as in the code.
\<close>

unbundle bit_operations_syntax

section \<open>Timestamps and the clock\<close>

definition MAX_SKEW_MS :: u64 where "MAX_SKEW_MS = 500"

definition from_parts :: "u64 \<Rightarrow> u16 \<Rightarrow> u64" where
  "from_parts millis logical = push_bit 16 (millis AND 0xFFFFFFFFFFFF) OR ucast logical"

definition ts_millis :: "u64 \<Rightarrow> u64" where
  "ts_millis t = drop_bit 16 t"

definition ts_logical :: "u64 \<Rightarrow> u16" where
  "ts_logical t = ucast (t AND 0xFFFF)"

record clock_merge =
  mg_now :: u64
  skew_ms :: u64
  clamped :: bool

text \<open>Both operations return the result and the new \<open>last\<close>.\<close>

definition clock_now :: "u64 \<Rightarrow> u64 \<Rightarrow> (u64 \<times> u64) option" where
  "clock_now wall lst = map_option (\<lambda>n. let candidate = max (push_bit 16 wall) n in (candidate, candidate)) (checked_add lst 1)"

definition abs_diff :: "u64 \<Rightarrow> u64 \<Rightarrow> u64" where
  "abs_diff a b = (if a < b then b - a else a - b)"

definition clock_merge_with :: "u64 \<Rightarrow> u64 \<Rightarrow> u64 \<Rightarrow> (clock_merge \<times> u64) option" where
  "clock_merge_with wall remote lst = (case checked_add wall MAX_SKEW_MS of None \<Rightarrow> None | Some bound \<Rightarrow>
     let skew = abs_diff (ts_millis remote) wall; cl = ts_millis remote > bound;
         effective = (if cl then from_parts bound 0 else remote) in
     case checked_add lst 1 of None \<Rightarrow> None | Some l \<Rightarrow>
     case checked_add effective 1 of None \<Rightarrow> None | Some e \<Rightarrow>
       let candidate = max (max (push_bit 16 wall) l) e in
       Some (\<lparr>mg_now = candidate, skew_ms = skew, clamped = cl\<rparr>, candidate))"

section \<open>Lemmas\<close>

lemma from_parts_millis: "unat m < 2 ^ 48 \<Longrightarrow> ts_millis (from_parts m l) = m"
proof -
  assume "unat m < 2 ^ 48"
  then have "take_bit 48 m = m" by (simp add: word_unat_eq_iff unsigned_take_bit_eq take_bit_nat_eq_self)
  then have hi: "bit m n \<Longrightarrow> n < 48" for n by (metis bit_take_bit_iff)
  have mask: "(0xFFFFFFFFFFFF :: u64) = mask 48" by (simp add: mask_eq_exp_minus_1)
  show ?thesis
    unfolding from_parts_def ts_millis_def mask
    by (rule bit_word_eqI) (auto simp: bit_simps dest: hi bit_imp_le_length)
qed

lemma from_parts_logical: "ts_logical (from_parts m l) = l"
proof -
  have mask: "(0xFFFF :: u64) = mask 16" by (simp add: mask_eq_exp_minus_1)
  show ?thesis
    unfolding from_parts_def ts_logical_def mask by (rule bit_word_eqI) (auto simp: bit_simps)
qed

lemma ts_parts: "from_parts (ts_millis t) (ts_logical t) = t"
proof -
  have mask: "(0xFFFF :: u64) = mask 16" "(0xFFFFFFFFFFFF :: u64) = mask 48" by (simp_all add: mask_eq_exp_minus_1)
  show ?thesis
    unfolding from_parts_def ts_logical_def ts_millis_def mask
    by (rule bit_word_eqI) (auto simp: bit_simps not_less le_add_diff_inverse2)
qed

section \<open>Runs\<close>

datatype clock_event = Now u64 | Merge u64 u64

fun clock_step :: "clock_event \<Rightarrow> u64 \<Rightarrow> (u64 \<times> u64) option" where
  "clock_step (Now wall) lst = clock_now wall lst"
| "clock_step (Merge wall remote) lst = map_option (\<lambda>(m, l). (mg_now m, l)) (clock_merge_with wall remote lst)"

fun clock_run :: "clock_event list \<Rightarrow> u64 \<Rightarrow> (u64 list \<times> u64) option" where
  "clock_run [] lst = Some ([], lst)"
| "clock_run (e # es) lst = (case clock_step e lst of None \<Rightarrow> None | Some (t, l) \<Rightarrow>
     (case clock_run es l of None \<Rightarrow> None | Some (ts, l') \<Rightarrow> Some (t # ts, l')))"

fun event_wall :: "clock_event \<Rightarrow> u64" where
  "event_wall (Now wall) = wall"
| "event_wall (Merge wall remote) = wall"

text \<open>A receive event moves the clock past the sender's timestamp, unless that is more than the tolerated skew ahead.\<close>

fun past_sender :: "clock_event \<Rightarrow> u64 \<Rightarrow> bool" where
  "past_sender (Now wall) t = True"
| "past_sender (Merge wall remote) t = (unat (ts_millis remote) \<le> unat wall + 500 \<longrightarrow> remote < t)"

lemma unat_max: "unat (max a b) = max (unat a) (unat b)" for a b :: u64
  by (simp add: max_def word_le_nat_alt)

lemma unat_shift: "unat w < 2 ^ 48 \<Longrightarrow> unat (push_bit 16 w :: u64) = unat w * 65536"
  by (simp add: push_bit_eq_mult unat_word_ariths)

lemma unat_from_parts: "unat m < 2 ^ 48 \<Longrightarrow> unat (from_parts m 0) = unat m * 65536"
proof -
  assume m: "unat m < 2 ^ 48"
  then have "take_bit 48 m = m" by (simp add: word_unat_eq_iff unsigned_take_bit_eq take_bit_nat_eq_self)
  moreover have mask: "(0xFFFFFFFFFFFF :: u64) = mask 48" by (simp add: mask_eq_exp_minus_1)
  ultimately have "m AND 0xFFFFFFFFFFFF = m" unfolding mask take_bit_eq_mask [symmetric] by blast
  then show ?thesis using m by (simp add: from_parts_def unat_shift)
qed

lemma ts_millis_bound: "unat t < (unat (ts_millis t) + 1) * 65536"
proof -
  have "unat (ts_millis t) = unat t div 65536" by (simp add: ts_millis_def drop_bit_eq_div unat_div)
  then show ?thesis using div_mult_mod_eq [of "unat t" 65536] by (metis add.commute dividend_less_div_times mult.commute mult_Suc_right plus_1_eq_Suc zero_less_numeral)
qed

lemma clock_now_step:
  assumes "unat wall < 2 ^ 46" "unat lst < 2 ^ 63"
  shows "\<exists>t. clock_now wall lst = Some (t, t) \<and> unat t = max (unat wall * 65536) (unat lst + 1)"
proof -
  have "checked_add lst 1 = Some (lst + 1)" "unat (lst + 1) = unat lst + 1"
    using assms(2) by (simp_all add: checked_add_def unat_word_ariths)
  moreover have "unat (push_bit 16 wall) = unat wall * 65536" using assms(1) by (intro unat_shift) simp
  ultimately show ?thesis by (simp add: clock_now_def Let_def unat_max)
qed

text \<open>What a merge moves past: the remote timestamp, or the bound when the remote is too far ahead.\<close>

definition effective_remote :: "u64 \<Rightarrow> u64 \<Rightarrow> u64" where
  "effective_remote wall remote = (if ts_millis remote > wall + MAX_SKEW_MS then from_parts (wall + MAX_SKEW_MS) 0 else remote)"

lemma effective_bound:
  assumes "unat wall < 2 ^ 46"
  shows "unat (effective_remote wall remote) < (unat wall + 501) * 65536"
proof -
  have w: "unat (wall + MAX_SKEW_MS) = unat wall + 500" using assms by (simp add: MAX_SKEW_MS_def unat_word_ariths)
  show ?thesis
  proof (cases "ts_millis remote > wall + MAX_SKEW_MS")
    case True
    have "unat (from_parts (wall + MAX_SKEW_MS) 0) = (unat wall + 500) * 65536"
      using assms w unat_from_parts [of "wall + MAX_SKEW_MS"] by simp
    then show ?thesis using True by (simp add: effective_remote_def)
  next
    case False
    then have "unat (ts_millis remote) \<le> unat wall + 500" using w by (simp add: not_less word_le_nat_alt)
    then have "(unat (ts_millis remote) + 1) * 65536 \<le> (unat wall + 501) * 65536" by simp
    then show ?thesis using ts_millis_bound [of remote] False by (simp add: effective_remote_def)
  qed
qed

lemma clock_merge_step:
  assumes "unat wall < 2 ^ 46" "unat lst < 2 ^ 63"
  shows "\<exists>m t. clock_merge_with wall remote lst = Some (m, t) \<and> mg_now m = t
    \<and> unat t = max (max (unat wall * 65536) (unat lst + 1)) (unat (effective_remote wall remote) + 1)
    \<and> clamped m = (unat (ts_millis remote) > unat wall + 500)"
proof -
  have w: "checked_add wall MAX_SKEW_MS = Some (wall + MAX_SKEW_MS)" "unat (wall + MAX_SKEW_MS) = unat wall + 500"
    using assms(1) by (simp_all add: checked_add_def MAX_SKEW_MS_def unat_word_ariths)
  have l: "checked_add lst 1 = Some (lst + 1)" "unat (lst + 1) = unat lst + 1"
    using assms(2) by (simp_all add: checked_add_def unat_word_ariths)
  have "unat (effective_remote wall remote) < 2 ^ 63"
    using effective_bound [OF assms(1), of remote] assms(1) by simp
  then have e: "checked_add (effective_remote wall remote) 1 = Some (effective_remote wall remote + 1)"
    "unat (effective_remote wall remote + 1) = unat (effective_remote wall remote) + 1"
    by (simp_all add: checked_add_def unat_word_ariths)
  have s: "unat (push_bit 16 wall) = unat wall * 65536" using assms(1) by (intro unat_shift) simp
  let ?c = "max (max (push_bit 16 wall) (lst + 1)) (effective_remote wall remote + 1)"
  have "clock_merge_with wall remote lst = Some (\<lparr>mg_now = ?c, skew_ms = abs_diff (ts_millis remote) wall,
      clamped = (ts_millis remote > wall + MAX_SKEW_MS)\<rparr>, ?c)"
    using e(1) unfolding clock_merge_with_def w(1) l(1) Let_def effective_remote_def by (simp only: option.case)
  then show ?thesis using w(2) l(2) e(2) s by (simp add: unat_max word_less_nat_alt)
qed

section \<open>Properties\<close>

text \<open>Packing and unpacking a timestamp are inverse, for milliseconds of at most 48 bits.\<close>

theorem timestamp_roundtrip:
  "from_parts (ts_millis t) (ts_logical t) = t
   \<and> (unat m < 2 ^ 48 \<longrightarrow> ts_millis (from_parts m l) = m \<and> ts_logical (from_parts m l) = l)"
  using ts_parts from_parts_millis from_parts_logical by blast

text \<open>What one event does, from any earlier value of the clock.\<close>

lemma clock_step_facts:
  assumes "unat (event_wall e) < 2 ^ 46" "unat lst < 2 ^ 63"
  shows "\<exists>t. clock_step e lst = Some (t, t) \<and> lst < t \<and> unat (event_wall e) * 65536 \<le> unat t
    \<and> unat t \<le> max (unat lst) ((unat (event_wall e) + 501) * 65536) + 1 \<and> past_sender e t"
proof (cases e)
  case (Now wall)
  then have "unat wall < 2 ^ 46" using assms(1) by simp
  then obtain t where "clock_now wall lst = Some (t, t)" "unat t = max (unat wall * 65536) (unat lst + 1)"
    using clock_now_step assms(2) by blast
  then show ?thesis using Now by (auto simp: word_less_nat_alt max_def)
next
  case (Merge wall remote)
  then have w: "unat wall < 2 ^ 46" using assms(1) by simp
  obtain m t where t: "clock_merge_with wall remote lst = Some (m, t)" "mg_now m = t"
    "unat t = max (max (unat wall * 65536) (unat lst + 1)) (unat (effective_remote wall remote) + 1)"
    using clock_merge_step [OF w assms(2)] by blast
  have "unat (effective_remote wall remote) + 1 \<le> (unat wall + 501) * 65536" using effective_bound [OF w, of remote] by simp
  then have "unat t \<le> max (unat lst) ((unat wall + 501) * 65536) + 1" unfolding t(3) by (simp add: max_def)
  moreover have "unat (wall + MAX_SKEW_MS) = unat wall + 500" using w by (simp add: MAX_SKEW_MS_def unat_word_ariths)
  then have "effective_remote wall remote = remote" if "unat (ts_millis remote) \<le> unat wall + 500"
    using that by (simp add: effective_remote_def word_less_nat_alt)
  then have "past_sender e t" using t(3) by (simp add: Merge word_less_nat_alt max_def)
  moreover have "lst < t" "unat wall * 65536 \<le> unat t" using t(3) by (simp_all add: word_less_nat_alt)
  ultimately show ?thesis using t Merge by auto
qed

lemma lead_step: "x \<le> max t b + Suc i \<Longrightarrow> t \<le> max l a + 1 \<Longrightarrow> b \<le> c \<Longrightarrow> a \<le> c \<Longrightarrow> x \<le> max l c + Suc (Suc i)" for x :: nat
  by (simp add: max_def split: if_splits)

lemma clock_run_facts:
  assumes "\<forall>e \<in> set es. unat (event_wall e) < 2 ^ 46" "max (unat lst) ((2 ^ 46 + 501) * 65536) + length es < 2 ^ 63"
  shows "\<exists>ts l. clock_run es lst = Some (ts, l) \<and> length ts = length es \<and> sorted_wrt (<) (lst # ts)
    \<and> (\<forall>i < length es. unat (event_wall (es ! i)) * 65536 \<le> unat (ts ! i) \<and> past_sender (es ! i) (ts ! i)
        \<and> unat (ts ! i) \<le> max (unat lst) ((Max (unat ` event_wall ` set (take (Suc i) es)) + 501) * 65536) + Suc i)"
  using assms
proof (induction es arbitrary: lst)
  case (Cons e es)
  have w: "unat (event_wall e) < 2 ^ 46" and l: "unat lst < 2 ^ 63" using Cons.prems by simp_all
  let ?B = "\<lambda>es i. Max (unat ` event_wall ` set (take (Suc i) es))"
  from clock_step_facts [OF w l] obtain t where t: "clock_step e lst = Some (t, t)" "lst < t" "unat (event_wall e) * 65536 \<le> unat t"
    "unat t \<le> max (unat lst) ((unat (event_wall e) + 501) * 65536) + 1" "past_sender e t" by blast
  obtain ts l' where ts: "clock_run es t = Some (ts, l')" "length ts = length es" "sorted_wrt (<) (t # ts)"
    "\<And>i. i < length es \<Longrightarrow> unat (event_wall (es ! i)) * 65536 \<le> unat (ts ! i) \<and> past_sender (es ! i) (ts ! i)
        \<and> unat (ts ! i) \<le> max (unat t) ((?B es i + 501) * 65536) + Suc i"
  proof -
    have "max (unat t) ((2 ^ 46 + 501) * 65536) \<le> max (unat lst) ((2 ^ 46 + 501) * 65536) + 1" using t(4) w by (simp add: max_def split: if_splits)
    then have "max (unat t) ((2 ^ 46 + 501) * 65536) + length es < 2 ^ 63" using Cons.prems(2) unfolding length_Cons by linarith
    with Cons.IH [of t] Cons.prems(1) that show thesis by auto
  qed
  have rest: "unat (ts ! i) \<le> max (unat lst) ((?B (e # es) (Suc i) + 501) * 65536) + Suc (Suc i)" if i: "i < length es" for i
  proof -
    have "es \<noteq> []" using i by auto
    then have "?B (e # es) (Suc i) = max (unat (event_wall e)) (?B es i)" by (simp add: Max_insert)
    then have "?B es i \<le> ?B (e # es) (Suc i)" "unat (event_wall e) \<le> ?B (e # es) (Suc i)" by simp_all
    then have "(?B es i + 501) * 65536 \<le> (?B (e # es) (Suc i) + 501) * 65536" "(unat (event_wall e) + 501) * 65536 \<le> (?B (e # es) (Suc i) + 501) * 65536" by simp_all
    then show ?thesis using lead_step [OF _ t(4)] ts(4) [OF i] by blast
  qed
  have "sorted_wrt (<) (lst # t # ts)" using t(2) ts(3) by auto
  moreover have "unat (event_wall ((e # es) ! i)) * 65536 \<le> unat ((t # ts) ! i) \<and> past_sender ((e # es) ! i) ((t # ts) ! i)
      \<and> unat ((t # ts) ! i) \<le> max (unat lst) ((?B (e # es) i + 501) * 65536) + Suc i" if "i < length (e # es)" for i
    using that t(3-5) ts(4) rest by (cases i) auto
  ultimately show ?case using t(1) ts(1,2) by auto
qed simp

text \<open>(C38) The clock is strictly monotonic and cannot be dragged into the future. Over any sequence of local and receive events, whatever
  timestamps the peers send, with wall-clock readings below 2^46 ms and short of overflow: the timestamps returned increase strictly;
  each is at least its wall-clock reading; each is past the sender's unless the sender is more than the tolerated skew ahead; and none is
  ahead of the greatest wall-clock reading up to its event (or of the value the clock started from) by more than the skew of 500 ms, one
  millisecond and one tick per event. While the wall clock does not step back, the greatest reading is the current one.\<close>

theorem clock_monotone_bounded:
  assumes "\<forall>e \<in> set es. unat (event_wall e) < 2 ^ 46" "unat lst < 2 ^ 62" "length es < 2 ^ 61"
  shows "\<exists>ts l. clock_run es lst = Some (ts, l) \<and> length ts = length es \<and> sorted_wrt (<) (lst # ts)
    \<and> (\<forall>i < length es. unat (event_wall (es ! i)) * 65536 \<le> unat (ts ! i) \<and> past_sender (es ! i) (ts ! i)
        \<and> unat (ts ! i) \<le> max (unat lst) ((Max (unat ` event_wall ` set (take (Suc i) es)) + 501) * 65536) + Suc i)"
  using clock_run_facts [OF assms(1), of lst] assms(2,3) by (simp add: max_def)

text \<open>A receive event moves the clock past the sender, unless the sender is more than the tolerated
  skew ahead of the wall clock, and that is reported.\<close>

theorem merge_happens_after:
  assumes "unat wall < 2 ^ 46" "unat lst < 2 ^ 63"
  shows "\<exists>m t. clock_merge_with wall remote lst = Some (m, t) \<and> mg_now m = t \<and> lst < t
    \<and> (if unat (ts_millis remote) > unat wall + 500 then clamped m else \<not> clamped m \<and> remote < t)"
proof -
  obtain m t where m: "clock_merge_with wall remote lst = Some (m, t)" "mg_now m = t"
    "unat t = max (max (unat wall * 65536) (unat lst + 1)) (unat (effective_remote wall remote) + 1)"
    "clamped m = (unat (ts_millis remote) > unat wall + 500)"
    using clock_merge_step [OF assms] by blast
  have "unat (wall + MAX_SKEW_MS) = unat wall + 500" using assms(1) by (simp add: MAX_SKEW_MS_def unat_word_ariths)
  then have "effective_remote wall remote = remote" if "\<not> clamped m"
    using that m(4) by (simp add: effective_remote_def word_less_nat_alt)
  then show ?thesis using m by (auto simp: word_less_nat_alt)
qed

section \<open>Witnesses\<close>

theorem timestamp_roundtrip_witness: "ts_millis (from_parts 5 7) = 5 \<and> ts_logical (from_parts 5 7) = 7"
  using timestamp_roundtrip [of 0 5 7] by simp

theorem clock_monotone_bounded_witness:
  "\<exists>ts l. clock_run [Now 7, Merge 8 (- 1), Now 3] 0 = Some (ts, l) \<and> sorted_wrt (<) (0 # ts)"
  using clock_monotone_bounded [of "[Now 7, Merge 8 (- 1), Now 3]" 0] by fastforce

theorem merge_happens_after_witness: "\<exists>m t. clock_merge_with 7 9 3 = Some (m, t) \<and> 3 < t"
  using merge_happens_after [of 7 3 9] by auto

end
