(* ===== verification/Verify_Board.thy ===== *)
theory Verify_Board
  imports Quorum
begin

text \<open>
  Verification by re-execution, \<open>src/crates/com/src/verification.rs\<close>: the request and its hash, the
  signed verdict, the board that collects both, its gossip as snapshots, and the cooldown scheduler of a
  verifier. The run of a program under the verifier grant is the parameter \<open>run\<close> (program bytes, function,
  previous state, request, consensus time, fuel; \<open>None\<close> is a trap), BLAKE3 is \<open>hash\<close> and ed25519 are
  \<open>ver\<close> and \<open>sg\<close>. Hash maps are sorted lists.
\<close>

section \<open>Requests and verdicts\<close>

type_synonym runner = "bytes \<Rightarrow> bytes \<Rightarrow> bytes \<Rightarrow> bytes \<Rightarrow> u64 \<Rightarrow> u64 \<Rightarrow> bytes option"
type_synonym hasher = "bytes \<Rightarrow> bytes32"

definition VERDICT_DOMAIN :: bytes where "VERDICT_DOMAIN = ascii ''craftec/verify/verdict/1''"

record verify_request =
  program_cid :: bytes32
  func :: bytes
  prev_state :: bytes
  vr_request :: bytes
  vr_now :: u64
  claimed_output :: bytes

definition request_bytes :: "verify_request \<Rightarrow> bytes" where
  "request_bytes r = be_bytes 32 (program_cid r) @ be_bytes 4 (of_nat (length (func r)) :: u32) @ func r
     @ be_bytes 4 (of_nat (length (prev_state r)) :: u32) @ prev_state r
     @ be_bytes 4 (of_nat (length (vr_request r)) :: u32) @ vr_request r @ be_bytes 8 (vr_now r)"

definition request_hash :: "hasher \<Rightarrow> verify_request \<Rightarrow> bytes32" where
  "request_hash hash r = hash (request_bytes r)"

definition output_hash :: "hasher \<Rightarrow> verify_request \<Rightarrow> bytes32" where
  "output_hash hash r = hash (claimed_output r)"

record verdict =
  vd_verifier :: bytes32
  vd_request_hash :: bytes32
  vd_output_hash :: bytes32
  agree :: bool
  vd_signature :: bytes

definition verdict_signing_bytes :: "bytes32 \<Rightarrow> bytes32 \<Rightarrow> bytes32 \<Rightarrow> bool \<Rightarrow> bytes" where
  "verdict_signing_bytes v rh oh a = VERDICT_DOMAIN @ be_bytes 32 v @ be_bytes 32 rh @ be_bytes 32 oh @ [of_bool a]"

definition verdict_sign :: "(bytes32 \<Rightarrow> bytes \<Rightarrow> bytes) \<Rightarrow> bytes32 \<Rightarrow> bytes32 \<Rightarrow> bytes32 \<Rightarrow> bool \<Rightarrow> verdict" where
  "verdict_sign sg v rh oh a = \<lparr>vd_verifier = v, vd_request_hash = rh, vd_output_hash = oh, agree = a,
     vd_signature = sg v (verdict_signing_bytes v rh oh a)\<rparr>"

definition verify_sig :: "verifier \<Rightarrow> verdict \<Rightarrow> bool" where
  "verify_sig ver v = valid_sig ver (vd_verifier v)
     (verdict_signing_bytes (vd_verifier v) (vd_request_hash v) (vd_output_hash v) (agree v)) (vd_signature v)"

definition reproduces :: "runner \<Rightarrow> hasher \<Rightarrow> verify_request \<Rightarrow> bytes \<Rightarrow> u64 \<Rightarrow> bool" where
  "reproduces run hash r wasm fuel = (if hash wasm \<noteq> program_cid r then False
     else run wasm (func r) (prev_state r) (vr_request r) (vr_now r) fuel = Some (claimed_output r))"

definition verify_locally :: "runner \<Rightarrow> hasher \<Rightarrow> (bytes32 \<Rightarrow> bytes \<Rightarrow> bytes) \<Rightarrow> bytes32 \<Rightarrow> verify_request \<Rightarrow> bytes \<Rightarrow> u64 \<Rightarrow> verdict" where
  "verify_locally run hash sg node r wasm fuel =
     verdict_sign sg node (request_hash hash r) (output_hash hash r) (reproduces run hash r wasm fuel)"

definition produce :: "runner \<Rightarrow> hasher \<Rightarrow> bytes \<Rightarrow> bytes \<Rightarrow> bytes \<Rightarrow> bytes \<Rightarrow> u64 \<Rightarrow> u64 \<Rightarrow> verify_request option" where
  "produce run hash wasm f prev req now fuel = map_option
     (\<lambda>out. \<lparr>program_cid = hash wasm, func = f, prev_state = prev, vr_request = req, vr_now = now, claimed_output = out\<rparr>)
     (run wasm f prev req now fuel)"

section \<open>The board\<close>

datatype verifier_set = Open | Whitelist "bytes32 list"

fun allows :: "verifier_set \<Rightarrow> bytes32 \<Rightarrow> bool" where
  "allows Open node = True"
| "allows (Whitelist s) node = (node \<in> set s)"

record verify_policy =
  vp_k :: u32
  vp_set :: verifier_set

record posted_request =
  producer :: bytes32
  req :: verify_request
  policy :: verify_policy

record board_snapshot =
  bs_requests :: "posted_request list"
  bs_verdicts :: "verdict list"

type_synonym verdict_map = "(bytes32, (bytes32, verdict) btree) btree"

record board =
  requests :: "(bytes32, posted_request) btree"
  verdicts :: verdict_map

definition board_new :: board where
  "board_new = \<lparr>requests = [], verdicts = []\<rparr>"

definition post_request :: "hasher \<Rightarrow> posted_request \<Rightarrow> board \<Rightarrow> board" where
  "post_request hash p b = (case bt_get (requests b) (request_hash hash (req p)) of
       Some _ \<Rightarrow> b
     | None \<Rightarrow> b\<lparr>requests := bt_insert (request_hash hash (req p)) p (requests b)\<rparr>)"

definition post_verdict :: "verdict \<Rightarrow> board \<Rightarrow> board" where
  "post_verdict v b = b\<lparr>verdicts := bt_insert (vd_request_hash v)
     (bt_insert (vd_verifier v) v (bt_get_or [] (verdicts b) (vd_request_hash v))) (verdicts b)\<rparr>"

definition counts_for :: "hasher \<Rightarrow> verifier \<Rightarrow> posted_request \<Rightarrow> verdict \<Rightarrow> bool" where
  "counts_for hash ver p v \<longleftrightarrow> agree v \<and> vd_request_hash v = request_hash hash (req p) \<and> vd_output_hash v = output_hash hash (req p)
     \<and> vd_verifier v \<noteq> producer p \<and> allows (vp_set (policy p)) (vd_verifier v) \<and> verify_sig ver v"

definition valid_verdicts :: "hasher \<Rightarrow> verifier \<Rightarrow> board \<Rightarrow> posted_request \<Rightarrow> verdict list" where
  "valid_verdicts hash ver b p = (case bt_get (verdicts b) (request_hash hash (req p)) of
       None \<Rightarrow> []
     | Some vs \<Rightarrow> filter (counts_for hash ver p) (map snd vs))"

definition valid_agreements :: "hasher \<Rightarrow> verifier \<Rightarrow> board \<Rightarrow> posted_request \<Rightarrow> nat" where
  "valid_agreements hash ver b p = length (valid_verdicts hash ver b p)"

definition satisfied :: "hasher \<Rightarrow> verifier \<Rightarrow> board \<Rightarrow> posted_request \<Rightarrow> bool" where
  "satisfied hash ver b p \<longleftrightarrow> valid_agreements hash ver b p \<ge> unat (vp_k (policy p))"

definition collected :: "hasher \<Rightarrow> verifier \<Rightarrow> board \<Rightarrow> posted_request \<Rightarrow> verdict list option" where
  "collected hash ver b p = (let vs = valid_verdicts hash ver b p in
     if length vs \<ge> unat (vp_k (policy p)) then Some vs else None)"

definition grabbable_by :: "hasher \<Rightarrow> verifier \<Rightarrow> board \<Rightarrow> bytes32 \<Rightarrow> posted_request list" where
  "grabbable_by hash ver b node = filter (\<lambda>p. producer p \<noteq> node \<and> allows (vp_set (policy p)) node
     \<and> \<not> (case bt_get (verdicts b) (request_hash hash (req p)) of None \<Rightarrow> False | Some m \<Rightarrow> bt_get m node \<noteq> None)
     \<and> \<not> satisfied hash ver b p) (map snd (requests b))"

definition board_snapshot_of :: "board \<Rightarrow> board_snapshot" where
  "board_snapshot_of b = \<lparr>bs_requests = map snd (requests b), bs_verdicts = concat (map (\<lambda>(rh, m). map snd m) (verdicts b))\<rparr>"

definition board_merge :: "hasher \<Rightarrow> board_snapshot \<Rightarrow> board \<Rightarrow> board" where
  "board_merge hash s b = fold post_verdict (bs_verdicts s) (fold (post_request hash) (bs_requests s) b)"

section \<open>The cooldown scheduler\<close>

definition rendezvous :: "hasher \<Rightarrow> bytes32 \<Rightarrow> bytes32 \<Rightarrow> bytes32" where
  "rendezvous hash node rh = hash (be_bytes 32 node @ be_bytes 32 rh)"

record verifier_node =
  vn_node :: bytes32
  cooldown_ms :: u64
  last_verified_ms :: "u64 option"

definition verifier_new :: "bytes32 \<Rightarrow> u64 \<Rightarrow> verifier_node" where
  "verifier_new node cd = \<lparr>vn_node = node, cooldown_ms = cd, last_verified_ms = None\<rparr>"

definition ready :: "verifier_node \<Rightarrow> u64 \<Rightarrow> bool" where
  "ready v now = (case last_verified_ms v of None \<Rightarrow> True | Some t \<Rightarrow> now \<ge> sat_add t (cooldown_ms v))"

text \<open>\<open>Iterator::min_by_key\<close>: the first element of the least key.\<close>

fun min_by_key :: "('a \<Rightarrow> 'k::linorder) \<Rightarrow> 'a list \<Rightarrow> 'a option" where
  "min_by_key f [] = None"
| "min_by_key f (x # xs) = (case min_by_key f xs of None \<Rightarrow> Some x | Some y \<Rightarrow> Some (if f x \<le> f y then x else y))"

definition select :: "hasher \<Rightarrow> verifier \<Rightarrow> verifier_node \<Rightarrow> board \<Rightarrow> u64 \<Rightarrow> posted_request option" where
  "select hash ver v b now = (if \<not> ready v now then None
     else min_by_key (\<lambda>p. rendezvous hash (vn_node v) (request_hash hash (req p))) (grabbable_by hash ver b (vn_node v)))"

definition mark_verified :: "u64 \<Rightarrow> verifier_node \<Rightarrow> verifier_node" where
  "mark_verified now v = v\<lparr>last_verified_ms := Some now\<rparr>"

section \<open>The board as two sets\<close>

definition request_key :: "hasher \<Rightarrow> posted_request \<Rightarrow> bytes32" where
  "request_key hash p = request_hash hash (req p)"

definition verdict_key :: "verdict \<Rightarrow> bytes32 \<times> bytes32" where
  "verdict_key v = (vd_request_hash v, vd_verifier v)"

definition board_inv :: "hasher \<Rightarrow> board \<Rightarrow> bool" where
  "board_inv hash b \<longleftrightarrow> bt_inv (requests b) \<and> (\<forall>k p. bt_get (requests b) k = Some p \<longrightarrow> request_key hash p = k)
     \<and> bt2_inv (verdicts b) \<and> (\<forall>k v. bt2_get (verdicts b) k = Some v \<longrightarrow> verdict_key v = k)"

definition requests_of :: "board \<Rightarrow> posted_request set" where
  "requests_of b = set (bs_requests (board_snapshot_of b))"

definition verdicts_of :: "board \<Rightarrow> verdict set" where
  "verdicts_of b = set (bs_verdicts (board_snapshot_of b))"

lemma post_verdict_insert: "post_verdict v b = b\<lparr>verdicts := bt2_insert (verdict_key v) v (verdicts b)\<rparr>"
  by (simp add: post_verdict_def bt2_insert_def verdict_key_def)

lemma board_inv_new [simp]: "board_inv hash board_new"
  by (simp add: board_inv_def board_new_def)

lemma board_inv_post: "board_inv hash b \<Longrightarrow> board_inv hash (post_request hash p b)"
  "board_inv hash b \<Longrightarrow> board_inv hash (post_verdict v b)"
  by (auto simp: board_inv_def post_request_def post_verdict_insert request_key_def split: option.split)

lemma board_inv_fold: "board_inv hash b \<Longrightarrow> board_inv hash (fold (post_request hash) ps b)"
  "board_inv hash b \<Longrightarrow> board_inv hash (fold post_verdict vs b)"
  by (induction ps arbitrary: b; simp add: board_inv_post) (induction vs arbitrary: b; simp add: board_inv_post)

lemma requests_get:
  assumes "board_inv hash b"
  shows "bt_get (requests b) k = Some p \<longleftrightarrow> p \<in> requests_of b \<and> request_key hash p = k"
proof -
  have iff: "bt_get (requests b) j = Some p \<longleftrightarrow> (j, p) \<in> set (requests b)" for j
    using assms by (intro bt_get_Some_iff) (simp add: board_inv_def)
  have key: "bt_get (requests b) j = Some p \<Longrightarrow> request_key hash p = j" for j
    using assms by (simp add: board_inv_def)
  have "p \<in> requests_of b \<longleftrightarrow> (\<exists>j. bt_get (requests b) j = Some p)"
    unfolding iff requests_of_def board_snapshot_of_def by force
  then show ?thesis using key by blast
qed

lemma verdicts_get:
  assumes "board_inv hash b"
  shows "bt2_get (verdicts b) k = Some v \<longleftrightarrow> v \<in> verdicts_of b \<and> verdict_key v = k"
proof -
  have iff: "bt2_get (verdicts b) (i, j) = Some v \<longleftrightarrow> (\<exists>n. (i, n) \<in> set (verdicts b) \<and> (j, v) \<in> set n)" for i j
    using assms by (intro bt2_get_Some_iff) (simp add: board_inv_def)
  have key: "bt2_get (verdicts b) k = Some v \<Longrightarrow> verdict_key v = k" for k
    using assms unfolding board_inv_def by blast
  have "v \<in> verdicts_of b \<longleftrightarrow> (\<exists>i j. bt2_get (verdicts b) (i, j) = Some v)"
    unfolding iff verdicts_of_def board_snapshot_of_def by force
  then have "v \<in> verdicts_of b \<longleftrightarrow> (\<exists>k. bt2_get (verdicts b) k = Some v)" by simp
  then show ?thesis using key by blast
qed

text \<open>A board is determined by the entries it holds.\<close>

lemma board_ext:
  assumes "board_inv hash b" "board_inv hash c" "requests_of b = requests_of c" "verdicts_of b = verdicts_of c"
  shows "b = c"
proof -
  have "bt_get (requests b) k = Some p \<longleftrightarrow> bt_get (requests c) k = Some p" for k p
    unfolding requests_get [OF assms(1)] requests_get [OF assms(2)] assms(3) ..
  then have "bt_get (requests b) k = bt_get (requests c) k" for k by (metis option.exhaust)
  then have "requests b = requests c" using assms(1,2) by (intro bt_ext) (simp_all add: board_inv_def)
  moreover have "bt2_get (verdicts b) k = Some v \<longleftrightarrow> bt2_get (verdicts c) k = Some v" for k v
    unfolding verdicts_get [OF assms(1)] verdicts_get [OF assms(2)] assms(4) ..
  then have "bt2_get (verdicts b) k = bt2_get (verdicts c) k" for k by (metis option.exhaust)
  then have "verdicts b = verdicts c" using assms(1,2) by (intro bt2_ext) (simp_all add: board_inv_def)
  ultimately show ?thesis by simp
qed

lemma in_requests_of: "board_inv hash b \<Longrightarrow> p \<in> requests_of b \<longleftrightarrow> bt_get (requests b) (request_key hash p) = Some p"
  by (simp add: requests_get)

lemma in_verdicts_of: "board_inv hash b \<Longrightarrow> v \<in> verdicts_of b \<longleftrightarrow> bt2_get (verdicts b) (verdict_key v) = Some v"
  by (simp add: verdicts_get)

text \<open>Posting entries that contradict none held is union.\<close>

definition conflict_free :: "hasher \<Rightarrow> posted_request set \<Rightarrow> verdict set \<Rightarrow> bool" where
  "conflict_free hash P V \<longleftrightarrow> inj_on (request_key hash) P \<and> inj_on verdict_key V"

lemma requests_of_post:
  assumes "board_inv hash b" "inj_on (request_key hash) (insert p (requests_of b))"
  shows "requests_of (post_request hash p b) = insert p (requests_of b)"
proof (cases "bt_get (requests b) (request_key hash p)")
  case None
  then have "post_request hash p b = b\<lparr>requests := bt_insert (request_key hash p) p (requests b)\<rparr>"
    by (simp add: post_request_def request_key_def)
  then have "q \<in> requests_of (post_request hash p b) \<longleftrightarrow> q \<in> insert p (requests_of b)" for q
    using None in_requests_of [OF board_inv_post(1) [OF assms(1)], of q p] in_requests_of [OF assms(1), of q] by auto
  then show ?thesis by blast
next
  case (Some q)
  then have "q \<in> requests_of b" "request_key hash q = request_key hash p" using requests_get [OF assms(1)] by blast+
  then have "q = p" using inj_onD [OF assms(2), of q p] by simp
  then show ?thesis using Some \<open>q \<in> requests_of b\<close> by (simp add: post_request_def request_key_def insert_absorb)
qed

lemma verdicts_of_post:
  assumes "board_inv hash b" "inj_on verdict_key (insert v (verdicts_of b))"
  shows "verdicts_of (post_verdict v b) = insert v (verdicts_of b)"
proof -
  have "w \<in> verdicts_of (post_verdict v b) \<longleftrightarrow> w \<in> insert v (verdicts_of b)" for w
  proof (cases "verdict_key w = verdict_key v")
    case True
    then have "w \<in> verdicts_of b \<Longrightarrow> w = v" using inj_onD [OF assms(2), of w v] by simp
    then show ?thesis using True in_verdicts_of [OF board_inv_post(2) [OF assms(1)], of w v]
      by (auto simp: post_verdict_insert)
  next
    case False
    then show ?thesis using in_verdicts_of [OF board_inv_post(2) [OF assms(1)], of w v] in_verdicts_of [OF assms(1), of w]
      by (auto simp: post_verdict_insert)
  qed
  then show ?thesis by blast
qed

lemma other_half [simp]: "verdicts_of (post_request hash p b) = verdicts_of b" "requests_of (post_verdict v b) = requests_of b"
  by (simp_all add: verdicts_of_def requests_of_def board_snapshot_of_def post_request_def post_verdict_def split: option.split)

lemma board_merge_union:
  assumes "board_inv hash b" "conflict_free hash (set (bs_requests s) \<union> requests_of b) (set (bs_verdicts s) \<union> verdicts_of b)"
  shows "board_inv hash (board_merge hash s b)"
    "requests_of (board_merge hash s b) = set (bs_requests s) \<union> requests_of b"
    "verdicts_of (board_merge hash s b) = set (bs_verdicts s) \<union> verdicts_of b"
proof -
  have r: "requests_of (fold (post_request hash) ps b) = set ps \<union> requests_of b \<and> verdicts_of (fold (post_request hash) ps b) = verdicts_of b"
    if "inj_on (request_key hash) (set ps \<union> requests_of b)" "board_inv hash b" for ps b
    using that
  proof (induction ps arbitrary: b)
    case (Cons p ps)
    have "inj_on (request_key hash) (insert p (requests_of b))" using Cons.prems(1) by (rule inj_on_subset) auto
    then have "requests_of (post_request hash p b) = insert p (requests_of b)" using Cons.prems(2) by (simp add: requests_of_post)
    then show ?case using Cons.IH [of "post_request hash p b"] Cons.prems by (simp add: board_inv_post)
  qed simp
  have v: "verdicts_of (fold post_verdict vs b) = set vs \<union> verdicts_of b \<and> requests_of (fold post_verdict vs b) = requests_of b"
    if "inj_on verdict_key (set vs \<union> verdicts_of b)" "board_inv hash b" for vs b
    using that
  proof (induction vs arbitrary: b)
    case (Cons x vs)
    have "inj_on verdict_key (insert x (verdicts_of b))" using Cons.prems(1) by (rule inj_on_subset) auto
    then have "verdicts_of (post_verdict x b) = insert x (verdicts_of b)" using Cons.prems(2) by (simp add: verdicts_of_post)
    then show ?case using Cons.IH [of "post_verdict x b"] Cons.prems by (simp add: board_inv_post)
  qed simp
  let ?b = "fold (post_request hash) (bs_requests s) b"
  have b: "board_inv hash ?b" "requests_of ?b = set (bs_requests s) \<union> requests_of b" "verdicts_of ?b = verdicts_of b"
    using r assms board_inv_fold(1) unfolding conflict_free_def by blast+
  with v [of "bs_verdicts s" ?b] assms(2) board_inv_fold(2) [OF b(1)]
  show "board_inv hash (board_merge hash s b)"
    "requests_of (board_merge hash s b) = set (bs_requests s) \<union> requests_of b"
    "verdicts_of (board_merge hash s b) = set (bs_verdicts s) \<union> verdicts_of b"
    unfolding board_merge_def conflict_free_def by auto
qed

section \<open>Counting verdicts\<close>

lemma valid_verdicts_set:
  assumes "board_inv hash b"
  shows "set (valid_verdicts hash ver b p) = {v \<in> verdicts_of b. counts_for hash ver p v}"
    "distinct (map vd_verifier (valid_verdicts hash ver b p))"
proof -
  let ?rh = "request_hash hash (req p)"
  have get: "bt2_get (verdicts b) (?rh, j) = Some v \<longleftrightarrow> v \<in> verdicts_of b \<and> verdict_key v = (?rh, j)" for j v
    by (rule verdicts_get [OF assms])
  have key: "counts_for hash ver p v \<Longrightarrow> verdict_key v = (?rh, vd_verifier v)" for v
    by (simp add: counts_for_def verdict_key_def)
  have *: "set (valid_verdicts hash ver b p) = {v \<in> verdicts_of b. counts_for hash ver p v}
      \<and> distinct (map vd_verifier (valid_verdicts hash ver b p))"
  proof (cases "bt_get (verdicts b) ?rh")
    case None
    then show ?thesis using get key unfolding valid_verdicts_def by (auto simp: bt2_get_def)
  next
    case (Some m)
    have m: "bt_inv m" using assms Some bt2_inv_inner unfolding board_inv_def by blast
    have in_m: "(j, v) \<in> set m \<longleftrightarrow> v \<in> verdicts_of b \<and> verdict_key v = (?rh, j)" for j v
      using get [of j v] Some bt_get_Some_iff [OF m] by (simp add: bt2_get_def)
    have "map vd_verifier (map snd m) = map fst m" using in_m by (auto simp: verdict_key_def)
    then have "distinct (map vd_verifier (map snd m))" using bt_inv_distinct [OF m] by metis
    then have "distinct (map vd_verifier (filter (counts_for hash ver p) (map snd m)))" by (rule distinct_map_filter)
    moreover have "v \<in> snd ` set m \<longleftrightarrow> v \<in> verdicts_of b \<and> fst (verdict_key v) = ?rh" for v
      using in_m by (force simp: verdict_key_def)
    ultimately show ?thesis using Some key by (auto simp: valid_verdicts_def)
  qed
  show "set (valid_verdicts hash ver b p) = {v \<in> verdicts_of b. counts_for hash ver p v}" using * by blast
  show "distinct (map vd_verifier (valid_verdicts hash ver b p))" using * by blast
qed

lemma valid_agreements_card:
  "board_inv hash b \<Longrightarrow> valid_agreements hash ver b p = card (vd_verifier ` {v \<in> verdicts_of b. counts_for hash ver p v})"
  using valid_verdicts_set [of hash b ver p] distinct_card [of "map vd_verifier (valid_verdicts hash ver b p)"]
  by (simp add: valid_agreements_def)

definition fits :: "verify_request \<Rightarrow> bool" where
  "fits r \<longleftrightarrow> length (func r) < 2 ^ 32 \<and> length (prev_state r) < 2 ^ 32 \<and> length (vr_request r) < 2 ^ 32"

lemma len_prefix_inj:
  assumes "be_bytes 4 (of_nat (length x) :: u32) @ x @ y = be_bytes 4 (of_nat (length x') :: u32) @ x' @ y'"
    "length x < 2 ^ 32" "length x' < 2 ^ 32"
  shows "x = x' \<and> y = y'"
proof -
  have "be_bytes 4 (of_nat (length x) :: u32) = be_bytes 4 (of_nat (length x') :: u32)" and xy: "x @ y = x' @ y'"
    using assms(1) by auto
  then have "(of_nat (length x) :: u32) = of_nat (length x')" by (intro be_bytes_inj [of 4]) simp_all
  moreover have "unat (of_nat (length z) :: u32) = length z" if "length z < 2 ^ 32" for z :: bytes
    by (rule unat_of_nat_less) (use that in simp)
  ultimately have "length x = length x'" using assms(2,3) by metis
  then show ?thesis using xy by simp
qed

text \<open>The hashed bytes determine the run.\<close>

lemma request_bytes_inj:
  assumes "request_bytes r = request_bytes s" "fits r" "fits s" "claimed_output r = claimed_output s"
  shows "r = s"
proof -
  have cid: "be_bytes 32 (program_cid r) = be_bytes 32 (program_cid s)"
    and f: "be_bytes 4 (of_nat (length (func r)) :: u32) @ func r @ be_bytes 4 (of_nat (length (prev_state r)) :: u32) @ prev_state r
      @ be_bytes 4 (of_nat (length (vr_request r)) :: u32) @ vr_request r @ be_bytes 8 (vr_now r)
     = be_bytes 4 (of_nat (length (func s)) :: u32) @ func s @ be_bytes 4 (of_nat (length (prev_state s)) :: u32) @ prev_state s
      @ be_bytes 4 (of_nat (length (vr_request s)) :: u32) @ vr_request s @ be_bytes 8 (vr_now s)"
    using assms(1) unfolding request_bytes_def by auto
  have "program_cid r = program_cid s" using cid by (rule be_bytes_inj) simp
  moreover note f' = len_prefix_inj [OF f] and fr = assms(2,3) [unfolded fits_def]
  moreover note g = len_prefix_inj [OF conjunct2 [OF f']]
  moreover note h = len_prefix_inj [OF conjunct2 [OF g]]
  moreover have "be_bytes 8 (vr_now r) = be_bytes 8 (vr_now s)" using h fr by simp
  then have "vr_now r = vr_now s" by (rule be_bytes_inj) simp
  ultimately show ?thesis using assms(4) by (intro verify_request.equality) simp_all
qed

section \<open>What the board promises\<close>

text \<open>
  Honest nodes: a valid signature of such a node under an agreeing verdict exists only for a request of
  \<open>Q\<close> whose claimed output a re-run reproduced, which is all \<open>verify_locally\<close> ever signs.
\<close>

definition honest_agrees :: "runner \<Rightarrow> hasher \<Rightarrow> verifier \<Rightarrow> bytes32 set \<Rightarrow> verify_request set \<Rightarrow> bool" where
  "honest_agrees run hash ver H Q \<longleftrightarrow> (\<forall>n \<in> H. \<forall>rh oh sig. valid_sig ver n (verdict_signing_bytes n rh oh True) sig \<longrightarrow>
     (\<exists>r \<in> Q. rh = request_hash hash r \<and> oh = output_hash hash r \<and> (\<exists>wasm fuel. reproduces run hash r wasm fuel)))"

text \<open>(C12) A certificate means what it claims. The collected verdicts come from at least \<open>k\<close> distinct eligible nodes
  other than the producer. If fewer than \<open>k\<close> of these are outside the honest set \<open>H\<close>, then one of them is an agreeing
  verdict of an honest node with a valid signature over this very request and output, and the program with the
  claimed content id computes the claimed output. The requests in play (\<open>Q\<close>) have parts shorter than 2^32 bytes, and
  BLAKE3 has no collision among their encodings and outputs.\<close>

theorem certificate_sound:
  assumes "board_inv hash b" "collected hash ver b p = Some vs" "card (vd_verifier ` set vs - H) < unat (vp_k (policy p))"
    and "honest_agrees run hash ver H Q" "req p \<in> Q" "\<forall>r \<in> Q. fits r"
    and "inj_on hash (request_bytes ` Q \<union> claimed_output ` Q)"
  shows "unat (vp_k (policy p)) \<le> length vs \<and> distinct (map vd_verifier vs) \<and> producer p \<notin> vd_verifier ` set vs
    \<and> (\<forall>v \<in> set vs. allows (vp_set (policy p)) (vd_verifier v))
    \<and> (\<exists>v \<in> set vs. vd_verifier v \<in> H \<and> agree v \<and> valid_sig ver (vd_verifier v)
         (verdict_signing_bytes (vd_verifier v) (request_hash hash (req p)) (output_hash hash (req p)) True) (vd_signature v))
    \<and> (\<exists>wasm fuel. reproduces run hash (req p) wasm fuel)"
proof -
  have vs: "vs = valid_verdicts hash ver b p" "unat (vp_k (policy p)) \<le> length vs"
    using assms(2) by (simp_all add: collected_def Let_def split: if_splits)
  have d: "distinct (map vd_verifier vs)" and sub: "\<forall>v \<in> set vs. counts_for hash ver p v"
    using valid_verdicts_set [OF assms(1)] by (simp_all add: vs(1))
  have "card (vd_verifier ` set vs) = length vs" using distinct_card [OF d] by simp
  then have "card (vd_verifier ` set vs - H) < card (vd_verifier ` set vs)" using vs(2) assms(3) by linarith
  then have "vd_verifier ` set vs - H \<noteq> vd_verifier ` set vs" by force
  then obtain v where v: "v \<in> set vs" "vd_verifier v \<in> H" by blast
  then have c: "counts_for hash ver p v" using sub by blast
  then have sig: "agree v" "valid_sig ver (vd_verifier v) (verdict_signing_bytes (vd_verifier v) (request_hash hash (req p)) (output_hash hash (req p)) True) (vd_signature v)"
    by (auto simp: counts_for_def verify_sig_def)
  then obtain r where r: "r \<in> Q" "request_hash hash (req p) = request_hash hash r" "output_hash hash (req p) = output_hash hash r"
    "\<exists>wasm fuel. reproduces run hash r wasm fuel"
    using assms(4) v(2) unfolding honest_agrees_def by blast
  have "request_bytes (req p) = request_bytes r"
    using inj_onD [OF assms(7), of "request_bytes (req p)" "request_bytes r"] r(1,2) assms(5) by (simp add: request_hash_def)
  moreover have "claimed_output (req p) = claimed_output r"
    using inj_onD [OF assms(7), of "claimed_output (req p)" "claimed_output r"] r(1,3) assms(5) by (simp add: output_hash_def)
  ultimately have "req p = r" using request_bytes_inj [of "req p" r] assms(5,6) r(1) by simp
  then show ?thesis using r(4) vs(2) d sub v sig by (auto simp: counts_for_def)
qed

text \<open>(C32) Verification completes: once \<open>k\<close> distinct eligible nodes other than the producer have re-run a true claim
  and posted, in any order and whatever else the board holds, the producer collects its certificate.\<close>

theorem verification_completes:
  assumes "board_inv hash b" "distinct ns" "unat (vp_k (policy p)) \<le> length ns" "producer p \<notin> set ns"
    and "\<forall>n \<in> set ns. allows (vp_set (policy p)) n" "reproduces run hash (req p) wasm fuel"
    and "\<forall>n m. valid_sig ver n m (sg n m)"
  shows "collected hash ver (fold (\<lambda>n. post_verdict (verify_locally run hash sg n (req p) wasm fuel)) ns b) p \<noteq> None"
proof -
  define vd where "vd n = verify_locally run hash sg n (req p) wasm fuel" for n
  let ?b = "fold post_verdict (map vd ns) b"
  have vd: "counts_for hash ver p (vd n)" "vd_verifier (vd n) = n" if "n \<in> set ns" for n
    using that assms(4-7) by (auto simp: vd_def verify_locally_def verdict_sign_def counts_for_def verify_sig_def)
  have key: "verdict_key (vd n) = (request_hash hash (req p), n)" for n
    by (simp add: vd_def verify_locally_def verdict_sign_def verdict_key_def)
  have held: "bt2_get (verdicts (fold post_verdict (map vd ns) b)) (verdict_key (vd n)) = Some (vd n)"
    if "n \<in> set ns \<or> bt2_get (verdicts b) (verdict_key (vd n)) = Some (vd n)" for n b ns
    using that by (induction ns arbitrary: b) (auto simp: post_verdict_insert key)
  have inv: "board_inv hash ?b" using assms(1) by (rule board_inv_fold)
  have "vd n \<in> verdicts_of ?b" if "n \<in> set ns" for n using held [of n ns b] that by (simp add: in_verdicts_of [OF inv])
  then have "set ns \<subseteq> vd_verifier ` set (valid_verdicts hash ver ?b p)"
    using vd unfolding valid_verdicts_set(1) [OF inv] by force
  then have "card (set ns) \<le> card (set (map vd_verifier (valid_verdicts hash ver ?b p)))" by (intro card_mono) simp_all
  then have "length ns \<le> length (valid_verdicts hash ver ?b p)"
    using distinct_card [OF assms(2)] distinct_card [OF valid_verdicts_set(2) [OF inv]] by simp
  then show ?thesis using assms(3) by (simp add: collected_def Let_def fold_map comp_def vd_def)
qed

text \<open>Gossip converges where no two entries contradict each other: merging snapshots commutes, merging one
  twice changes nothing, and a fresh board that merges a snapshot is the board it was taken of.\<close>

theorem board_gossip_converges:
  assumes "board_inv hash b"
    and "conflict_free hash (set (bs_requests s) \<union> set (bs_requests t) \<union> requests_of b) (set (bs_verdicts s) \<union> set (bs_verdicts t) \<union> verdicts_of b)"
  shows "board_merge hash s (board_merge hash t b) = board_merge hash t (board_merge hash s b)
    \<and> board_merge hash s (board_merge hash s b) = board_merge hash s b
    \<and> board_merge hash (board_snapshot_of b) board_new = b"
proof -
  have cf: "conflict_free hash P V" if "P \<subseteq> set (bs_requests s) \<union> set (bs_requests t) \<union> requests_of b"
    "V \<subseteq> set (bs_verdicts s) \<union> set (bs_verdicts t) \<union> verdicts_of b" for P V
    using assms(2) that unfolding conflict_free_def by (meson inj_on_subset)
  have one: "conflict_free hash (set (bs_requests x) \<union> requests_of b) (set (bs_verdicts x) \<union> verdicts_of b)" if "x = s \<or> x = t" for x
    using that by (intro cf) auto
  note m1 = board_merge_union [OF assms(1) one]
  have two: "conflict_free hash (set (bs_requests x) \<union> requests_of (board_merge hash y b)) (set (bs_verdicts x) \<union> verdicts_of (board_merge hash y b))"
    if "x = s \<or> x = t" "y = s \<or> y = t" for x y
    using that unfolding m1(2,3) [OF that(2)] by (intro cf) auto
  note m2 = board_merge_union [OF m1(1) two]
  have "board_merge hash s (board_merge hash t b) = board_merge hash t (board_merge hash s b)"
    by (rule board_ext [OF m2(1) m2(1)]) (auto simp: m1 m2)
  moreover have "board_merge hash s (board_merge hash s b) = board_merge hash s b"
    by (rule board_ext [OF m2(1) m1(1)]) (auto simp: m1 m2)
  moreover have "conflict_free hash (requests_of b) (verdicts_of b)" by (rule cf) auto
  then have new: "conflict_free hash (set (bs_requests (board_snapshot_of b)) \<union> requests_of board_new)
      (set (bs_verdicts (board_snapshot_of b)) \<union> verdicts_of board_new)"
    by (simp add: requests_of_def verdicts_of_def board_new_def board_snapshot_of_def)
  have "board_merge hash (board_snapshot_of b) board_new = b"
    by (rule board_ext [OF board_merge_union(1) [OF board_inv_new new] assms(1)])
      (simp_all add: board_merge_union [OF board_inv_new new], simp_all add: requests_of_def verdicts_of_def board_new_def board_snapshot_of_def)
  ultimately show ?thesis by blast
qed

text \<open>(C34) One unsigned entry of a peer revokes a certificate. The board does not check a verdict when it is
  posted, and a later one replaces the verdict its verifier posted, so a snapshot with a copy of a counted
  verdict stripped of its signature takes the request back below its threshold.\<close>

theorem forged_verdict_revokes:
  assumes "board_inv hash b" "collected hash ver b p = Some vs" "length vs = unat (vp_k (policy p))" "v \<in> set vs"
  shows "collected hash ver (board_merge hash \<lparr>bs_requests = [], bs_verdicts = [v\<lparr>vd_signature := []\<rparr>]\<rparr> b) p = None"
proof -
  let ?w = "v\<lparr>vd_signature := []\<rparr>"
  let ?b = "post_verdict ?w b"
  have inv: "board_inv hash ?b" using assms(1) by (rule board_inv_post)
  have v: "vs = valid_verdicts hash ver b p" using assms(2) by (simp add: collected_def Let_def split: if_splits)
  have vs: "set vs = {v \<in> verdicts_of b. counts_for hash ver p v}" unfolding v by (rule valid_verdicts_set [OF assms(1)])
  have len: "length vs = card (vd_verifier ` set vs)"
    unfolding vs valid_agreements_card [OF assms(1), symmetric] by (simp add: v valid_agreements_def)
  have bad: "\<not> counts_for hash ver p ?w" by (simp add: counts_for_def verify_sig_def valid_sig_def)
  have same: "u \<in> verdicts_of b \<and> verdict_key u \<noteq> verdict_key v" if "u \<in> verdicts_of ?b" "u \<noteq> ?w" for u
  proof -
    have "verdict_key ?w = verdict_key v" by (simp add: verdict_key_def)
    then have "(if verdict_key u = verdict_key v then Some ?w else bt2_get (verdicts b) (verdict_key u)) = Some u"
      using in_verdicts_of [OF inv, of u] that(1) by (simp add: post_verdict_insert)
    then show ?thesis using that(2) in_verdicts_of [OF assms(1), of u] by (metis option.inject)
  qed
  have "vd_request_hash v = request_hash hash (req p)" using assms(4) unfolding vs counts_for_def by blast
  then have other: "vd_verifier u \<noteq> vd_verifier v" if "verdict_key u \<noteq> verdict_key v" "counts_for hash ver p u" for u
    using that by (simp add: verdict_key_def counts_for_def)
  have "vd_verifier u \<in> vd_verifier ` set vs - {vd_verifier v}" if "u \<in> verdicts_of ?b" "counts_for hash ver p u" for u
  proof -
    have "u \<noteq> ?w" using that(2) bad by blast
    then have "u \<in> set vs" "vd_verifier u \<noteq> vd_verifier v" using same [OF that(1)] other that(2) by (simp_all add: vs)
    then show ?thesis by simp
  qed
  then have "vd_verifier ` {u \<in> verdicts_of ?b. counts_for hash ver p u} \<subseteq> vd_verifier ` set vs - {vd_verifier v}"
    by (simp add: image_subset_iff)
  then have "valid_agreements hash ver ?b p \<le> card (vd_verifier ` set vs - {vd_verifier v})"
    unfolding valid_agreements_card [OF inv] by (rule card_mono [rotated]) simp
  also have "\<dots> < card (vd_verifier ` set vs)" using assms(4) by (intro card_Diff1_less) simp_all
  finally have "valid_agreements hash ver ?b p < unat (vp_k (policy p))" using len assms(3) by simp
  then show ?thesis by (simp add: collected_def valid_agreements_def board_merge_def Let_def)
qed

text \<open>A request is indexed by the run and not by the claim, and the first post wins: whoever posts a false claim on a
  run first hides the true one from every verifier.\<close>

lemma squatted_request_hidden:
  assumes "board_inv hash b" "q \<in> requests_of b" "request_key hash q = request_key hash p" "p \<noteq> q"
  shows "p \<notin> set (grabbable_by hash ver (post_request hash p b) node)"
proof -
  have "bt_get (requests b) (request_key hash p) = Some q" using assms(1-3) by (simp add: requests_get)
  then have "post_request hash p b = b" by (simp add: post_request_def request_key_def)
  moreover have "p \<notin> requests_of b" using requests_get [OF assms(1)] assms(4) \<open>bt_get (requests b) (request_key hash p) = Some q\<close>
    by (metis option.inject)
  ultimately show ?thesis by (auto simp: grabbable_by_def requests_of_def board_snapshot_of_def)
qed

section \<open>The scheduler\<close>

lemma min_by_key_None: "min_by_key f xs = None \<longleftrightarrow> xs = []"
  by (cases xs) (simp_all split: option.split)

lemma min_by_key_Some: "min_by_key f xs = Some x \<Longrightarrow> x \<in> set xs \<and> (\<forall>y \<in> set xs. f x \<le> f y)"
proof (induction xs arbitrary: x)
  case (Cons a xs)
  show ?case
  proof (cases "min_by_key f xs")
    case None
    then show ?thesis using Cons.prems by (simp add: min_by_key_None)
  next
    case (Some y)
    with Cons.IH [OF Some] Cons.prems show ?thesis by (auto split: if_splits intro: order_trans)
  qed
qed simp

text \<open>The scheduler hands a node, off cooldown, a request it may verify and that still needs verdicts, of the least
  rendezvous score; it hands out none only on cooldown or when there is none. After posting, neither that
  request nor, until the cooldown ends, any other is handed to the node.\<close>

theorem select_spec:
  assumes "board_inv hash b" "ready v now" "later < - 1" "unat later < unat now + unat (cooldown_ms v)"
  shows "(select hash ver v b now = None \<longleftrightarrow> grabbable_by hash ver b (vn_node v) = [])
    \<and> (\<forall>p. select hash ver v b now = Some p \<longrightarrow>
        p \<in> requests_of b \<and> producer p \<noteq> vn_node v \<and> allows (vp_set (policy p)) (vn_node v) \<and> collected hash ver b p = None
        \<and> (\<forall>q \<in> set (grabbable_by hash ver b (vn_node v)).
             rendezvous hash (vn_node v) (request_key hash p) \<le> rendezvous hash (vn_node v) (request_key hash q))
        \<and> (\<forall>x :: verdict. vd_verifier x = vn_node v \<and> vd_request_hash x = request_key hash p \<longrightarrow>
             p \<notin> set (grabbable_by hash ver (post_verdict x b) (vn_node v))))
    \<and> select hash ver (mark_verified now v) c later = None"
proof (intro conjI allI impI)
  show "select hash ver v b now = None \<longleftrightarrow> grabbable_by hash ver b (vn_node v) = []"
    using assms(2) by (simp add: select_def min_by_key_None)
  have later: "unat later < 2 ^ 64 - 1" using assms(3) by (simp add: word_less_nat_alt unat_max_word)
  have "unat (sat_add now (cooldown_ms v)) > unat later" using assms(4) later by (simp add: u_simps)
  then show "select hash ver (mark_verified now v) c later = None"
    by (simp add: select_def ready_def mark_verified_def word_le_nat_alt)
next
  fix p assume "select hash ver v b now = Some p"
  then have m: "min_by_key (\<lambda>p. rendezvous hash (vn_node v) (request_hash hash (req p))) (grabbable_by hash ver b (vn_node v)) = Some p"
    using assms(2) by (simp add: select_def)
  then have p: "p \<in> set (grabbable_by hash ver b (vn_node v))" by (simp add: min_by_key_Some)
  show "\<forall>q \<in> set (grabbable_by hash ver b (vn_node v)).
      rendezvous hash (vn_node v) (request_key hash p) \<le> rendezvous hash (vn_node v) (request_key hash q)"
    using min_by_key_Some [OF m] by (simp add: request_key_def)
  show "p \<in> requests_of b" "producer p \<noteq> vn_node v" "allows (vp_set (policy p)) (vn_node v)" "collected hash ver b p = None"
    using p by (auto simp: grabbable_by_def requests_of_def board_snapshot_of_def satisfied_def valid_agreements_def collected_def Let_def)
  fix x :: verdict assume "vd_verifier x = vn_node v \<and> vd_request_hash x = request_key hash p"
  then show "p \<notin> set (grabbable_by hash ver (post_verdict x b) (vn_node v))"
    by (simp add: grabbable_by_def post_verdict_def request_key_def)
qed

section \<open>Witnesses\<close>

definition len_hash :: hasher where "len_hash b = of_nat (length b)"

definition seven_run :: runner where "seven_run wasm f prev request now fuel = Some [7, 7]"

definition seven_request :: verify_request where
  "seven_request = \<lparr>program_cid = 1, func = [], prev_state = [], vr_request = [], vr_now = 0, claimed_output = [7, 7]\<rparr>"

definition seven_posted :: posted_request where
  "seven_posted = \<lparr>producer = 9, req = seven_request, policy = \<lparr>vp_k = 1, vp_set = Open\<rparr>\<rparr>"

definition zero_sg :: "bytes32 \<Rightarrow> bytes \<Rightarrow> bytes" where "zero_sg n m = replicate 64 0"

definition seven_verdict :: verdict where
  "seven_verdict = \<lparr>vd_verifier = 1, vd_request_hash = 52, vd_output_hash = 2, agree = True, vd_signature = replicate 64 0\<rparr>"

definition seven_board :: board where
  "seven_board = post_verdict seven_verdict board_new"

definition seven_ver :: verifier where
  "seven_ver n msg sig \<longleftrightarrow> msg = verdict_signing_bytes n 52 2 True"

lemma seven_hashes: "request_hash len_hash seven_request = 52" "output_hash len_hash seven_request = 2"
  by (simp_all add: request_hash_def output_hash_def len_hash_def request_bytes_def seven_request_def)

lemma seven_reproduces: "reproduces seven_run len_hash seven_request [0] 5"
  by (simp add: reproduces_def len_hash_def seven_request_def seven_run_def)

lemma seven_board_inv: "board_inv len_hash seven_board"
  by (simp add: seven_board_def board_inv_post)

lemma seven_collected: "collected len_hash seven_ver seven_board seven_posted = Some [seven_verdict]"
  by (simp add: collected_def valid_verdicts_def seven_board_def seven_posted_def seven_hashes post_verdict_def board_new_def bt_get_or_def
      counts_for_def verify_sig_def valid_sig_def seven_ver_def Let_def seven_verdict_def)

lemma verdict_bytes_inj: "verdict_signing_bytes n rh oh a = verdict_signing_bytes n rh' oh' a \<Longrightarrow> rh = rh' \<and> oh = oh'"
  using be_bytes_inj [of 32 rh rh'] be_bytes_inj [of 32 oh oh'] by (simp add: verdict_signing_bytes_def)

lemma seven_honest: "honest_agrees seven_run len_hash seven_ver UNIV {seven_request}"
  unfolding honest_agrees_def using verdict_bytes_inj seven_reproduces by (auto simp: valid_sig_def seven_ver_def seven_hashes)

theorem certificate_sound_witness:
  "producer seven_posted \<notin> vd_verifier ` set [seven_verdict] \<and> (\<exists>wasm fuel. reproduces seven_run len_hash (req seven_posted) wasm fuel)"
proof -
  have "inj_on len_hash (request_bytes ` {seven_request} \<union> claimed_output ` {seven_request})"
    by (simp add: inj_on_def len_hash_def request_bytes_def seven_request_def)
  moreover have "\<forall>r \<in> {seven_request}. fits r" by (simp add: fits_def seven_request_def)
  ultimately show ?thesis
    using certificate_sound [OF seven_board_inv seven_collected, of UNIV seven_run "{seven_request}"] seven_honest
    by (simp add: seven_posted_def)
qed

theorem verification_completes_witness:
  "collected len_hash any_ver (fold (\<lambda>n. post_verdict (verify_locally seven_run len_hash zero_sg n (req seven_posted) [0] 5)) [4, 3] board_new) seven_posted \<noteq> None"
proof -
  have "\<forall>n m. valid_sig any_ver n m (zero_sg n m)" by (simp add: valid_sig_def any_ver_def zero_sg_def)
  then show ?thesis
    using verification_completes [of len_hash board_new "[4, 3]" seven_posted seven_run "[0]" 5 any_ver zero_sg] seven_reproduces
    by (simp add: seven_posted_def)
qed

theorem board_gossip_converges_witness:
  "board_merge len_hash (board_snapshot_of seven_board) (board_merge len_hash \<lparr>bs_requests = [seven_posted], bs_verdicts = []\<rparr> board_new)
    = board_merge len_hash \<lparr>bs_requests = [seven_posted], bs_verdicts = []\<rparr> (board_merge len_hash (board_snapshot_of seven_board) board_new)"
  using board_gossip_converges [OF board_inv_new, of len_hash "board_snapshot_of seven_board" "\<lparr>bs_requests = [seven_posted], bs_verdicts = []\<rparr>"]
  by (simp add: conflict_free_def requests_of_def verdicts_of_def board_snapshot_of_def board_new_def seven_board_def post_verdict_def bt_get_or_def)

theorem forged_verdict_revokes_witness:
  "collected len_hash seven_ver (board_merge len_hash \<lparr>bs_requests = [], bs_verdicts = [seven_verdict\<lparr>vd_signature := []\<rparr>]\<rparr> seven_board) seven_posted = None"
  by (rule forged_verdict_revokes [OF seven_board_inv seven_collected]) (simp_all add: seven_posted_def)

theorem select_spec_witness:
  "select len_hash any_ver (verifier_new 4 10) (post_request len_hash seven_posted board_new) 5 = Some seven_posted
    \<and> select len_hash any_ver (mark_verified 5 (verifier_new 4 10)) (post_request len_hash seven_posted board_new) 14 = None"
proof -
  have g: "grabbable_by len_hash any_ver (post_request len_hash seven_posted board_new) 4 = [seven_posted]"
    by (simp add: grabbable_by_def post_request_def board_new_def satisfied_def valid_agreements_def valid_verdicts_def seven_posted_def)
  have "ready (verifier_new 4 10) 5" "board_inv len_hash (post_request len_hash seven_posted board_new)"
    by (simp_all add: ready_def verifier_new_def board_inv_post)
  from select_spec [OF this(2,1), of 14 any_ver "post_request len_hash seven_posted board_new"] g this(1) show ?thesis
    by (simp add: verifier_new_def select_def)
qed

end
