(* ===== verification/Transition.thy ===== *)
theory Transition
  imports Verify_Board Sequencer
begin

text \<open>
  The program runtime: capability grants (\<open>src/crates/com/src/capability.rs\<close>) and the host functions a
  program may import (\<open>src/crates/com/src/transition.rs\<close>). The WebAssembly engine is a parameter: which
  imports a module has, its initial state, and how it runs from one host call to the next on what fuel is
  left. A host function is a function of the context, the guest memory and the world, where the world
  stands for whatever the injected node services read and write. Linear memory is a byte list; \<open>i32\<close> and
  \<open>i64\<close> arguments keep their width, results are integers.
\<close>

section \<open>Capabilities\<close>

datatype capability = CInput | CCaller | CState | CCommit | CCrypto | CSql | CObj | CClock | CWallClock | CRandom
  | CVerify | CAttest | CSequence | CPre | CInvokeProgram

type_synonym capability_grant = "capability set"

definition grant_deterministic :: capability_grant where
  "grant_deterministic = {CInput, CCaller, CState, CCommit, CCrypto, CSql, CObj, CClock, CInvokeProgram}"

definition grant_full :: capability_grant where
  "grant_full = insert CPre (insert CSequence (insert CAttest (insert CVerify (insert CRandom (insert CWallClock grant_deterministic)))))"

definition grant_verifier :: capability_grant where
  "grant_verifier = insert CPre (insert CSequence (insert CAttest (insert CVerify grant_deterministic)))"

definition grant_allows :: "capability_grant \<Rightarrow> capability \<Rightarrow> bool" where
  "grant_allows g c \<longleftrightarrow> c \<in> g"

definition grant_without :: "capability_grant \<Rightarrow> capability \<Rightarrow> capability_grant" where
  "grant_without g c = g - {c}"

section \<open>The context of a run\<close>

text \<open>The node services, each reading and changing the world \<open>'w\<close>; \<open>None\<close> is an error.\<close>

record 'w app_backend =
  ab_sql_execute :: "bytes \<Rightarrow> bytes \<Rightarrow> 'w \<Rightarrow> u64 option \<times> 'w"
  ab_sql_query :: "bytes32 option \<Rightarrow> bytes \<Rightarrow> bytes \<Rightarrow> 'w \<Rightarrow> bytes option \<times> 'w"
  ab_obj_put :: "bytes \<Rightarrow> 'w \<Rightarrow> bytes32 option \<times> 'w"
  ab_obj_get :: "bytes32 \<Rightarrow> 'w \<Rightarrow> bytes option \<times> 'w"
  ab_obj_get_range :: "bytes32 \<Rightarrow> u64 \<Rightarrow> u64 \<Rightarrow> 'w \<Rightarrow> bytes option \<times> 'w"
  ab_now_millis :: "'w \<Rightarrow> u64"
  ab_pre_rekey :: "bytes \<Rightarrow> u32 \<Rightarrow> u32 \<Rightarrow> 'w \<Rightarrow> bytes option option \<times> 'w"

type_synonym 'w verify_backend = "verify_request \<Rightarrow> 'w \<Rightarrow> bool \<times> 'w"
type_synonym 'w attest_backend = "bytes32 \<Rightarrow> bytes32 \<Rightarrow> bytes \<Rightarrow> 'w \<Rightarrow> bool \<times> 'w"
type_synonym 'w sequence_backend = "bytes32 \<Rightarrow> bytes32 \<Rightarrow> sequenced_write \<Rightarrow> 'w \<Rightarrow> bool \<times> 'w"
type_synonym 'w invoke_backend = "bytes \<Rightarrow> bytes \<Rightarrow> bytes \<Rightarrow> 'w \<Rightarrow> bytes option \<times> 'w"

record 'w transition_ctx =
  tc_prev_state :: bytes
  tc_input :: bytes
  tc_output :: bytes
  tc_caller :: bytes32
  tc_app_ns :: bytes
  tc_now :: u64
  tc_backend :: "'w app_backend option"
  tc_verify_mode :: bool
  tc_program_cid :: bytes32
  tc_program_owner :: "bytes32 option"
  tc_verify_backend :: "'w verify_backend option"
  tc_attest_backend :: "'w attest_backend option"
  tc_sequence_backend :: "'w sequence_backend option"
  tc_invoke_backend :: "'w invoke_backend option"

definition tc_new :: "bytes \<Rightarrow> bytes \<Rightarrow> bytes32 \<Rightarrow> bytes \<Rightarrow> u64 \<Rightarrow> 'w app_backend option \<Rightarrow> 'w transition_ctx" where
  "tc_new prev inp c ns now b = \<lparr>tc_prev_state = prev, tc_input = inp, tc_output = [], tc_caller = c, tc_app_ns = ns, tc_now = now,
     tc_backend = b, tc_verify_mode = False, tc_program_cid = 0, tc_program_owner = None, tc_verify_backend = None,
     tc_attest_backend = None, tc_sequence_backend = None, tc_invoke_backend = None\<rparr>"

definition tc_deterministic :: "bytes \<Rightarrow> bytes \<Rightarrow> u64 \<Rightarrow> 'w transition_ctx" where
  "tc_deterministic prev inp now = tc_new prev inp 0 [] now None"

definition in_verify_mode :: "'w transition_ctx \<Rightarrow> 'w transition_ctx" where
  "in_verify_mode c = c\<lparr>tc_verify_mode := True\<rparr>"

definition with_program_owner :: "bytes32 option \<Rightarrow> 'w transition_ctx \<Rightarrow> 'w transition_ctx" where
  "with_program_owner v c = c\<lparr>tc_program_owner := v\<rparr>"

definition with_program :: "bytes32 \<Rightarrow> 'w transition_ctx \<Rightarrow> 'w transition_ctx" where
  "with_program v c = c\<lparr>tc_program_cid := v\<rparr>"

definition with_verify_backend :: "'w verify_backend option \<Rightarrow> 'w transition_ctx \<Rightarrow> 'w transition_ctx" where
  "with_verify_backend v c = c\<lparr>tc_verify_backend := v\<rparr>"

definition with_attest_backend :: "'w attest_backend option \<Rightarrow> 'w transition_ctx \<Rightarrow> 'w transition_ctx" where
  "with_attest_backend v c = c\<lparr>tc_attest_backend := v\<rparr>"

definition with_sequence_backend :: "'w sequence_backend option \<Rightarrow> 'w transition_ctx \<Rightarrow> 'w transition_ctx" where
  "with_sequence_backend v c = c\<lparr>tc_sequence_backend := v\<rparr>"

definition with_invoke_backend :: "'w invoke_backend option \<Rightarrow> 'w transition_ctx \<Rightarrow> 'w transition_ctx" where
  "with_invoke_backend v c = c\<lparr>tc_invoke_backend := v\<rparr>"

definition PDA_DOMAIN :: bytes where "PDA_DOMAIN = ascii ''craftec/pda/v1''"

definition pda :: "hasher \<Rightarrow> bytes32 \<Rightarrow> bytes \<Rightarrow> bytes32" where
  "pda hash cid sd = hash (PDA_DOMAIN @ be_bytes 32 cid @ sd)"

section \<open>Guest memory\<close>

type_synonym i32 = "32 word"
type_synonym i64 = "64 word"

text \<open>\<open>slice::get(s..e)\<close> and \<open>get_mut(s..e)\<close> with \<open>copy_from_slice\<close>.\<close>

definition det_read :: "bytes \<Rightarrow> i32 \<Rightarrow> i32 \<Rightarrow> bytes option" where
  "det_read mem ptr len = (if sint ptr < 0 \<or> sint len < 0 then None
     else let s = nat (sint ptr); e = s + nat (sint len) in
       if e \<le> length mem then Some (take (e - s) (drop s mem)) else None)"

definition det_write :: "bytes \<Rightarrow> i32 \<Rightarrow> i32 \<Rightarrow> bytes \<Rightarrow> int \<times> bytes" where
  "det_write mem out cap d = (if sint out < 0 \<or> sint cap < 0 \<or> length d > nat (sint cap) then (- 1, mem)
     else let s = nat (sint out); e = s + length d in
       if e \<le> length mem then (int (length d), take s mem @ d @ drop e mem) else (- 1, mem))"

text \<open>\<open>String::from_utf8\<close>: the well-formed byte sequences of the Unicode standard.\<close>

definition continuation :: "u8 \<Rightarrow> bool" where
  "continuation b \<longleftrightarrow> 0x80 \<le> b \<and> b \<le> 0xBF"

fun utf8 :: "bytes \<Rightarrow> bool" where
  "utf8 [] = True"
| "utf8 (a # xs) = (if a \<le> 0x7F then utf8 xs
     else if 0xC2 \<le> a \<and> a \<le> 0xDF then (case xs of b # ys \<Rightarrow> continuation b \<and> utf8 ys | _ \<Rightarrow> False)
     else if 0xE0 \<le> a \<and> a \<le> 0xEF then (case xs of b # c # ys \<Rightarrow>
         continuation b \<and> (a = 0xE0 \<longrightarrow> 0xA0 \<le> b) \<and> (a = 0xED \<longrightarrow> b \<le> 0x9F) \<and> continuation c \<and> utf8 ys | _ \<Rightarrow> False)
     else if 0xF0 \<le> a \<and> a \<le> 0xF4 then (case xs of b # c # d # ys \<Rightarrow>
         continuation b \<and> (a = 0xF0 \<longrightarrow> 0x90 \<le> b) \<and> (a = 0xF4 \<longrightarrow> b \<le> 0x8F) \<and> continuation c \<and> continuation d \<and> utf8 ys | _ \<Rightarrow> False)
     else False)"

definition det_read_str :: "bytes \<Rightarrow> i32 \<Rightarrow> i32 \<Rightarrow> bytes option" where
  "det_read_str mem ptr len = (case det_read mem ptr len of None \<Rightarrow> None | Some b \<Rightarrow> if utf8 b then Some b else None)"

definition det_read_id :: "bytes \<Rightarrow> i32 \<Rightarrow> bytes32 option" where
  "det_read_id mem ptr = map_option of_be_bytes (det_read mem ptr 32)"

section \<open>Host functions\<close>

record 'w host =
  h_ctx :: "'w transition_ctx"
  h_mem :: "bytes option"
  h_world :: 'w

definition host_write :: "bytes \<Rightarrow> i32 \<Rightarrow> i32 \<Rightarrow> bytes \<Rightarrow> 'w host \<Rightarrow> int \<times> 'w host" where
  "host_write m out cap d h = (case det_write m out cap d of (r, m') \<Rightarrow> (r, h\<lparr>h_mem := Some m'\<rparr>))"

definition host_input :: "i32 \<Rightarrow> i32 \<Rightarrow> 'w host \<Rightarrow> int \<times> 'w host" where
  "host_input out cap h = (case h_mem h of None \<Rightarrow> (- 1, h) | Some m \<Rightarrow> host_write m out cap (tc_input (h_ctx h)) h)"

definition host_commit :: "i32 \<Rightarrow> i32 \<Rightarrow> 'w host \<Rightarrow> int \<times> 'w host" where
  "host_commit ptr len h = (case h_mem h of None \<Rightarrow> (- 1, h) | Some m \<Rightarrow>
     (case det_read m ptr len of None \<Rightarrow> (- 1, h)
      | Some b \<Rightarrow> (int (length b), h\<lparr>h_ctx := (h_ctx h)\<lparr>tc_output := b\<rparr>\<rparr>)))"

definition host_state :: "i32 \<Rightarrow> i32 \<Rightarrow> 'w host \<Rightarrow> int \<times> 'w host" where
  "host_state out cap h = (case h_mem h of None \<Rightarrow> (- 1, h) | Some m \<Rightarrow> host_write m out cap (tc_prev_state (h_ctx h)) h)"

definition host_ed25519_verify :: "verifier \<Rightarrow> i32 \<Rightarrow> i32 \<Rightarrow> i32 \<Rightarrow> i32 \<Rightarrow> 'w host \<Rightarrow> int \<times> 'w host" where
  "host_ed25519_verify ver pk msg msg_len sig h = (case h_mem h of None \<Rightarrow> (0, h) | Some m \<Rightarrow>
     (case (det_read_id m pk, det_read m msg msg_len, det_read m sig 64) of
        (Some k, Some b, Some s) \<Rightarrow> (of_bool (ver k b s), h)
      | _ \<Rightarrow> (0, h)))"

definition host_caller :: "i32 \<Rightarrow> i32 \<Rightarrow> 'w host \<Rightarrow> int \<times> 'w host" where
  "host_caller out cap h = (case h_mem h of None \<Rightarrow> (- 1, h)
     | Some m \<Rightarrow> host_write m out cap (be_bytes 32 (tc_caller (h_ctx h))) h)"

definition host_sql_execute :: "i32 \<Rightarrow> i32 \<Rightarrow> 'w host \<Rightarrow> int \<times> 'w host" where
  "host_sql_execute ptr len h = (case h_mem h of None \<Rightarrow> (- 1, h) | Some m \<Rightarrow>
     (case det_read_str m ptr len of None \<Rightarrow> (- 1, h) | Some sql \<Rightarrow>
       (case tc_backend (h_ctx h) of None \<Rightarrow> (- 1, h) | Some b \<Rightarrow>
         (case ab_sql_execute b (tc_app_ns (h_ctx h)) sql (h_world h) of
            (Some n, w) \<Rightarrow> (sint n, h\<lparr>h_world := w\<rparr>)
          | (None, w) \<Rightarrow> (- 1, h\<lparr>h_world := w\<rparr>)))))"

definition query_owner :: "bytes \<Rightarrow> i32 \<Rightarrow> i32 \<Rightarrow> bytes32 option option" where
  "query_owner m optr olen = (if olen = 0 then Some None
     else case det_read m optr olen of Some b \<Rightarrow> if length b = 32 then Some (Some (of_be_bytes b)) else None | None \<Rightarrow> None)"

definition host_sql_query :: "i32 \<Rightarrow> i32 \<Rightarrow> i32 \<Rightarrow> i32 \<Rightarrow> i32 \<Rightarrow> i32 \<Rightarrow> 'w host \<Rightarrow> int \<times> 'w host" where
  "host_sql_query optr olen sptr slen out cap h = (case h_mem h of None \<Rightarrow> (- 1, h) | Some m \<Rightarrow>
     (case query_owner m optr olen of None \<Rightarrow> (- 1, h) | Some owner \<Rightarrow>
       (case det_read_str m sptr slen of None \<Rightarrow> (- 1, h) | Some sql \<Rightarrow>
         (case tc_backend (h_ctx h) of None \<Rightarrow> (- 1, h) | Some b \<Rightarrow>
           (case ab_sql_query b owner (tc_app_ns (h_ctx h)) sql (h_world h) of
              (Some res, w) \<Rightarrow> host_write m out cap res (h\<lparr>h_world := w\<rparr>)
            | (None, w) \<Rightarrow> (- 1, h\<lparr>h_world := w\<rparr>))))))"

definition host_obj_put :: "i32 \<Rightarrow> i32 \<Rightarrow> i32 \<Rightarrow> i32 \<Rightarrow> 'w host \<Rightarrow> int \<times> 'w host" where
  "host_obj_put ptr len out cap h = (case h_mem h of None \<Rightarrow> (- 1, h) | Some m \<Rightarrow>
     (case det_read m ptr len of None \<Rightarrow> (- 1, h) | Some d \<Rightarrow>
       (case tc_backend (h_ctx h) of None \<Rightarrow> (- 1, h) | Some b \<Rightarrow>
         (case ab_obj_put b d (h_world h) of
            (Some cid, w) \<Rightarrow> host_write m out cap (be_bytes 32 cid) (h\<lparr>h_world := w\<rparr>)
          | (None, w) \<Rightarrow> (- 1, h\<lparr>h_world := w\<rparr>)))))"

definition host_obj_get :: "i32 \<Rightarrow> i32 \<Rightarrow> i32 \<Rightarrow> 'w host \<Rightarrow> int \<times> 'w host" where
  "host_obj_get cptr out cap h = (case h_mem h of None \<Rightarrow> (- 1, h) | Some m \<Rightarrow>
     (case det_read_id m cptr of None \<Rightarrow> (- 1, h) | Some cid \<Rightarrow>
       (case tc_backend (h_ctx h) of None \<Rightarrow> (- 1, h) | Some b \<Rightarrow>
         (case ab_obj_get b cid (h_world h) of
            (Some d, w) \<Rightarrow> host_write m out cap d (h\<lparr>h_world := w\<rparr>)
          | (None, w) \<Rightarrow> (- 1, h\<lparr>h_world := w\<rparr>)))))"

definition host_obj_get_range :: "i32 \<Rightarrow> i64 \<Rightarrow> i64 \<Rightarrow> i32 \<Rightarrow> i32 \<Rightarrow> 'w host \<Rightarrow> int \<times> 'w host" where
  "host_obj_get_range cptr offset len out cap h = (if sint offset < 0 \<or> sint len < 0 then (- 1, h)
     else case h_mem h of None \<Rightarrow> (- 1, h) | Some m \<Rightarrow>
     (case det_read_id m cptr of None \<Rightarrow> (- 1, h) | Some cid \<Rightarrow>
       (case tc_backend (h_ctx h) of None \<Rightarrow> (- 1, h) | Some b \<Rightarrow>
         (case ab_obj_get_range b cid offset len (h_world h) of
            (Some d, w) \<Rightarrow> host_write m out cap d (h\<lparr>h_world := w\<rparr>)
          | (None, w) \<Rightarrow> (- 1, h\<lparr>h_world := w\<rparr>)))))"

definition host_clock :: "'w host \<Rightarrow> int \<times> 'w host" where
  "host_clock h = (sint (tc_now (h_ctx h)), h)"

definition host_wall_clock :: "'w host \<Rightarrow> int \<times> 'w host" where
  "host_wall_clock h = (case tc_backend (h_ctx h) of Some b \<Rightarrow> (sint (ab_now_millis b (h_world h)), h) | None \<Rightarrow> (0, h))"

definition MAX_RANDOM :: int where "MAX_RANDOM = 2 ^ 16"

text \<open>The generator of the operating system fills a buffer of the given size.\<close>

type_synonym 'w os_rng = "nat \<Rightarrow> 'w \<Rightarrow> bytes \<times> 'w"

definition host_random :: "'w os_rng \<Rightarrow> i32 \<Rightarrow> i32 \<Rightarrow> 'w host \<Rightarrow> int \<times> 'w host" where
  "host_random rng out len h = (if \<not> (0 \<le> sint len \<and> sint len \<le> MAX_RANDOM) then (- 1, h)
     else case h_mem h of None \<Rightarrow> (- 1, h) | Some m \<Rightarrow>
       (case rng (nat (sint len)) (h_world h) of (buf, w) \<Rightarrow> host_write m out len buf (h\<lparr>h_world := w\<rparr>)))"

definition host_verify :: "i32 \<Rightarrow> i32 \<Rightarrow> i32 \<Rightarrow> i32 \<Rightarrow> i32 \<Rightarrow> i32 \<Rightarrow> 'w host \<Rightarrow> int \<times> 'w host" where
  "host_verify fp fl ip il cp cl h = (if tc_verify_mode (h_ctx h) then (2, h)
     else case h_mem h of None \<Rightarrow> (- 1, h) | Some m \<Rightarrow>
       (case (det_read_str m fp fl, det_read m ip il, det_read m cp cl) of
          (Some f, Some rq, Some claimed) \<Rightarrow>
            (case tc_verify_backend (h_ctx h) of None \<Rightarrow> (- 1, h) | Some vb \<Rightarrow>
              (case vb \<lparr>program_cid = tc_program_cid (h_ctx h), func = f, prev_state = tc_prev_state (h_ctx h),
                        vr_request = rq, vr_now = tc_now (h_ctx h), claimed_output = claimed\<rparr> (h_world h) of
                 (ok, w) \<Rightarrow> (of_bool ok, h\<lparr>h_world := w\<rparr>)))
        | _ \<Rightarrow> (- 1, h)))"

definition host_attest :: "i32 \<Rightarrow> i32 \<Rightarrow> 'w host \<Rightarrow> int \<times> 'w host" where
  "host_attest sp sl h = (if tc_verify_mode (h_ctx h) then (2, h)
     else case h_mem h of None \<Rightarrow> (- 1, h) | Some m \<Rightarrow>
       (case det_read m sp sl of None \<Rightarrow> (- 1, h) | Some st \<Rightarrow>
         (case tc_attest_backend (h_ctx h) of None \<Rightarrow> (- 1, h) | Some ab \<Rightarrow>
           (case tc_program_owner (h_ctx h) of None \<Rightarrow> (- 1, h) | Some owner \<Rightarrow>
             (case ab owner (tc_program_cid (h_ctx h)) st (h_world h) of
                (ok, w) \<Rightarrow> (of_bool ok, h\<lparr>h_world := w\<rparr>))))))"

definition host_sequence :: "i32 \<Rightarrow> i64 \<Rightarrow> i32 \<Rightarrow> i32 \<Rightarrow> i32 \<Rightarrow> 'w host \<Rightarrow> int \<times> 'w host" where
  "host_sequence ap n pp pl sp h = (if tc_verify_mode (h_ctx h) then (2, h)
     else if sint n < 0 then (- 1, h)
     else case h_mem h of None \<Rightarrow> (- 1, h) | Some m \<Rightarrow>
       (case (det_read_id m ap, det_read m pp pl, det_read m sp 64) of
          (Some acct, Some p, Some sig) \<Rightarrow>
            (case tc_sequence_backend (h_ctx h) of None \<Rightarrow> (- 1, h) | Some sb \<Rightarrow>
              (case tc_program_owner (h_ctx h) of None \<Rightarrow> (- 1, h) | Some owner \<Rightarrow>
                (case sb owner (tc_program_cid (h_ctx h)) \<lparr>account = acct, nonce = n, payload = p, w_owner_sig = sig\<rparr> (h_world h) of
                   (ok, w) \<Rightarrow> (of_bool ok, h\<lparr>h_world := w\<rparr>))))
        | _ \<Rightarrow> (- 1, h)))"

definition host_pre_grant :: "i32 \<Rightarrow> i32 \<Rightarrow> i32 \<Rightarrow> i32 \<Rightarrow> i32 \<Rightarrow> i32 \<Rightarrow> 'w host \<Rightarrow> int \<times> 'w host" where
  "host_pre_grant rp rl t n out cap h = (if tc_verify_mode (h_ctx h) then (2, h)
     else case h_mem h of None \<Rightarrow> (- 1, h) | Some m \<Rightarrow>
       (case det_read m rp rl of None \<Rightarrow> (- 1, h) | Some recipient \<Rightarrow>
         if recipient = [] \<or> length recipient > 64 then (- 1, h)
         else if sint t < 1 \<or> sint n < 1 \<or> sint t > sint n then (- 1, h)
         else (case tc_backend (h_ctx h) of None \<Rightarrow> (- 1, h) | Some b \<Rightarrow>
           (case ab_pre_rekey b recipient t n (h_world h) of
              (Some (Some d), w) \<Rightarrow> host_write m out cap d (h\<lparr>h_world := w\<rparr>)
            | (_, w) \<Rightarrow> (- 1, h\<lparr>h_world := w\<rparr>)))))"

definition host_invoke_program :: "i32 \<Rightarrow> i32 \<Rightarrow> i32 \<Rightarrow> i32 \<Rightarrow> i32 \<Rightarrow> i32 \<Rightarrow> i32 \<Rightarrow> i32 \<Rightarrow> 'w host \<Rightarrow> int \<times> 'w host" where
  "host_invoke_program np nl fp fl ip il out cap h = (case h_mem h of None \<Rightarrow> (- 1, h) | Some m \<Rightarrow>
     (case (det_read_str m np nl, det_read_str m fp fl, det_read m ip il) of
        (Some name, Some f, Some inp) \<Rightarrow>
          (case tc_invoke_backend (h_ctx h) of None \<Rightarrow> (- 1, h) | Some ib \<Rightarrow>
            (case ib name f inp (h_world h) of
               (Some d, w) \<Rightarrow> host_write m out cap d (h\<lparr>h_world := w\<rparr>)
             | (None, w) \<Rightarrow> (- 1, h\<lparr>h_world := w\<rparr>)))
      | _ \<Rightarrow> (- 1, h)))"

section \<open>Linking and running\<close>

datatype host_call = HInput i32 i32 | HCommit i32 i32 | HState i32 i32 | HEd25519Verify i32 i32 i32 i32 | HCaller i32 i32
  | HSqlExecute i32 i32 | HSqlQuery i32 i32 i32 i32 i32 i32 | HObjPut i32 i32 i32 i32 | HObjGet i32 i32 i32
  | HObjGetRange i32 i64 i64 i32 i32 | HClock | HWallClock | HRandom i32 i32 | HVerify i32 i32 i32 i32 i32 i32
  | HAttest i32 i32 | HSequence i32 i64 i32 i32 i32 | HPreGrant i32 i32 i32 i32 i32 i32
  | HInvokeProgram i32 i32 i32 i32 i32 i32 i32 i32

fun call_name :: "host_call \<Rightarrow> string" where
  "call_name (HInput _ _) = ''input''"
| "call_name (HCommit _ _) = ''commit''"
| "call_name (HState _ _) = ''state''"
| "call_name (HEd25519Verify _ _ _ _) = ''ed25519_verify''"
| "call_name (HCaller _ _) = ''caller''"
| "call_name (HSqlExecute _ _) = ''sql_execute''"
| "call_name (HSqlQuery _ _ _ _ _ _) = ''sql_query''"
| "call_name (HObjPut _ _ _ _) = ''obj_put''"
| "call_name (HObjGet _ _ _) = ''obj_get''"
| "call_name (HObjGetRange _ _ _ _ _) = ''obj_get_range''"
| "call_name HClock = ''clock''"
| "call_name HWallClock = ''wall_clock''"
| "call_name (HRandom _ _) = ''random''"
| "call_name (HVerify _ _ _ _ _ _) = ''verify''"
| "call_name (HAttest _ _) = ''attest''"
| "call_name (HSequence _ _ _ _ _) = ''sequence''"
| "call_name (HPreGrant _ _ _ _ _ _) = ''pre_grant''"
| "call_name (HInvokeProgram _ _ _ _ _ _ _ _) = ''invoke_program''"

text \<open>What \<open>bind_granted\<close> defines under the module name \<open>craftcom\<close>, each under its capability.\<close>

definition host_surface :: "(capability \<times> string) list" where
  "host_surface = [(CInput, ''input''), (CCommit, ''commit''), (CState, ''state''), (CCrypto, ''ed25519_verify''), (CCaller, ''caller''),
     (CSql, ''sql_execute''), (CSql, ''sql_query''), (CObj, ''obj_put''), (CObj, ''obj_get''), (CObj, ''obj_get_range''),
     (CClock, ''clock''), (CWallClock, ''wall_clock''), (CRandom, ''random''), (CVerify, ''verify''), (CAttest, ''attest''),
     (CSequence, ''sequence''), (CPre, ''pre_grant''), (CInvokeProgram, ''invoke_program'')]"

definition bind_granted :: "capability_grant \<Rightarrow> string list" where
  "bind_granted g = map snd (filter (\<lambda>(c, n). grant_allows g c) host_surface)"

fun host_fn :: "verifier \<Rightarrow> 'w os_rng \<Rightarrow> host_call \<Rightarrow> 'w host \<Rightarrow> int \<times> 'w host" where
  "host_fn ver rng (HInput a b) h = host_input a b h"
| "host_fn ver rng (HCommit a b) h = host_commit a b h"
| "host_fn ver rng (HState a b) h = host_state a b h"
| "host_fn ver rng (HEd25519Verify a b c d) h = host_ed25519_verify ver a b c d h"
| "host_fn ver rng (HCaller a b) h = host_caller a b h"
| "host_fn ver rng (HSqlExecute a b) h = host_sql_execute a b h"
| "host_fn ver rng (HSqlQuery a b c d e f) h = host_sql_query a b c d e f h"
| "host_fn ver rng (HObjPut a b c d) h = host_obj_put a b c d h"
| "host_fn ver rng (HObjGet a b c) h = host_obj_get a b c h"
| "host_fn ver rng (HObjGetRange a b c d e) h = host_obj_get_range a b c d e h"
| "host_fn ver rng HClock h = host_clock h"
| "host_fn ver rng HWallClock h = host_wall_clock h"
| "host_fn ver rng (HRandom a b) h = host_random rng a b h"
| "host_fn ver rng (HVerify a b c d e f) h = host_verify a b c d e f h"
| "host_fn ver rng (HAttest a b) h = host_attest a b h"
| "host_fn ver rng (HSequence a b c d e) h = host_sequence a b c d e h"
| "host_fn ver rng (HPreGrant a b c d e f) h = host_pre_grant a b c d e f h"
| "host_fn ver rng (HInvokeProgram a b c d e f g i) h = host_invoke_program a b c d e f g i h"

text \<open>
  The engine: the imports of a module (\<open>None\<close>: not a module), the state and memory of a fresh instance about
  to run a function (\<open>None\<close>: no such export), and the run of an instance, on some fuel, up to its next host
  call, its return or its trap. A call leaves less fuel than there was, and an instance calls nothing it
  does not import; an engine that breaks either is cut off by a trap.
\<close>

datatype 's segment = Finished | Trapped | Calls host_call "bytes option" "int \<Rightarrow> 's" nat

record 's engine =
  e_imports :: "bytes \<Rightarrow> string list option"
  e_start :: "bytes \<Rightarrow> bytes \<Rightarrow> ('s \<times> bytes option) option"
  e_segment :: "'s \<Rightarrow> bytes option \<Rightarrow> nat \<Rightarrow> 's segment"

function run_guest :: "'s engine \<Rightarrow> verifier \<Rightarrow> 'w os_rng \<Rightarrow> string list \<Rightarrow> 's \<Rightarrow> nat \<Rightarrow> 'w host \<Rightarrow> bool \<times> 'w host" where
  "run_guest eng ver rng imps s fuel h = (case e_segment eng s (h_mem h) fuel of
       Finished \<Rightarrow> (True, h)
     | Trapped \<Rightarrow> (False, h)
     | Calls c m k fuel' \<Rightarrow> if fuel' < fuel \<and> call_name c \<in> set imps
         then (case host_fn ver rng c (h\<lparr>h_mem := m\<rparr>) of (r, h') \<Rightarrow> run_guest eng ver rng imps (k r) fuel' h')
         else (False, h))"
  by pat_completeness auto
termination
  by (relation "measure (\<lambda>(eng, ver, rng, imps, s, fuel, h). fuel)") auto

declare run_guest.simps [simp del]

definition run_program :: "'s engine \<Rightarrow> verifier \<Rightarrow> 'w os_rng \<Rightarrow> bytes \<Rightarrow> bytes \<Rightarrow> 'w transition_ctx \<Rightarrow> u64 \<Rightarrow> capability_grant \<Rightarrow> 'w
    \<Rightarrow> bytes option \<times> 'w" where
  "run_program eng ver rng wasm f ctx fuel g w = (case e_imports eng wasm of
       None \<Rightarrow> (None, w)
     | Some imps \<Rightarrow> if \<not> list_all (\<lambda>n. n \<in> set (bind_granted g)) imps then (None, w)
       else (case e_start eng wasm f of
           None \<Rightarrow> (None, w)
         | Some (s, m) \<Rightarrow> (case run_guest eng ver rng imps s (unat fuel) \<lparr>h_ctx = ctx, h_mem = m, h_world = w\<rparr> of
              (ok, h) \<Rightarrow> (if ok then Some (tc_output (h_ctx h)) else None, h_world h))))"

definition run_transition :: "'s engine \<Rightarrow> verifier \<Rightarrow> 'w os_rng \<Rightarrow> bytes \<Rightarrow> bytes \<Rightarrow> bytes \<Rightarrow> bytes \<Rightarrow> u64 \<Rightarrow> capability_grant \<Rightarrow> 'w
    \<Rightarrow> bytes option \<times> 'w" where
  "run_transition eng ver rng wasm f prev rq fuel g w = run_program eng ver rng wasm f (tc_deterministic prev rq 0) fuel g w"

definition run_pure :: "'s engine \<Rightarrow> verifier \<Rightarrow> 'w os_rng \<Rightarrow> bytes \<Rightarrow> bytes \<Rightarrow> bytes \<Rightarrow> u64 \<Rightarrow> 'w \<Rightarrow> bytes option \<times> 'w" where
  "run_pure eng ver rng wasm f rq fuel w = run_transition eng ver rng wasm f [] rq fuel grant_deterministic w"

text \<open>The run of \<open>verify_locally\<close> and \<open>produce\<close> (\<open>src/crates/com/src/verification.rs\<close>), on a node with generator \<open>rng\<close> and world \<open>w\<close>.\<close>

definition rerun :: "'s engine \<Rightarrow> verifier \<Rightarrow> 'w os_rng \<Rightarrow> 'w \<Rightarrow> runner" where
  "rerun eng ver rng w wasm f prev rq now fuel =
     fst (run_program eng ver rng wasm f (in_verify_mode (tc_deterministic prev rq now)) fuel grant_verifier w)"

section \<open>Host functions stay inside the sandbox\<close>

named_theorems host_defs \<open>the definitions of the host functions\<close>

declare host_input_def [host_defs] host_commit_def [host_defs] host_state_def [host_defs] host_ed25519_verify_def [host_defs]
  host_caller_def [host_defs] host_sql_execute_def [host_defs] host_sql_query_def [host_defs] host_obj_put_def [host_defs]
  host_obj_get_def [host_defs] host_obj_get_range_def [host_defs] host_clock_def [host_defs] host_wall_clock_def [host_defs]
  host_random_def [host_defs] host_verify_def [host_defs] host_attest_def [host_defs] host_sequence_def [host_defs]
  host_pre_grant_def [host_defs] host_invoke_program_def [host_defs]

text \<open>A context that reaches no node service.\<close>

definition isolated :: "'w transition_ctx \<Rightarrow> bool" where
  "isolated c \<longleftrightarrow> tc_backend c = None \<and> tc_verify_mode c \<and> tc_invoke_backend c = None"

lemma host_fn_isolated:
  assumes "isolated (h_ctx h)" "call_name c \<in> set (bind_granted grant_verifier)" "host_fn ver rng c h = (r, h')"
  shows "isolated (h_ctx h') \<and> h_world h' = h_world h \<and> host_fn ver rng' c (h\<lparr>h_world := w'\<rparr>) = (r, h'\<lparr>h_world := w'\<rparr>)"
proof -
  have "call_name c \<noteq> ''wall_clock''" "call_name c \<noteq> ''random''"
    using assms(2) by (auto simp: bind_granted_def host_surface_def grant_allows_def grant_verifier_def grant_deterministic_def)
  then show ?thesis using assms(1,3)
    by (cases c) (auto simp: host_defs host_write_def isolated_def split: option.splits prod.splits if_splits)
qed

lemma run_guest_isolated:
  assumes "isolated (h_ctx h)" "set imps \<subseteq> set (bind_granted grant_verifier)" "run_guest eng ver rng imps s fuel h = (ok, h')"
  shows "h_world h' = h_world h \<and> run_guest eng ver rng' imps s fuel (h\<lparr>h_world := w'\<rparr>) = (ok, h'\<lparr>h_world := w'\<rparr>)"
  using assms
proof (induction eng ver rng imps s fuel h arbitrary: ok h' rule: run_guest.induct)
  case (1 eng ver rng imps s fuel h)
  show ?case
  proof (cases "e_segment eng s (h_mem h) fuel")
    case (Calls c m k fuel')
    show ?thesis
    proof (cases "fuel' < fuel \<and> call_name c \<in> set imps")
      case True
      obtain r h1 where step: "host_fn ver rng c (h\<lparr>h_mem := m\<rparr>) = (r, h1)" by (cases "host_fn ver rng c (h\<lparr>h_mem := m\<rparr>)")
      have comm: "h\<lparr>h_mem := m, h_world := w'\<rparr> = h\<lparr>h_world := w', h_mem := m\<rparr>" by simp
      have iso: "isolated (h_ctx h1) \<and> h_world h1 = h_world h \<and> host_fn ver rng' c (h\<lparr>h_mem := m, h_world := w'\<rparr>) = (r, h1\<lparr>h_world := w'\<rparr>)"
        using host_fn_isolated [OF _ _ step, of rng' w'] "1.prems"(1,2) True by auto
      have run: "run_guest eng ver rng imps (k r) fuel' h1 = (ok, h')"
        using "1.prems"(3) Calls True step by (subst (asm) run_guest.simps) simp
      have "h_world h' = h_world h1 \<and> run_guest eng ver rng' imps (k r) fuel' (h1\<lparr>h_world := w'\<rparr>) = (ok, h'\<lparr>h_world := w'\<rparr>)"
        using "1.IH" [OF Calls True step [symmetric] _ "1.prems"(2) run] iso by simp
      moreover have "host_fn ver rng' c (h\<lparr>h_world := w', h_mem := m\<rparr>) = (r, h1\<lparr>h_world := w'\<rparr>)"
        using iso comm by metis
      ultimately show ?thesis using Calls True iso by (subst run_guest.simps) simp
    qed (use Calls "1.prems"(3) in \<open>auto simp: run_guest.simps [of eng]\<close>)
  qed (use "1.prems"(3) in \<open>auto simp: run_guest.simps [of eng]\<close>)
qed

lemma isolated_run:
  "\<exists>out. \<forall>rng (w :: 'w). run_program eng ver rng wasm f (in_verify_mode (tc_deterministic prev rq now)) fuel grant_verifier w = (out, w)"
proof -
  let ?ctx = "in_verify_mode (tc_deterministic prev rq now) :: 'w transition_ctx"
  let ?run = "\<lambda>rng w. run_program eng ver rng wasm f ?ctx fuel grant_verifier w"
  have iso: "isolated ?ctx" by (simp add: isolated_def in_verify_mode_def tc_deterministic_def tc_new_def)
  have "?run rng w = (fst (?run rng0 w0), w)" for rng rng0 :: "'w os_rng" and w w0 :: 'w
  proof (cases "e_imports eng wasm")
    case (Some imps)
    show ?thesis
    proof (cases "list_all (\<lambda>n. n \<in> set (bind_granted grant_verifier)) imps \<and> e_start eng wasm f \<noteq> None")
      case True
      then obtain s m where start: "e_start eng wasm f = Some (s, m)" by auto
      have sub: "set imps \<subseteq> set (bind_granted grant_verifier)" using True by (auto simp: list_all_iff)
      let ?h = "\<lparr>h_ctx = ?ctx, h_mem = m, h_world = w0\<rparr>"
      obtain ok h' where run: "run_guest eng ver rng0 imps s (unat fuel) ?h = (ok, h')" by (cases "run_guest eng ver rng0 imps s (unat fuel) ?h")
      from run_guest_isolated [OF _ sub run, of rng w] iso
      have "run_guest eng ver rng imps s (unat fuel) \<lparr>h_ctx = ?ctx, h_mem = m, h_world = w\<rparr> = (ok, h'\<lparr>h_world := w\<rparr>)" by simp
      then show ?thesis using Some True start run by (simp add: run_program_def)
    qed (use Some in \<open>auto simp: run_program_def split: option.split\<close>)
  qed (simp add: run_program_def)
  then show ?thesis by blast
qed

text \<open>(C13) A re-run is reproducible: under the verifier grant in verify mode the outcome of any program is a function of
  the program, its inputs, the consensus time and the fuel. Neither the random source nor anything a node
  holds enters, and the run changes nothing of it.\<close>

theorem rerun_deterministic:
  "\<exists>out. \<forall>rng (w :: 'w). run_program eng ver rng wasm f (in_verify_mode (tc_deterministic prev rq now)) fuel grant_verifier w = (out, w)"
  by (rule isolated_run)

lemma rerun_det_eq: "rerun eng ver rng w = rerun eng ver rng' w'" for w w' :: 'w
proof (intro ext)
  fix wasm f prev rq now fuel
  obtain out where "\<And>rng (w :: 'w). run_program eng ver rng wasm f (in_verify_mode (tc_deterministic prev rq now)) fuel grant_verifier w = (out, w)"
    using isolated_run by blast
  then show "rerun eng ver rng w wasm f prev rq now fuel = rerun eng ver rng' w' wasm f prev rq now fuel"
    by (simp add: rerun_def)
qed

text \<open>What a producer claims, every honest verifier confirms: a request packaged by \<open>produce\<close> on one node gets an agreeing
  verdict from \<open>verify_locally\<close> on any other, whatever the two nodes hold.\<close>

theorem produced_claims_verify:
  fixes w w' :: 'w
  assumes "produce (rerun eng ver rng w) hash wasm f prev rq now fuel = Some r"
  shows "agree (verify_locally (rerun eng ver rng' w') hash sg node r wasm fuel)"
proof -
  have "rerun eng ver rng' w' wasm f prev rq now fuel = rerun eng ver rng w wasm f prev rq now fuel"
    using rerun_det_eq [of eng ver rng' w' rng w] by simp
  then show ?thesis using assms by (auto simp: produce_def verify_locally_def verdict_sign_def reproduces_def)
qed

section \<open>Memory safety\<close>

fun out_buffer :: "host_call \<Rightarrow> (i32 \<times> i32) option" where
  "out_buffer (HInput a b) = Some (a, b)"
| "out_buffer (HState a b) = Some (a, b)"
| "out_buffer (HCaller a b) = Some (a, b)"
| "out_buffer (HSqlQuery a b c d e f) = Some (e, f)"
| "out_buffer (HObjPut a b c d) = Some (c, d)"
| "out_buffer (HObjGet a b c) = Some (b, c)"
| "out_buffer (HObjGetRange a b c d e) = Some (d, e)"
| "out_buffer (HRandom a b) = Some (a, b)"
| "out_buffer (HPreGrant a b c d e f) = Some (e, f)"
| "out_buffer (HInvokeProgram a b c d e f g i) = Some (g, i)"
| "out_buffer _ = None"

definition frame :: "i32 \<times> i32 \<Rightarrow> bytes \<Rightarrow> bytes \<Rightarrow> bool" where
  "frame buf m m' \<longleftrightarrow> length m' = length m \<and> (\<forall>i < length m. m' ! i \<noteq> m ! i \<longrightarrow>
     0 \<le> sint (fst buf) \<and> sint (fst buf) \<le> int i \<and> int i < sint (fst buf) + sint (snd buf))"

lemma frame_refl [simp]: "frame buf m m"
  by (simp add: frame_def)

lemma det_write_frame:
  assumes "det_write m out cap d = (r, m')"
  shows "frame (out, cap) m m' \<and> (r < 0 \<longrightarrow> m' = m)"
proof (cases "m' = m")
  case False
  then have ok: "0 \<le> sint out" "0 \<le> sint cap" "length d \<le> nat (sint cap)" "nat (sint out) + length d \<le> length m" "r = int (length d)"
    "m' = take (nat (sint out)) m @ d @ drop (nat (sint out) + length d) m"
    using assms by (auto simp: det_write_def Let_def not_le split: if_splits)
  have "m' ! i = m ! i" if "i < length m" "i < nat (sint out) \<or> nat (sint out) + length d \<le> i" for i
    using that ok(4) unfolding ok(6) by (auto simp: nth_append min_def)
  then show ?thesis using ok by (force simp: frame_def)
qed simp

lemma host_write_frame:
  "host_write m out cap d h = (r, h') \<Longrightarrow> \<exists>m'. h_mem h' = Some m' \<and> frame (out, cap) m m' \<and> (r < 0 \<longrightarrow> m' = m)"
  using det_write_frame by (auto simp: host_write_def split: prod.splits)

text \<open>(C28) A host function writes into guest memory only inside the buffer it is given, however wrong the pointers; the
  size of the memory never changes, and a call that reports an error changes no byte.\<close>

theorem host_memory_safe:
  assumes "h_mem h = Some m" "host_fn ver rng c h = (r, h')"
  shows "\<exists>m'. h_mem h' = Some m' \<and> (case out_buffer c of None \<Rightarrow> m' = m | Some buf \<Rightarrow> frame buf m m') \<and> (r < 0 \<longrightarrow> m' = m)"
  using assms
  by (cases c) (auto simp: host_defs dest!: host_write_frame split: option.splits prod.splits if_splits)

lemma det_write_read:
  assumes "det_write m out cap d = (r, m')" "r \<noteq> - 1"
  shows "r = int (length d) \<and> det_read m' out (of_int r) = Some d"
proof -
  have ok: "0 \<le> sint out" "0 \<le> sint cap" "length d \<le> nat (sint cap)" "nat (sint out) + length d \<le> length m" "r = int (length d)"
    "m' = take (nat (sint out)) m @ d @ drop (nat (sint out) + length d) m"
    using assms by (auto simp: det_write_def Let_def not_le split: if_splits)
  have "sint cap < 2 ^ 31" using sint_lt [of cap] by simp
  then have "int (length d) < 2 ^ 31" using ok(2,3) by linarith
  then have "sint (of_int r :: i32) = int (length d)"
    unfolding ok(5) by (subst signed_of_int) (simp_all add: signed_take_bit_int_eq_self)
  moreover have "nat (sint out) \<le> length m" using ok(4) by simp
  then have "take (length d) (drop (nat (sint out)) m') = d" "length m' = length m" using ok(4) by (simp_all add: ok(6) min_absorb2)
  ultimately show ?thesis using ok(1,4,5) by (simp add: det_read_def Let_def)
qed

text \<open>Bytes pass through guest memory unchanged: a program that fetches its request into a buffer and commits the
  number of bytes it was told it got, commits exactly the request.\<close>

theorem input_commit_echo:
  assumes "host_input out cap h = (n, h1)" "n \<noteq> - 1"
  shows "\<exists>h2. host_commit out (of_int n) h1 = (n, h2) \<and> tc_output (h_ctx h2) = tc_input (h_ctx h)"
proof -
  obtain m m' where m: "h_mem h = Some m" "det_write m out cap (tc_input (h_ctx h)) = (n, m')" "h1 = h\<lparr>h_mem := Some m'\<rparr>"
    using assms by (auto simp: host_input_def host_write_def split: option.splits prod.splits)
  have "n = int (length (tc_input (h_ctx h)))" "det_read m' out (of_int n) = Some (tc_input (h_ctx h))"
    using det_write_read [OF m(2) assms(2)] by blast+
  then show ?thesis unfolding host_commit_def m(3) by simp
qed

section \<open>What a program can reach\<close>

text \<open>
  \<open>I\<close> is kept by every service a run can reach: SQL of the namespace of the context, objects, delegation, and the
  verification, attestation and ordering of the program named in the context for the owner named there.
\<close>

definition keeps :: "('w \<Rightarrow> bool) \<Rightarrow> ('w \<Rightarrow> 'x \<times> 'w) \<Rightarrow> bool" where
  "keeps I f \<longleftrightarrow> (\<forall>w. I w \<longrightarrow> I (snd (f w)))"

lemma keepsD: "f w = (x, w') \<Longrightarrow> keeps I f \<Longrightarrow> I w \<Longrightarrow> I w'"
  unfolding keeps_def by (metis snd_conv)

definition services_keep :: "('w \<Rightarrow> bool) \<Rightarrow> 'w os_rng \<Rightarrow> 'w transition_ctx \<Rightarrow> bool" where
  "services_keep I rng c \<longleftrightarrow> (\<forall>n. keeps I (rng n))
     \<and> (\<forall>b. tc_backend c = Some b \<longrightarrow>
          (\<forall>sql. keeps I (ab_sql_execute b (tc_app_ns c) sql)) \<and> (\<forall>ow sql. keeps I (ab_sql_query b ow (tc_app_ns c) sql))
        \<and> (\<forall>d. keeps I (ab_obj_put b d)) \<and> (\<forall>i. keeps I (ab_obj_get b i)) \<and> (\<forall>i x y. keeps I (ab_obj_get_range b i x y))
        \<and> (\<forall>p t n. keeps I (ab_pre_rekey b p t n)))
     \<and> (\<forall>vb q. tc_verify_backend c = Some vb \<longrightarrow> program_cid q = tc_program_cid c \<longrightarrow> prev_state q = tc_prev_state c
          \<longrightarrow> vr_now q = tc_now c \<longrightarrow> keeps I (vb q))
     \<and> (\<forall>ab ow st. tc_attest_backend c = Some ab \<longrightarrow> tc_program_owner c = Some ow \<longrightarrow> keeps I (ab ow (tc_program_cid c) st))
     \<and> (\<forall>sb ow wr. tc_sequence_backend c = Some sb \<longrightarrow> tc_program_owner c = Some ow \<longrightarrow> keeps I (sb ow (tc_program_cid c) wr))
     \<and> (\<forall>ib n f x. tc_invoke_backend c = Some ib \<longrightarrow> keeps I (ib n f x))"

lemma services_keep_output [simp]: "services_keep I rng (c\<lparr>tc_output := v\<rparr>) = services_keep I rng c"
  by (simp add: services_keep_def)

lemma services_keepD:
  "rng n w = (x, w') \<Longrightarrow> services_keep I rng c \<Longrightarrow> I w \<Longrightarrow> I w'"
  "ab_sql_execute b (tc_app_ns c) sql w = (x1, w') \<Longrightarrow> services_keep I rng c \<Longrightarrow> tc_backend c = Some b \<Longrightarrow> I w \<Longrightarrow> I w'"
  "ab_sql_query b ow (tc_app_ns c) sql w = (x2, w') \<Longrightarrow> services_keep I rng c \<Longrightarrow> tc_backend c = Some b \<Longrightarrow> I w \<Longrightarrow> I w'"
  "ab_obj_put b d w = (x3, w') \<Longrightarrow> services_keep I rng c \<Longrightarrow> tc_backend c = Some b \<Longrightarrow> I w \<Longrightarrow> I w'"
  "ab_obj_get b i w = (x4, w') \<Longrightarrow> services_keep I rng c \<Longrightarrow> tc_backend c = Some b \<Longrightarrow> I w \<Longrightarrow> I w'"
  "ab_obj_get_range b i j k w = (x5, w') \<Longrightarrow> services_keep I rng c \<Longrightarrow> tc_backend c = Some b \<Longrightarrow> I w \<Longrightarrow> I w'"
  "ab_pre_rekey b p t m w = (x6, w') \<Longrightarrow> services_keep I rng c \<Longrightarrow> tc_backend c = Some b \<Longrightarrow> I w \<Longrightarrow> I w'"
  "vb \<lparr>program_cid = tc_program_cid c, func = f, prev_state = tc_prev_state c, vr_request = rq, vr_now = tc_now c, claimed_output = cl\<rparr> w = (x7, w')
     \<Longrightarrow> services_keep I rng c \<Longrightarrow> tc_verify_backend c = Some vb \<Longrightarrow> I w \<Longrightarrow> I w'"
  "ab ow' (tc_program_cid c) st w = (x8, w') \<Longrightarrow> services_keep I rng c \<Longrightarrow> tc_attest_backend c = Some ab
     \<Longrightarrow> tc_program_owner c = Some ow' \<Longrightarrow> I w \<Longrightarrow> I w'"
  "sb ow' (tc_program_cid c) wr w = (x9, w') \<Longrightarrow> services_keep I rng c \<Longrightarrow> tc_sequence_backend c = Some sb
     \<Longrightarrow> tc_program_owner c = Some ow' \<Longrightarrow> I w \<Longrightarrow> I w'"
  "ib nm f y w = (x10, w') \<Longrightarrow> services_keep I rng c \<Longrightarrow> tc_invoke_backend c = Some ib \<Longrightarrow> I w \<Longrightarrow> I w'"
  unfolding services_keep_def by (erule keepsD; simp)+

lemma host_write_parts: "host_write m out cap d h = (r, h') \<Longrightarrow> h_ctx h' = h_ctx h \<and> h_world h' = h_world h"
  by (auto simp: host_write_def split: prod.splits)

lemma host_fn_keeps:
  assumes "services_keep I rng (h_ctx h)" "I (h_world h)" "host_fn ver rng c h = (r, h')"
  shows "services_keep I rng (h_ctx h') \<and> I (h_world h')"
proof -
  have ctx: "h_ctx h' = h_ctx h \<or> (\<exists>v. h_ctx h' = (h_ctx h)\<lparr>tc_output := v\<rparr>)"
    using assms(3) by (cases c) (auto simp: host_defs dest!: host_write_parts split: option.splits prod.splits if_splits)
  have "I (h_world h')"
    using assms
    by (cases c) (auto simp: host_defs dest!: host_write_parts split: option.splits prod.splits if_splits dest: services_keepD)
  then show ?thesis using ctx assms(1) by auto
qed

lemma run_guest_keeps:
  assumes "services_keep I rng (h_ctx h)" "I (h_world h)" "run_guest eng ver rng imps s fuel h = (ok, h')"
  shows "I (h_world h')"
  using assms
proof (induction eng ver rng imps s fuel h rule: run_guest.induct)
  case (1 eng ver rng imps s fuel h)
  show ?case
  proof (cases "e_segment eng s (h_mem h) fuel")
    case (Calls c m k fuel')
    show ?thesis
    proof (cases "fuel' < fuel \<and> call_name c \<in> set imps")
      case True
      obtain r h1 where step: "host_fn ver rng c (h\<lparr>h_mem := m\<rparr>) = (r, h1)" by (cases "host_fn ver rng c (h\<lparr>h_mem := m\<rparr>)")
      have "services_keep I rng (h_ctx h1) \<and> I (h_world h1)" using host_fn_keeps [of I, OF _ _ step] "1.prems"(1,2) by simp
      moreover have "run_guest eng ver rng imps (k r) fuel' h1 = (ok, h')"
        using "1.prems"(3) Calls True step by (subst (asm) run_guest.simps) simp
      ultimately show ?thesis using "1.IH" [OF Calls True step [symmetric]] by blast
    qed (use Calls "1.prems" in \<open>auto simp: run_guest.simps [of eng]\<close>)
  qed (use "1.prems" in \<open>auto simp: run_guest.simps [of eng]\<close>)
qed

text \<open>A program is confined: whatever it computes and however it calls the host, it reaches only the SQL of the
  namespace, the program id and the authenticated owner its context names. What those services keep, every
  run keeps, under every grant.\<close>

theorem services_confined:
  assumes "services_keep I rng ctx" "I w"
  shows "I (snd (run_program eng ver rng wasm f ctx fuel g w))"
proof -
  have "I (h_world (snd (run_guest eng ver rng imps s n \<lparr>h_ctx = ctx, h_mem = m, h_world = w\<rparr>)))" for imps s n m
    using run_guest_keeps [of I rng "\<lparr>h_ctx = ctx, h_mem = m, h_world = w\<rparr>"] assms by (metis host.select_convs(1,3) prod.collapse)
  then show ?thesis using assms(2) by (auto simp: run_program_def split: option.split prod.split) (metis snd_conv)+
qed

text \<open>A re-run orchestrates nothing: \<open>verify\<close>, \<open>attest\<close>, \<open>sequence\<close> and \<open>pre_grant\<close> report 2 and do nothing, and every
  service call, the cross-program call among them, reports an error.\<close>

theorem rerun_inert:
  assumes "h_ctx h = in_verify_mode (tc_deterministic prev rq now)"
  shows "(call_name c \<in> {''verify'', ''attest'', ''sequence'', ''pre_grant''} \<longrightarrow> host_fn ver rng c h = (2, h))
    \<and> (call_name c \<in> {''sql_execute'', ''sql_query'', ''obj_put'', ''obj_get'', ''obj_get_range'', ''invoke_program''} \<longrightarrow> host_fn ver rng c h = (- 1, h))"
  using assms
  by (cases c) (simp_all add: host_defs in_verify_mode_def tc_deterministic_def tc_new_def split: option.split)

text \<open>The grants: a module that imports a host function outside its grant does not run, and of the three profiles only
  the full one binds the wall clock and the random source.\<close>

theorem ungranted_import_fails:
  assumes "e_imports eng wasm = Some imps" "n \<in> set imps" "n \<notin> set (bind_granted g)"
  shows "run_program eng ver rng wasm f ctx fuel g w = (None, w)
    \<and> ''wall_clock'' \<notin> set (bind_granted grant_deterministic) \<and> ''random'' \<notin> set (bind_granted grant_deterministic)
    \<and> ''wall_clock'' \<notin> set (bind_granted grant_verifier) \<and> ''random'' \<notin> set (bind_granted grant_verifier)
    \<and> set (bind_granted grant_deterministic) \<subseteq> set (bind_granted grant_verifier)
    \<and> set (bind_granted grant_full) = set (bind_granted grant_verifier) \<union> {''wall_clock'', ''random''}"
proof -
  have "\<not> list_all (\<lambda>n. n \<in> set (bind_granted g)) imps" using assms(2,3) by (auto simp: list_all_iff)
  then have "run_program eng ver rng wasm f ctx fuel g w = (None, w)" using assms(1) by (simp add: run_program_def)
  then show ?thesis
    by (auto simp: bind_granted_def host_surface_def grant_allows_def grant_verifier_def grant_full_def grant_deterministic_def)
qed

section \<open>Witnesses\<close>

text \<open>An engine whose one program fetches its input into a memory of eight bytes and commits it.\<close>

definition echo_segment :: "int \<Rightarrow> bytes option \<Rightarrow> nat \<Rightarrow> int segment" where
  "echo_segment s m n = (if n = 0 then Trapped else if s = - 2 then Calls (HInput 0 8) m (\<lambda>r. r) (n - 1)
     else if s = - 1 then Trapped else if s = - 3 then Finished else Calls (HCommit 0 (of_int s)) m (\<lambda>r. - 3) (n - 1))"

definition echo_engine :: "int engine" where
  "echo_engine = \<lparr>e_imports = \<lambda>w. Some [''input'', ''commit''], e_start = \<lambda>w f. Some (- 2, Some (replicate 8 0)), e_segment = echo_segment\<rparr>"

lemma echo_run: "rerun echo_engine any_ver rng w [0] [] [] [5, 6] 0 10 = Some [5, 6]"
  by (simp add: rerun_def run_program_def echo_engine_def run_guest.simps echo_segment_def bind_granted_def host_surface_def grant_allows_def
      grant_verifier_def grant_deterministic_def host_defs host_write_def det_write_def det_read_def in_verify_mode_def tc_deterministic_def tc_new_def Let_def)

theorem produced_claims_verify_witness:
  "\<exists>r. produce (rerun echo_engine any_ver (\<lambda>n w. ([], w)) (0 :: nat)) len_hash [0] [] [] [5, 6] 0 10 = Some r
    \<and> agree (verify_locally (rerun echo_engine any_ver (\<lambda>n w. ([], w + 1)) (7 :: nat)) len_hash zero_sg 1 r [0] 10)"
proof -
  obtain r where r: "produce (rerun echo_engine any_ver (\<lambda>n w. ([], w)) (0 :: nat)) len_hash [0] [] [] [5, 6] 0 10 = Some r"
    by (simp add: produce_def echo_run)
  from produced_claims_verify [OF this] r show ?thesis by blast
qed

definition demo_host :: "nat host" where
  "demo_host = \<lparr>h_ctx = in_verify_mode (tc_deterministic [] [5, 6] 0), h_mem = Some (replicate 8 0), h_world = 0\<rparr>"

theorem host_memory_safe_witness:
  "\<exists>m'. h_mem (snd (host_fn any_ver (\<lambda>n w. ([], w)) (HInput 7 4) demo_host)) = Some m' \<and> frame (7, 4) (replicate 8 0) m'"
proof -
  obtain r h' where h: "host_fn any_ver (\<lambda>n w. ([], w)) (HInput 7 4) demo_host = (r, h')" by fastforce
  have "h_mem demo_host = Some (replicate 8 0)" by (simp add: demo_host_def)
  from host_memory_safe [OF this h] show ?thesis unfolding h by auto
qed

theorem input_commit_echo_witness:
  "\<exists>h1 h2. host_input 0 8 demo_host = (2, h1) \<and> host_commit 0 2 h1 = (2, h2) \<and> tc_output (h_ctx h2) = [5, 6]"
proof -
  have "\<exists>h1. host_input 0 8 demo_host = (2, h1)"
    by (simp add: host_input_def demo_host_def host_write_def det_write_def in_verify_mode_def tc_deterministic_def tc_new_def Let_def)
  then obtain h1 where h1: "host_input 0 8 demo_host = (2, h1)" by blast
  from input_commit_echo [OF h1] h1 show ?thesis by (simp add: demo_host_def in_verify_mode_def tc_deterministic_def tc_new_def)
qed

text \<open>A world that logs the namespaces written to.\<close>

definition log_backend :: "bytes list app_backend" where
  "log_backend = \<lparr>ab_sql_execute = \<lambda>ns sql w. (Some 1, ns # w), ab_sql_query = \<lambda>ow ns sql w. (None, w), ab_obj_put = \<lambda>d w. (None, w),
     ab_obj_get = \<lambda>i w. (None, w), ab_obj_get_range = \<lambda>i x y w. (None, w), ab_now_millis = \<lambda>w. 0, ab_pre_rekey = \<lambda>p t n w. (None, w)\<rparr>"

theorem services_confined_witness:
  "set (snd (run_program echo_engine any_ver (\<lambda>n w. ([], w)) [0] [] (tc_new [] [5, 6] 1 [97] 0 (Some log_backend)) 10 grant_full [])) \<subseteq> {[97]}"
proof -
  have "services_keep (\<lambda>w. set w \<subseteq> {[97]}) (\<lambda>n w. ([], w)) (tc_new [] [5, 6] 1 [97] 0 (Some log_backend))"
    by (simp add: services_keep_def keeps_def tc_new_def log_backend_def)
  then show ?thesis by (rule services_confined) simp
qed

theorem rerun_inert_witness:
  "host_fn any_ver (\<lambda>n w. ([], w)) (HAttest 0 0) demo_host = (2, demo_host)
    \<and> host_fn any_ver (\<lambda>n w. ([], w)) (HInvokeProgram 0 0 0 0 0 0 0 0) demo_host = (- 1, demo_host)"
proof -
  have "h_ctx demo_host = in_verify_mode (tc_deterministic [] [5, 6] 0)" by (simp add: demo_host_def)
  from rerun_inert [OF this, of "HAttest 0 0"] rerun_inert [OF this, of "HInvokeProgram 0 0 0 0 0 0 0 0"] show ?thesis by simp
qed

theorem ungranted_import_fails_witness:
  "run_program (echo_engine\<lparr>e_imports := \<lambda>w. Some [''random'']\<rparr>) any_ver (\<lambda>n w. ([], w)) [0] [] (tc_deterministic [] [] 0) 10 grant_verifier (0 :: nat) = (None, 0)"
proof -
  have "''random'' \<notin> set (bind_granted grant_verifier)"
    by (simp add: bind_granted_def host_surface_def grant_allows_def grant_verifier_def grant_deterministic_def)
  then show ?thesis using ungranted_import_fails [of "echo_engine\<lparr>e_imports := \<lambda>w. Some [''random'']\<rparr>" "[0]" "[''random'']" "''random''" grant_verifier any_ver
      "\<lambda>n w. ([], w)" "[]" "tc_deterministic [] [] 0" 10 "0 :: nat"] by simp
qed

end
