(* ===== verification/Wire.thy ===== *)
theory Wire
  imports HLC
begin

text \<open>
  The wire protocol, \<open>src/crates/wire/src/lib.rs\<close>: the messages with their type tags, the framing with its
  17-byte header, the strict decoder, and the clock-skew policy. The postcard encoding of a message body is
  the parameter \<open>enc\<close>, its decoder for a type tag is \<open>dec\<close>. Strings are their bytes; a struct of one or a
  few fields is the argument list of its message.
\<close>

section \<open>Messages\<close>

definition WIRE_VERSION :: u8 where "WIRE_VERSION = 1"

definition HEADER_LEN :: nat where "HEADER_LEN = 17"

definition MAX_MESSAGE_SIZE :: nat where "MAX_MESSAGE_SIZE = 4 * 1024 * 1024"

record signed_record =
  sg_kind :: u8
  sg_node_id :: bytes32
  sg_payload :: bytes
  sg_hlc_ts :: u64
  sg_signature :: bytes

record wire_piece =
  wp_coding_vector :: bytes
  wp_data :: bytes

record piece_push =
  pp_cid :: bytes32
  pp_k :: u32
  pp_piece_len :: u64
  pp_total_len :: u64
  pp_vtags :: bytes
  pp_piece :: wire_piece
  pp_system :: bool
  pp_class :: u8

record offer =
  of_class :: u8
  of_cid :: bytes32
  of_items :: u16
  of_bytes :: u64

record piece_response =
  pr_found :: bool
  pr_k :: u32
  pr_piece_len :: u64
  pr_total_len :: u64
  pr_vtags :: bytes
  pr_pieces :: "wire_piece list"

record member_entry =
  me_id :: bytes32
  me_addr :: bytes
  me_last_heard_ms :: u64
  me_incarnation :: u64
  me_state :: u8

datatype wire_message =
    MPing bytes32
  | MPong bytes32
  | MJoin bytes
  | MForwardJoin bytes u8
  | MNeighbor bytes bool
  | MNeighborReply bool
  | MDisconnect
  | MShuffle bytes "bytes list" "member_entry list"
  | MShuffleReply "bytes list" "member_entry list"
  | MMemberSync "member_entry list"
  | MDigest bytes32
  | MPingReq bytes32 bytes
  | MPingReqAck bytes32 bool
  | MPiecePush piece_push
  | MPiecePushAck bool bytes
  | MOffer offer
  | MGrant u16 u32
  | MPieceRequest bytes32 "bytes32 list" u16
  | MPieceResponse piece_response
  | MTrackerAnnounce signed_record
  | MTrackerAnnounceAck bool bytes
  | MTrackerResolve u8 bytes32 u16
  | MTrackerResolveReply "signed_record list"
  | MTrackerWithdraw signed_record
  | MAvailabilityProbe bytes32
  | MAvailabilityAck bool u32 bool
  | MReleaseSystem bytes32

definition PING :: u32 where "PING = 0x0001"
definition PONG :: u32 where "PONG = 0x0002"
definition JOIN :: u32 where "JOIN = 0x0100"
definition FORWARD_JOIN :: u32 where "FORWARD_JOIN = 0x0101"
definition NEIGHBOR :: u32 where "NEIGHBOR = 0x0102"
definition NEIGHBOR_REPLY :: u32 where "NEIGHBOR_REPLY = 0x0103"
definition DISCONNECT :: u32 where "DISCONNECT = 0x0104"
definition SHUFFLE :: u32 where "SHUFFLE = 0x0105"
definition SHUFFLE_REPLY :: u32 where "SHUFFLE_REPLY = 0x0106"
definition MEMBER_SYNC :: u32 where "MEMBER_SYNC = 0x0107"
definition DIGEST :: u32 where "DIGEST = 0x010A"
definition PING_REQ :: u32 where "PING_REQ = 0x0108"
definition PING_REQ_ACK :: u32 where "PING_REQ_ACK = 0x0109"
definition PIECE_PUSH :: u32 where "PIECE_PUSH = 0x0012"
definition PIECE_PUSH_ACK :: u32 where "PIECE_PUSH_ACK = 0x0013"
definition OFFER :: u32 where "OFFER = 0x0014"
definition GRANT :: u32 where "GRANT = 0x0015"
definition PIECE_REQUEST :: u32 where "PIECE_REQUEST = 0x0010"
definition PIECE_RESPONSE :: u32 where "PIECE_RESPONSE = 0x0011"
definition TRACKER_ANNOUNCE :: u32 where "TRACKER_ANNOUNCE = 0x0200"
definition TRACKER_ANNOUNCE_ACK :: u32 where "TRACKER_ANNOUNCE_ACK = 0x0201"
definition TRACKER_RESOLVE :: u32 where "TRACKER_RESOLVE = 0x0202"
definition TRACKER_RESOLVE_REPLY :: u32 where "TRACKER_RESOLVE_REPLY = 0x0203"
definition TRACKER_WITHDRAW :: u32 where "TRACKER_WITHDRAW = 0x0204"
definition AVAILABILITY_PROBE :: u32 where "AVAILABILITY_PROBE = 0x0041"
definition AVAILABILITY_ACK :: u32 where "AVAILABILITY_ACK = 0x0042"
definition RELEASE_SYSTEM :: u32 where "RELEASE_SYSTEM = 0x0043"

fun type_tag :: "wire_message \<Rightarrow> u32" where
  "type_tag (MPing _) = PING"
| "type_tag (MPong _) = PONG"
| "type_tag (MJoin _) = JOIN"
| "type_tag (MForwardJoin _ _) = FORWARD_JOIN"
| "type_tag (MNeighbor _ _) = NEIGHBOR"
| "type_tag (MNeighborReply _) = NEIGHBOR_REPLY"
| "type_tag MDisconnect = DISCONNECT"
| "type_tag (MShuffle _ _ _) = SHUFFLE"
| "type_tag (MShuffleReply _ _) = SHUFFLE_REPLY"
| "type_tag (MMemberSync _) = MEMBER_SYNC"
| "type_tag (MDigest _) = DIGEST"
| "type_tag (MPingReq _ _) = PING_REQ"
| "type_tag (MPingReqAck _ _) = PING_REQ_ACK"
| "type_tag (MPiecePush _) = PIECE_PUSH"
| "type_tag (MPiecePushAck _ _) = PIECE_PUSH_ACK"
| "type_tag (MOffer _) = OFFER"
| "type_tag (MGrant _ _) = GRANT"
| "type_tag (MPieceRequest _ _ _) = PIECE_REQUEST"
| "type_tag (MPieceResponse _) = PIECE_RESPONSE"
| "type_tag (MTrackerAnnounce _) = TRACKER_ANNOUNCE"
| "type_tag (MTrackerAnnounceAck _ _) = TRACKER_ANNOUNCE_ACK"
| "type_tag (MTrackerResolve _ _ _) = TRACKER_RESOLVE"
| "type_tag (MTrackerResolveReply _) = TRACKER_RESOLVE_REPLY"
| "type_tag (MTrackerWithdraw _) = TRACKER_WITHDRAW"
| "type_tag (MAvailabilityProbe _) = AVAILABILITY_PROBE"
| "type_tag (MAvailabilityAck _ _ _) = AVAILABILITY_ACK"
| "type_tag (MReleaseSystem _) = RELEASE_SYSTEM"

definition known_tags :: "u32 list" where
  "known_tags = [PING, PONG, JOIN, FORWARD_JOIN, NEIGHBOR, NEIGHBOR_REPLY, DISCONNECT, SHUFFLE, SHUFFLE_REPLY, MEMBER_SYNC, DIGEST, PING_REQ, PING_REQ_ACK, PIECE_PUSH, PIECE_PUSH_ACK, OFFER, GRANT, PIECE_REQUEST, PIECE_RESPONSE, TRACKER_ANNOUNCE, TRACKER_ANNOUNCE_ACK, TRACKER_RESOLVE, TRACKER_RESOLVE_REPLY, TRACKER_WITHDRAW, AVAILABILITY_PROBE, AVAILABILITY_ACK, RELEASE_SYSTEM]"

lemmas tag_defs = PING_def PONG_def JOIN_def FORWARD_JOIN_def NEIGHBOR_def NEIGHBOR_REPLY_def DISCONNECT_def SHUFFLE_def SHUFFLE_REPLY_def MEMBER_SYNC_def DIGEST_def PING_REQ_def PING_REQ_ACK_def PIECE_PUSH_def PIECE_PUSH_ACK_def OFFER_def GRANT_def PIECE_REQUEST_def PIECE_RESPONSE_def TRACKER_ANNOUNCE_def TRACKER_ANNOUNCE_ACK_def TRACKER_RESOLVE_def TRACKER_RESOLVE_REPLY_def TRACKER_WITHDRAW_def AVAILABILITY_PROBE_def AVAILABILITY_ACK_def RELEASE_SYSTEM_def

section \<open>Frames\<close>

record frame =
  fr_version :: u8
  fr_hlc_ts :: u64
  fr_message :: wire_message

datatype wire_error = TooShort nat | BadVersion u8 | LengthMismatch nat nat | TooLarge nat | UnknownType u32 | Malformed u32

definition encode_frame :: "(wire_message \<Rightarrow> bytes) \<Rightarrow> wire_message \<Rightarrow> u64 \<Rightarrow> bytes" where
  "encode_frame enc m ts = (let payload = (if m = MDisconnect then [] else enc m) in
     be_bytes 4 (type_tag m) @ [WIRE_VERSION] @ be_bytes 8 ts @ be_bytes 4 (of_nat (length payload) :: u32) @ payload)"

definition decode_body :: "(u32 \<Rightarrow> bytes \<Rightarrow> wire_message option) \<Rightarrow> u32 \<Rightarrow> bytes \<Rightarrow> wire_error + wire_message" where
  "decode_body dec t payload = (if t = DISCONNECT then Inr MDisconnect
     else if t \<in> set known_tags then (case dec t payload of None \<Rightarrow> Inl (Malformed t) | Some m \<Rightarrow> Inr m)
     else Inl (UnknownType t))"

definition decode_frame :: "(u32 \<Rightarrow> bytes \<Rightarrow> wire_message option) \<Rightarrow> bytes \<Rightarrow> wire_error + frame" where
  "decode_frame dec bs = (if length bs > MAX_MESSAGE_SIZE then Inl (TooLarge (length bs))
     else if length bs < HEADER_LEN then Inl (TooShort (length bs))
     else let t = of_be_bytes (take 4 bs); v = bs ! 4 in
       if v \<noteq> WIRE_VERSION then Inl (BadVersion v)
       else let ts = of_be_bytes (take 8 (drop 5 bs)); declared = unat (of_be_bytes (take 4 (drop 13 bs)) :: u32); payload = drop HEADER_LEN bs in
         if declared \<noteq> length payload then Inl (LengthMismatch declared (length payload))
         else case decode_body dec t payload of Inl e \<Rightarrow> Inl e
           | Inr m \<Rightarrow> Inr \<lparr>fr_version = v, fr_hlc_ts = ts, fr_message = m\<rparr>)"

section \<open>Clock skew\<close>

datatype skew = SkewOk | WarnAccept u64 | Reject u64

definition check_skew :: "u64 \<Rightarrow> u64 \<Rightarrow> bool \<Rightarrow> skew" where
  "check_skew local_hlc remote_hlc strict =
     (let skew_ms = abs_diff (drop_bit 16 local_hlc) (drop_bit 16 remote_hlc) in
      if skew_ms \<le> MAX_SKEW_MS then SkewOk else if strict then Reject skew_ms else WarnAccept skew_ms)"

section \<open>Framing\<close>

text \<open>What postcard documents of the bodies: one decodes, under its own tag, to itself, and a tag yields messages of that tag.\<close>

definition codec_ok :: "(wire_message \<Rightarrow> bytes) \<Rightarrow> (u32 \<Rightarrow> bytes \<Rightarrow> wire_message option) \<Rightarrow> wire_message \<Rightarrow> bool" where
  "codec_ok enc dec m \<longleftrightarrow> (m \<noteq> MDisconnect \<longrightarrow> dec (type_tag m) (enc m) = Some m)
     \<and> (\<forall>t p m. t \<in> set known_tags \<longrightarrow> t \<noteq> DISCONNECT \<longrightarrow> dec t p = Some m \<longrightarrow> type_tag m = t)"

lemma type_tag_known: "type_tag m \<in> set known_tags"
  by (cases m) (simp_all add: known_tags_def)

lemma known_tags_distinct: "distinct known_tags"
  by (simp add: known_tags_def tag_defs)

lemma type_tag_disconnect: "type_tag m = DISCONNECT \<longleftrightarrow> m = MDisconnect"
  by (cases m) (simp_all add: tag_defs)

definition payload_of :: "(wire_message \<Rightarrow> bytes) \<Rightarrow> wire_message \<Rightarrow> bytes" where
  "payload_of enc m = (if m = MDisconnect then [] else enc m)"

lemma encode_frame_eq: "encode_frame enc m ts
   = be_bytes 4 (type_tag m) @ WIRE_VERSION # be_bytes 8 ts @ be_bytes 4 (of_nat (length (payload_of enc m)) :: u32) @ payload_of enc m"
  by (simp add: encode_frame_def payload_of_def Let_def)

lemma frame_parts:
  fixes t :: u32 and ts :: u64 and n :: u32 and v :: u8 and p :: bytes
  defines "bs \<equiv> be_bytes 4 t @ v # be_bytes 8 ts @ be_bytes 4 n @ p"
  shows "of_be_bytes (take 4 bs) = t" "bs ! 4 = v" "of_be_bytes (take 8 (drop 5 bs)) = ts" "of_be_bytes (take 4 (drop 13 bs)) = n"
    "drop HEADER_LEN bs = p" "length bs = HEADER_LEN + length p"
  by (simp_all add: bs_def HEADER_LEN_def nth_append drop_Cons' take_Cons')

text \<open>Every byte string of at least a header is such a sequence.\<close>

lemma frame_split:
  assumes "HEADER_LEN \<le> length bs"
  shows "bs = be_bytes 4 (of_be_bytes (take 4 bs) :: u32) @ bs ! 4 # be_bytes 8 (of_be_bytes (take 8 (drop 5 bs)) :: u64)
    @ be_bytes 4 (of_be_bytes (take 4 (drop 13 bs)) :: u32) @ drop HEADER_LEN bs"
proof -
  have l: "length bs \<ge> 17" using assms by (simp add: HEADER_LEN_def)
  then have "be_bytes 4 (of_be_bytes (take 4 bs) :: u32) = take 4 bs" "be_bytes 8 (of_be_bytes (take 8 (drop 5 bs)) :: u64) = take 8 (drop 5 bs)"
    "be_bytes 4 (of_be_bytes (take 4 (drop 13 bs)) :: u32) = take 4 (drop 13 bs)" by (simp_all add: be_bytes_of_be_bytes)
  moreover have "bs = take 4 bs @ bs ! 4 # take 8 (drop 5 bs) @ take 4 (drop 13 bs) @ drop 17 bs"
  proof -
    have "drop 13 bs = take 4 (drop 13 bs) @ drop 17 bs" using append_take_drop_id [of 4 "drop 13 bs"] by simp
    moreover have "drop 5 bs = take 8 (drop 5 bs) @ drop 13 bs" using append_take_drop_id [of 8 "drop 5 bs"] by simp
    moreover have "drop 4 bs = bs ! 4 # drop 5 bs" using Cons_nth_drop_Suc [of 4 bs] l by simp
    ultimately show ?thesis by (metis append_take_drop_id)
  qed
  ultimately show ?thesis by (simp add: HEADER_LEN_def)
qed


lemma unat_abs_diff: "unat (abs_diff a b) = max (unat a) (unat b) - min (unat a) (unat b)"
  by (auto simp: abs_diff_def unat_sub word_less_nat_alt word_le_nat_alt max_def min_def)

text \<open>A peer's clock is judged as the policy says: within the tolerance always accepted; beyond it rejected exactly on the strict
  paths; and whether a clock is ahead or behind does not matter.\<close>

theorem check_skew_spec:
  fixes l r :: u64
  defines "x \<equiv> unat (ts_millis l)" and "y \<equiv> unat (ts_millis r)"
  shows "(check_skew l r strict = SkewOk \<longleftrightarrow> x \<le> y + 500 \<and> y \<le> x + 500)
    \<and> (\<forall>k. check_skew l r strict = Reject k \<longrightarrow> strict \<and> unat k = max x y - min x y)
    \<and> (\<forall>k. check_skew l r strict = WarnAccept k \<longrightarrow> \<not> strict \<and> unat k = max x y - min x y)
    \<and> check_skew l r strict = check_skew r l strict"
proof -
  let ?d = "abs_diff (drop_bit 16 l) (drop_bit 16 r)"
  have d: "unat ?d = max x y - min x y"
    by (simp add: unat_abs_diff x_def y_def ts_millis_def max_def min_def)
  have sym: "?d = abs_diff (drop_bit 16 r) (drop_bit 16 l)" by (auto simp: abs_diff_def)
  have le: "?d \<le> MAX_SKEW_MS \<longleftrightarrow> x \<le> y + 500 \<and> y \<le> x + 500" by (auto simp: word_le_nat_alt MAX_SKEW_MS_def d max_def min_def)
  show ?thesis using d le unfolding check_skew_def Let_def sym [symmetric] by (auto split: if_splits)
qed

section \<open>Witnesses\<close>

definition probe_message :: wire_message where "probe_message = MAvailabilityProbe 7"

definition probe_dec :: "u32 \<Rightarrow> bytes \<Rightarrow> wire_message option" where
  "probe_dec t p = (if t = AVAILABILITY_PROBE then Some probe_message else None)"


theorem check_skew_spec_witness: "check_skew 0 (push_bit 16 501) True = Reject 501 \<and> check_skew (push_bit 16 501) 0 True = Reject 501"
proof -
  have "check_skew 0 (push_bit 16 501) True = Reject 501"
    by (simp add: check_skew_def abs_diff_def MAX_SKEW_MS_def Let_def push_bit_eq_mult drop_bit_eq_div word_less_nat_alt word_le_nat_alt)
  moreover have "check_skew 0 (push_bit 16 501) True = check_skew (push_bit 16 501) 0 True" using check_skew_spec by blast
  ultimately show ?thesis by simp
qed

end
