(* ===== verification/Membership.thy ===== *)
theory Membership
  imports Wire Latest_Wins BTree_Map
begin

text \<open>
  Partial-view membership, \<open>src/crates/membership/src/lib.rs\<close>: the active and passive views with their
  maintenance, SWIM probing with suspicion and refutation, the converged member map with its delta and
  digest gossip, and the message handler. One operation is one sequential run of its code with one reading
  \<open>now\<close> of the clock; the tasks that repeat the rounds, and their timers, are not part of the model. What
  the node does not control is in the environment of an operation: the answers of peers, pings, random
  choices and whether an endpoint can be rebound. Messages sent are logged in the state, and so is a panic.
\<close>

section \<open>Configuration\<close>

record config =
  active_size :: nat
  passive_size :: nat
  arwl :: u8
  prwl :: u8
  probe_failures :: u32
  indirect_probes :: nat
  suspect_timeout :: u64
  shuffle_sample :: nat
  dead_retention :: u64
  wedge_rebind :: u64

definition config_default :: config where
  "config_default = \<lparr>active_size = 5, passive_size = 30, arwl = 6, prwl = 3, probe_failures = 2, indirect_probes = 3,
     suspect_timeout = 6000, shuffle_sample = 8, dead_retention = 600000, wedge_rebind = 120000\<rparr>"

definition RECOVER_INTERVAL_MS :: u64 where "RECOVER_INTERVAL_MS = 15000"

definition EPIDEMIC_DEBOUNCE_MS :: u64 where "EPIDEMIC_DEBOUNCE_MS = 1000"

definition EPIDEMIC_FANOUT :: nat where "EPIDEMIC_FANOUT = 3"

definition GOSSIP_REPEATS :: u8 where "GOSSIP_REPEATS = 6"

record 'a environment =
  node_id :: "'a \<Rightarrow> bytes32"
  parse_addr :: "bytes \<Rightarrow> 'a option"
  show_addr :: "'a \<Rightarrow> bytes"
  my_addr :: 'a
  cfg :: config
  net :: "'a \<Rightarrow> wire_message \<Rightarrow> wire_message option"
  ping :: "nat \<Rightarrow> 'a \<Rightarrow> (u64 \<times> u64) option"
  pick :: "nat \<Rightarrow> nat"
  shuf :: "'a list \<Rightarrow> 'a list"
  one_in_three :: bool
  rebinds :: bool

definition my_id :: "'a environment \<Rightarrow> bytes32" where
  "my_id env = node_id env (my_addr env)"

text \<open>\<open>choose\<close> and \<open>shuffle\<close> of the random number library: some element, some permutation.\<close>

definition choose_one :: "'a environment \<Rightarrow> 'x list \<Rightarrow> 'x option" where
  "choose_one env xs = (if xs = [] then None else Some (xs ! (pick env (length xs) mod length xs)))"

definition shuffle_list :: "'a environment \<Rightarrow> 'a list \<Rightarrow> 'a list" where
  "shuffle_list env xs = (let ys = shuf env xs in if mset ys = mset xs then ys else xs)"

section \<open>Peers and members\<close>

record 'a peer_state =
  ps_addr :: 'a
  ps_alive :: bool
  rtt_us :: "u64 option"
  ps_skew_ms :: "u64 option"
  last_seen_unix :: "u64 option"
  consecutive_failures :: u32

definition peer_state_new :: "'a \<Rightarrow> 'a peer_state" where
  "peer_state_new a = \<lparr>ps_addr = a, ps_alive = False, rtt_us = None, ps_skew_ms = None, last_seen_unix = None, consecutive_failures = 0\<rparr>"

datatype member_state = Alive | Suspect | Dead

fun state_rank :: "member_state \<Rightarrow> u8" where
  "state_rank Alive = 0"
| "state_rank Suspect = 1"
| "state_rank Dead = 2"

definition state_to_u8 :: "member_state \<Rightarrow> u8" where
  "state_to_u8 st = state_rank st"

definition state_from_u8 :: "u8 \<Rightarrow> member_state" where
  "state_from_u8 v = (if v = 1 then Suspect else if v = 2 then Dead else Alive)"

record 'a mbr =
  m_addr :: 'a
  last_heard_ms :: u64
  incarnation :: u64
  m_state :: member_state
  suspect_since_ms :: "u64 option"

definition mbr_alive :: "'a \<Rightarrow> u64 \<Rightarrow> 'a mbr" where
  "mbr_alive a now = \<lparr>m_addr = a, last_heard_ms = now, incarnation = 0, m_state = Alive, suspect_since_ms = None\<rparr>"

definition set_liveness :: "u64 \<Rightarrow> member_state \<Rightarrow> u64 \<Rightarrow> 'a mbr \<Rightarrow> 'a mbr" where
  "set_liveness inc st now m = m\<lparr>incarnation := inc, m_state := st,
     suspect_since_ms := (case st of Suspect \<Rightarrow> Some (case suspect_since_ms m of Some t \<Rightarrow> t | None \<Rightarrow> now) | _ \<Rightarrow> None)\<rparr>"

type_synonym 'a member_map = "(bytes32, 'a mbr) btree"

record 'a membership =
  v_active :: "(bytes32, 'a peer_state) btree"
  v_passive :: "'a list"
  v_dead :: "(bytes32, 'a peer_state \<times> u64) btree"
  v_members :: "'a member_map"
  v_dirty :: "(bytes32, u8) btree"
  ms_bootstrap :: "'a list"
  last_recover_ms :: u64
  isolated_since_ms :: u64
  last_epidemic_ms :: u64
  ms_notified :: bool
  self_incarnation :: u64
  ms_outbox :: "('a \<times> wire_message) list"
  ms_panicked :: bool

definition membership_new :: "'a list \<Rightarrow> 'a membership" where
  "membership_new boot = \<lparr>v_active = [], v_passive = [], v_dead = [], v_members = [], v_dirty = [], ms_bootstrap = boot,
     last_recover_ms = 0, isolated_since_ms = 0, last_epidemic_ms = 0, ms_notified = False, self_incarnation = 0, ms_outbox = [], ms_panicked = False\<rparr>"

definition panic :: "'a membership \<Rightarrow> 'a membership" where
  "panic s = s\<lparr>ms_panicked := True\<rparr>"

definition mark_dirty :: "bytes32 \<Rightarrow> 'a membership \<Rightarrow> 'a membership" where
  "mark_dirty i s = s\<lparr>v_dirty := bt_insert i GOSSIP_REPEATS (v_dirty s)\<rparr>"

definition set_member :: "bytes32 \<Rightarrow> 'a mbr \<Rightarrow> 'a membership \<Rightarrow> 'a membership" where
  "set_member i m s = s\<lparr>v_members := bt_insert i m (v_members s)\<rparr>"

section \<open>The member map\<close>

definition member_entry_of :: "'a environment \<Rightarrow> bytes32 \<Rightarrow> 'a mbr \<Rightarrow> member_entry" where
  "member_entry_of env i m = \<lparr>me_id = i, me_addr = show_addr env (m_addr m), me_last_heard_ms = last_heard_ms m,
     me_incarnation = incarnation m, me_state = state_to_u8 (m_state m)\<rparr>"

definition merge_one :: "'a environment \<Rightarrow> u64 \<Rightarrow> 'a member_map \<Rightarrow> member_entry \<Rightarrow> bool \<times> 'a member_map" where
  "merge_one env now mm e = (case parse_addr env (me_addr e) of None \<Rightarrow> (False, mm) | Some a \<Rightarrow>
     let st = state_from_u8 (me_state e) in
     (case bt_get mm (me_id e) of
        Some m \<Rightarrow>
          let wins = me_incarnation e > incarnation m \<or> me_incarnation e = incarnation m \<and> state_rank st > state_rank (m_state m);
              m1 = (if wins then set_liveness (me_incarnation e) st now m else m);
              m2 = (if me_last_heard_ms e > last_heard_ms m1 then m1\<lparr>last_heard_ms := me_last_heard_ms e, m_addr := a\<rparr> else m1)
          in (wins, bt_insert (me_id e) m2 mm)
      | None \<Rightarrow> (True, bt_insert (me_id e) \<lparr>m_addr = a, last_heard_ms = me_last_heard_ms e, incarnation = me_incarnation e, m_state = st,
            suspect_since_ms = (if st = Suspect then Some now else None)\<rparr> mm)))"

definition refresh_self :: "'a environment \<Rightarrow> u64 \<Rightarrow> 'a membership \<Rightarrow> 'a membership" where
  "refresh_self env now s = set_member (my_id env)
     \<lparr>m_addr = my_addr env, last_heard_ms = now, incarnation = self_incarnation s, m_state = Alive, suspect_since_ms = None\<rparr> s"

definition member_entries :: "'a environment \<Rightarrow> 'a membership \<Rightarrow> member_entry list" where
  "member_entries env s = map (\<lambda>(i, m). member_entry_of env i m) (v_members s)"

definition merge_step :: "'a environment \<Rightarrow> u64 \<Rightarrow> member_entry \<Rightarrow> bool \<times> bool \<times> 'a membership \<Rightarrow> bool \<times> bool \<times> 'a membership" where
  "merge_step env now e acc = (case acc of (refute, dirtied, s) \<Rightarrow>
     if me_id e = my_id env
     then (if state_from_u8 (me_state e) \<noteq> Alive
           then (True, dirtied, s\<lparr>self_incarnation := sat_add (max (me_incarnation e) (self_incarnation s)) 1\<rparr>)
           else (refute, dirtied, s))
     else (case merge_one env now (v_members s) e of (changed, mm) \<Rightarrow>
        let s = s\<lparr>v_members := mm\<rparr> in if changed then (refute, True, mark_dirty (me_id e) s) else (refute, dirtied, s)))"

definition merge_members :: "'a environment \<Rightarrow> u64 \<Rightarrow> member_entry list \<Rightarrow> 'a membership \<Rightarrow> 'a membership" where
  "merge_members env now es s = (case fold (merge_step env now) es (False, False, s) of (refute, dirtied, s1) \<Rightarrow>
     let new_members = length (v_members s1) - length (v_members s);
         s2 = (if refute then mark_dirty (my_id env) (refresh_self env now s1) else s1)
     in if new_members > 0 \<or> dirtied \<or> refute
        then (if sat_sub now (last_epidemic_ms s2) \<ge> EPIDEMIC_DEBOUNCE_MS then s2\<lparr>last_epidemic_ms := now, ms_notified := True\<rparr> else s2)
        else s2)"

definition note_heard :: "'a environment \<Rightarrow> u64 \<Rightarrow> bytes32 \<Rightarrow> 'a membership \<Rightarrow> 'a membership" where
  "note_heard env now i s = (if i = my_id env then s
     else case bt_get (v_members s) i of
         Some m \<Rightarrow> set_member i (m\<lparr>last_heard_ms := now\<rparr>) s
       | None \<Rightarrow> (case bt_get (v_active s) i of
           Some p \<Rightarrow> mark_dirty i (set_member i (mbr_alive (ps_addr p) now) s)
         | None \<Rightarrow> s))"

definition prune_members :: "'a environment \<Rightarrow> u64 \<Rightarrow> 'a membership \<Rightarrow> 'a membership" where
  "prune_members env now s = s\<lparr>v_members := filter (\<lambda>(i, m). i = my_id env \<or> sat_sub now (last_heard_ms m) < dead_retention (cfg env)) (v_members s)\<rparr>"

definition census :: "'a environment \<Rightarrow> u64 \<Rightarrow> 'a membership \<Rightarrow> (bytes32 \<times> 'a) list" where
  "census env now s = (my_id env, my_addr env) # map (\<lambda>(i, m). (i, m_addr m))
     (filter (\<lambda>(i, m). i \<noteq> my_id env \<and> m_state m \<noteq> Dead \<and> sat_sub now (last_heard_ms m) < dead_retention (cfg env)) (v_members s))"

definition liveness_census :: "'a environment \<Rightarrow> u64 \<Rightarrow> 'a membership \<Rightarrow> (bytes32 \<times> 'a) list" where
  "liveness_census env now s = (my_id env, my_addr env) # map (\<lambda>(i, m). (i, m_addr m))
     (filter (\<lambda>(i, m). \<not> (i = my_id env \<or> bt_get (v_dead s) i \<noteq> None \<or> m_state m \<noteq> Alive)
        \<and> sat_sub now (last_heard_ms m) < dead_retention (cfg env)) (v_members s))"

definition member_addr :: "'a environment \<Rightarrow> bytes32 \<Rightarrow> 'a membership \<Rightarrow> 'a option" where
  "member_addr env i s = (if i = my_id env then Some (my_addr env) else map_option m_addr (bt_get (v_members s) i))"

definition digest_row :: "bytes32 \<times> u64 \<times> u8 \<Rightarrow> bytes" where
  "digest_row r = (case r of (i, inc, st) \<Rightarrow> be_bytes 32 i @ le_bytes 8 inc @ [st])"

definition digest_rows :: "'a membership \<Rightarrow> (bytes32 \<times> u64 \<times> u8) list" where
  "digest_rows s = sort (map (\<lambda>(i, m). (i, incarnation m, state_to_u8 (m_state m))) (filter (\<lambda>(i, m). m_state m \<noteq> Dead) (v_members s)))"

definition members_digest :: "(bytes \<Rightarrow> bytes32) \<Rightarrow> 'a membership \<Rightarrow> bytes32" where
  "members_digest hash s = hash (concat (map digest_row (digest_rows s)))"

section \<open>Sending\<close>

definition request_peer :: "'a environment \<Rightarrow> 'a \<Rightarrow> wire_message \<Rightarrow> 'a membership \<Rightarrow> wire_message option \<times> 'a membership" where
  "request_peer env peer msg s = (net env peer msg, s\<lparr>ms_outbox := ms_outbox s @ [(peer, msg)]\<rparr>)"

definition send_oneway :: "'a environment \<Rightarrow> 'a \<Rightarrow> wire_message \<Rightarrow> 'a membership \<Rightarrow> bool \<times> 'a membership" where
  "send_oneway env peer msg s = (case request_peer env peer msg s of (r, s1) \<Rightarrow> (r \<noteq> None, s1))"

definition sync_members_with :: "'a environment \<Rightarrow> u64 \<Rightarrow> 'a \<Rightarrow> 'a membership \<Rightarrow> 'a membership" where
  "sync_members_with env now peer s = (let s = refresh_self env now s in
     case request_peer env peer (MMemberSync (member_entries env s)) s of
         (Some (MMemberSync es), s1) \<Rightarrow> merge_members env now es s1
       | (_, s1) \<Rightarrow> s1)"

section \<open>The views\<close>

text \<open>\<open>Vec::swap_remove\<close>.\<close>

definition swap_remove :: "nat \<Rightarrow> 'x list \<Rightarrow> 'x list" where
  "swap_remove i xs = butlast (xs[i := last xs])"

text \<open>Drawing from an empty range panics.\<close>

definition push_passive :: "'a environment \<Rightarrow> 'a \<Rightarrow> nat \<Rightarrow> 'a list \<Rightarrow> 'a list option" where
  "push_passive env peer cap passive = (if list_ex (\<lambda>p. node_id env p = node_id env peer) passive then Some passive
     else if length passive \<ge> cap
          then (if passive = [] then None
                else Some (swap_remove (pick env (length passive) mod length passive) passive @ [peer]))
          else Some (passive @ [peer]))"

definition evict :: "'a environment \<Rightarrow> 'a membership \<Rightarrow> 'a option \<times> 'a membership" where
  "evict env s = (if length (v_active s) \<ge> active_size (cfg env)
     then (case choose_one env (map fst (v_active s)) of None \<Rightarrow> (None, s) | Some victim \<Rightarrow>
       (case bt_get (v_active s) victim of None \<Rightarrow> (None, s) | Some st \<Rightarrow>
         (case push_passive env (ps_addr st) (passive_size (cfg env)) (v_passive s) of
            None \<Rightarrow> (None, panic s)
          | Some p \<Rightarrow> (Some (ps_addr st), s\<lparr>v_active := bt_remove victim (v_active s), v_passive := p\<rparr>))))
     else (None, s))"

definition add_active :: "'a environment \<Rightarrow> 'a \<Rightarrow> 'a membership \<Rightarrow> 'a membership" where
  "add_active env peer s = (let i = node_id env peer in
     if i = my_id env then s
     else let s1 = s\<lparr>v_dead := bt_remove i (v_dead s), v_passive := filter (\<lambda>p. node_id env p \<noteq> i) (v_passive s)\<rparr> in
       (case bt_get (v_active s1) i of
          Some st \<Rightarrow> s1\<lparr>v_active := bt_insert i (st\<lparr>ps_addr := peer\<rparr>) (v_active s1)\<rparr>
        | None \<Rightarrow> (case evict env s1 of (evicted, s2) \<Rightarrow>
            let s3 = s2\<lparr>v_active := bt_insert i (peer_state_new peer) (v_active s2)\<rparr> in
            (case evicted of Some victim \<Rightarrow> snd (send_oneway env victim MDisconnect s3) | None \<Rightarrow> s3))))"

definition add_passive :: "'a environment \<Rightarrow> 'a \<Rightarrow> 'a membership \<Rightarrow> 'a membership" where
  "add_passive env peer s = (let i = node_id env peer in
     if i = my_id env then s
     else if bt_get (v_active s) i \<noteq> None then s
     else case push_passive env peer (passive_size (cfg env)) (v_passive s) of
         None \<Rightarrow> panic s | Some p \<Rightarrow> s\<lparr>v_passive := p\<rparr>)"

definition try_promote :: "'a environment \<Rightarrow> u64 \<Rightarrow> 'a \<Rightarrow> 'a membership \<Rightarrow> bool \<times> 'a membership" where
  "try_promote env now c s = (case request_peer env c (MNeighbor (show_addr env (my_addr env)) (v_active s = [])) s of
       (Some (MNeighborReply True), s1) \<Rightarrow> (True, sync_members_with env now c (add_active env c s1))
     | (_, s1) \<Rightarrow> (False, s1))"

definition join :: "'a environment \<Rightarrow> u64 \<Rightarrow> 'a \<Rightarrow> 'a membership \<Rightarrow> 'a membership" where
  "join env now contact s = (case send_oneway env contact (MJoin (show_addr env (my_addr env))) s of
       (True, s1) \<Rightarrow> sync_members_with env now contact (add_active env contact s1)
     | (False, s1) \<Rightarrow> s1)"

text \<open>A round of the loop takes one peer off the passive view, and promoting it puts none back.\<close>

lemma passive_sent [simp]: "v_passive (snd (send_oneway env p m s)) = v_passive s" "v_active (snd (send_oneway env p m s)) = v_active s"
  by (simp_all add: send_oneway_def request_peer_def)

lemma merge_step_views: "v_passive (snd (snd (merge_step env now e acc))) = v_passive (snd (snd acc))
    \<and> v_active (snd (snd (merge_step env now e acc))) = v_active (snd (snd acc))"
  by (auto simp: merge_step_def mark_dirty_def Let_def split: prod.split)

lemma merge_fold_views: "v_passive (snd (snd (fold (merge_step env now) es acc))) = v_passive (snd (snd acc))
    \<and> v_active (snd (snd (fold (merge_step env now) es acc))) = v_active (snd (snd acc))"
  by (induction es arbitrary: acc) (simp_all add: merge_step_views)

lemma merge_members_views [simp]: "v_passive (merge_members env now es s) = v_passive s" "v_active (merge_members env now es s) = v_active s"
  using merge_fold_views [of env now es "(False, False, s)"]
  by (auto simp: merge_members_def Let_def mark_dirty_def refresh_self_def set_member_def split: prod.split)

lemma sync_views [simp]: "v_passive (sync_members_with env now p s) = v_passive s" "v_active (sync_members_with env now p s) = v_active s"
  by (auto simp: sync_members_with_def Let_def request_peer_def refresh_self_def set_member_def split: prod.split option.split wire_message.split)

lemma promote_passive:
  "length (v_active s) < active_size (cfg env) \<Longrightarrow> length (v_passive (snd (try_promote env now c s))) \<le> length (v_passive s)"
  by (auto simp: try_promote_def request_peer_def add_active_def evict_def Let_def split: option.split wire_message.split bool.split)

function fill_active :: "'a environment \<Rightarrow> u64 \<Rightarrow> 'a membership \<Rightarrow> 'a membership" where
  "fill_active env now s = (if length (v_active s) \<ge> active_size (cfg env) \<or> v_passive s = [] then s
     else let p = shuffle_list env (v_passive s) in
       fill_active env now (snd (try_promote env now (last p) (s\<lparr>v_passive := butlast p\<rparr>))))"
  by pat_completeness auto
termination
proof (relation "measure (\<lambda>(env, now, s). length (v_passive s))", goal_cases)
  case (2 env now s p)
  have "length p = length (v_passive s)" using 2(2) by (auto simp: shuffle_list_def Let_def dest: mset_eq_length split: if_splits)
  moreover have "length (v_passive (snd (try_promote env now (last p) (s\<lparr>v_passive := butlast p\<rparr>)))) \<le> length (butlast p)"
    using 2(1) promote_passive [of "s\<lparr>v_passive := butlast p\<rparr>" env now "last p"] by simp
  ultimately show ?case using 2(1) by (cases "v_passive s") auto
qed simp

declare fill_active.simps [simp del]

definition seed_peers :: "'a environment \<Rightarrow> u64 \<Rightarrow> 'a list \<Rightarrow> 'a membership \<Rightarrow> 'a membership" where
  "seed_peers env now peers s = fill_active env now (fold (\<lambda>p s. if node_id env p \<noteq> my_id env then add_passive env p s else s) peers s)"

section \<open>Suspicion and death\<close>

definition suspect :: "u64 \<Rightarrow> bytes32 \<Rightarrow> 'a membership \<Rightarrow> 'a membership" where
  "suspect now i s = (case bt_get (v_members s) i of None \<Rightarrow> s | Some m \<Rightarrow>
     if m_state m = Alive then mark_dirty i (set_member i (set_liveness (incarnation m) Suspect now m) s) else s)"

definition mark_dead :: "'a environment \<Rightarrow> u64 \<Rightarrow> bytes32 \<Rightarrow> 'a membership \<Rightarrow> 'a membership" where
  "mark_dead env now i s = (let s1 = (case bt_get (v_members s) i of None \<Rightarrow> s
       | Some m \<Rightarrow> mark_dirty i (set_member i (set_liveness (incarnation m) Dead now m) s)) in
     case bt_get (v_active s1) i of None \<Rightarrow> s1
     | Some st \<Rightarrow> let p = shuffle_list env (v_passive s1);
           s2 = s1\<lparr>v_active := bt_remove i (v_active s1), v_dead := bt_insert i (st\<lparr>ps_alive := False\<rparr>, now) (v_dead s1), v_passive := butlast p\<rparr>
         in if p = [] then s2 else snd (try_promote env now (last p) s2))"

definition expired_suspects :: "'a environment \<Rightarrow> u64 \<Rightarrow> 'a membership \<Rightarrow> bytes32 list" where
  "expired_suspects env now s = map fst (filter (\<lambda>(i, m). m_state m = Suspect \<and>
     (case suspect_since_ms m of None \<Rightarrow> False | Some t \<Rightarrow> sat_sub now t \<ge> suspect_timeout (cfg env))) (v_members s))"

definition promote_suspects :: "'a environment \<Rightarrow> u64 \<Rightarrow> 'a membership \<Rightarrow> 'a membership" where
  "promote_suspects env now s = fold (mark_dead env now) (expired_suspects env now s) s"

definition indirect_probe :: "'a environment \<Rightarrow> bytes32 \<Rightarrow> 'a \<Rightarrow> 'a membership \<Rightarrow> bool \<times> 'a membership" where
  "indirect_probe env target a s = (let k = indirect_probes (cfg env) in
     if k = 0 then (False, s)
     else let helpers = map (m_addr \<circ> snd) (filter (\<lambda>(i, m). i \<noteq> my_id env \<and> i \<noteq> target \<and> m_state m = Alive) (v_members s)) in
       if helpers = [] then (False, s)
       else let hs = take k (shuffle_list env helpers); rq = MPingReq target (show_addr env a) in
         (list_ex (\<lambda>h. case net env h rq of Some (MPingReqAck t alive) \<Rightarrow> t = target \<and> alive | _ \<Rightarrow> False) hs,
          s\<lparr>ms_outbox := ms_outbox s @ map (\<lambda>h. (h, rq)) hs\<rparr>))"

section \<open>Periodic rounds\<close>

definition recover_isolated :: "'a environment \<Rightarrow> u64 \<Rightarrow> 'a membership \<Rightarrow> 'a membership" where
  "recover_isolated env now s = (if sat_sub now (last_recover_ms s) < RECOVER_INTERVAL_MS then s
     else let s1 = s\<lparr>last_recover_ms := now\<rparr> in
       case choose_one env (filter (\<lambda>p. node_id env p \<noteq> my_id env) (ms_bootstrap s1)) of
         Some seed \<Rightarrow> join env now seed s1 | None \<Rightarrow> s1)"

definition maybe_rebind_wedged :: "'a environment \<Rightarrow> u64 \<Rightarrow> 'a membership \<Rightarrow> 'a membership" where
  "maybe_rebind_wedged env now s = (if ms_bootstrap s = [] then s
     else if isolated_since_ms s = 0 then s\<lparr>isolated_since_ms := now\<rparr>
     else if sat_sub now (isolated_since_ms s) < wedge_rebind (cfg env) then s
     else let s1 = s\<lparr>isolated_since_ms := now\<rparr> in if rebinds env then s1\<lparr>last_recover_ms := 0\<rparr> else s1)"

definition drop_dead_active :: "u64 \<Rightarrow> 'a membership \<Rightarrow> 'a membership" where
  "drop_dead_active now s = fold (\<lambda>i s. case bt_get (v_active s) i of None \<Rightarrow> s
      | Some st \<Rightarrow> s\<lparr>v_active := bt_remove i (v_active s), v_dead := bt_insert i (st\<lparr>ps_alive := False\<rparr>, now) (v_dead s)\<rparr>)
     (filter (\<lambda>i. case bt_get (v_members s) i of Some m \<Rightarrow> m_state m = Dead | None \<Rightarrow> False) (map fst (v_active s))) s"

definition probe_ok :: "u64 \<Rightarrow> bytes32 \<Rightarrow> 'a \<Rightarrow> u64 \<times> u64 \<Rightarrow> 'a membership \<Rightarrow> 'a membership" where
  "probe_ok now i a report s =
     (let s1 = (case bt_get (v_active s) i of None \<Rightarrow> s
          | Some st \<Rightarrow> s\<lparr>v_active := bt_insert i (st\<lparr>ps_alive := True, rtt_us := Some (fst report), ps_skew_ms := Some (snd report),
              last_seen_unix := Some (now div 1000), consecutive_failures := 0\<rparr>) (v_active s)\<rparr>) in
      case bt_get (v_members s1) i of
        Some m \<Rightarrow> let m1 = m\<lparr>last_heard_ms := now, m_addr := a\<rparr> in
          set_member i (if m_state m1 = Suspect then set_liveness (incarnation m1) Alive now m1 else m1) s1
      | None \<Rightarrow> mark_dirty i (set_member i (mbr_alive a now) s1))"

definition count_failure :: "'a environment \<Rightarrow> bytes32 \<Rightarrow> 'a membership \<Rightarrow> bool \<times> 'a membership" where
  "count_failure env i s = (case bt_get (v_active s) i of None \<Rightarrow> (False, s) | Some st \<Rightarrow>
     (case checked_add (consecutive_failures st) 1 of None \<Rightarrow> (False, panic s)
      | Some n \<Rightarrow> (n \<ge> probe_failures (cfg env), s\<lparr>v_active := bt_insert i (st\<lparr>consecutive_failures := n\<rparr>) (v_active s)\<rparr>)))"

definition probe_failed :: "'a environment \<Rightarrow> u64 \<Rightarrow> bytes32 \<Rightarrow> 'a \<Rightarrow> 'a membership \<Rightarrow> 'a membership" where
  "probe_failed env now i a s = (case count_failure env i s of (hit, s1) \<Rightarrow>
     if \<not> hit then s1
     else case indirect_probe env i a s1 of
         (True, s2) \<Rightarrow> note_heard env now i (case bt_get (v_active s2) i of None \<Rightarrow> s2
             | Some st \<Rightarrow> s2\<lparr>v_active := bt_insert i (st\<lparr>consecutive_failures := 0\<rparr>) (v_active s2)\<rparr>)
       | (False, s2) \<Rightarrow> suspect now i s2)"

definition probe_peer :: "'a environment \<Rightarrow> u64 \<Rightarrow> bytes32 \<times> 'a \<Rightarrow> 'a membership \<Rightarrow> 'a membership" where
  "probe_peer env now t s = (case t of (i, a) \<Rightarrow>
     (case ping env 0 a of Some r \<Rightarrow> probe_ok now i a r s
      | None \<Rightarrow> (case ping env 1 a of Some r \<Rightarrow> probe_ok now i a r s | None \<Rightarrow> probe_failed env now i a s)))"

definition probe_round :: "'a environment \<Rightarrow> u64 \<Rightarrow> 'a membership \<Rightarrow> 'a membership" where
  "probe_round env now s =
     (let s1 = fill_active env now (drop_dead_active now (promote_suspects env now s));
          s2 = (if v_active s1 = [] then maybe_rebind_wedged env now (recover_isolated env now s1) else s1\<lparr>isolated_since_ms := 0\<rparr>)
      in fold (probe_peer env now) (map (\<lambda>(i, st). (i, ps_addr st)) (v_active s2)) s2)"

definition add_samples :: "'a environment \<Rightarrow> bytes list \<Rightarrow> 'a membership \<Rightarrow> 'a membership" where
  "add_samples env infos s = fold (\<lambda>b s. case parse_addr env b of Some a \<Rightarrow> add_passive env a s | None \<Rightarrow> s) infos s"

definition shuffle_target :: "'a environment \<Rightarrow> 'a membership \<Rightarrow> 'a option" where
  "shuffle_target env s = (if v_passive s \<noteq> [] \<and> one_in_three env then choose_one env (v_passive s)
     else choose_one env (map (ps_addr \<circ> snd) (v_active s)))"

definition shuffle_pool :: "'a environment \<Rightarrow> 'a \<Rightarrow> 'a membership \<Rightarrow> bytes list" where
  "shuffle_pool env target s = map (show_addr env) (take (shuffle_sample (cfg env)) (shuffle_list env
     (filter (\<lambda>a. node_id env a \<noteq> node_id env target) (map (ps_addr \<circ> snd) (v_active s)) @ v_passive s)))"

definition shuffle_round :: "'a environment \<Rightarrow> u64 \<Rightarrow> 'a membership \<Rightarrow> 'a membership" where
  "shuffle_round env now s = (let s1 = refresh_self env now s in
     case shuffle_target env s1 of None \<Rightarrow> s1
     | Some target \<Rightarrow> prune_members env now
         (case request_peer env target (MShuffle (show_addr env (my_addr env)) (shuffle_pool env target s1) []) s1 of
            (Some (MShuffleReply sample es), s2) \<Rightarrow> merge_members env now es (add_samples env sample s2)
          | (_, s2) \<Rightarrow> s2))"

definition digest_round :: "'a environment \<Rightarrow> (bytes \<Rightarrow> bytes32) \<Rightarrow> u64 \<Rightarrow> 'a membership \<Rightarrow> 'a membership" where
  "digest_round env hash now s = (case choose_one env (map (ps_addr \<circ> snd) (v_active s)) of None \<Rightarrow> s
     | Some peer \<Rightarrow> let mine = members_digest hash s in
        (case request_peer env peer (MDigest mine) s of
           (Some (MDigest theirs), s1) \<Rightarrow> if theirs \<noteq> mine then sync_members_with env now peer s1 else s1
         | (_, s1) \<Rightarrow> s1))"

definition retire :: "bytes32 \<Rightarrow> (bytes32, u8) btree \<Rightarrow> (bytes32, u8) btree" where
  "retire i d = (case bt_get d i of None \<Rightarrow> d | Some c \<Rightarrow> let c' = sat_sub c 1 in
     if c' = 0 then bt_remove i d else bt_insert i c' d)"

definition take_delta :: "'a environment \<Rightarrow> 'a membership \<Rightarrow> member_entry list \<times> 'a membership" where
  "take_delta env s = (let ids = map fst (v_dirty s) in
     (List.map_filter (\<lambda>i. map_option (member_entry_of env i) (bt_get (v_members s) i)) ids, s\<lparr>v_dirty := fold retire ids (v_dirty s)\<rparr>))"

definition epidemic_push :: "'a environment \<Rightarrow> u64 \<Rightarrow> 'a membership \<Rightarrow> bool \<times> 'a membership" where
  "epidemic_push env now s = (let s1 = refresh_self env now s in
     if v_dirty s1 = [] then (False, s1)
     else case take_delta env s1 of (delta, s2) \<Rightarrow>
       if delta = [] then (False, s2)
       else let targets = take EPIDEMIC_FANOUT (shuffle_list env (map (ps_addr \<circ> snd) (v_active s2))) in
         (True, s2\<lparr>ms_outbox := ms_outbox s2 @ map (\<lambda>p. (p, MMemberSync delta)) targets\<rparr>))"

record 'a ms_snapshot =
  sn_active :: "(bytes32 \<times> 'a peer_state) list"
  sn_dead :: "(bytes32 \<times> 'a peer_state) list"
  passive_count :: nat

definition ms_snapshot_of :: "'a environment \<Rightarrow> u64 \<Rightarrow> 'a membership \<Rightarrow> 'a ms_snapshot \<times> 'a membership" where
  "ms_snapshot_of env now s =
     (let s1 = s\<lparr>v_dead := filter (\<lambda>(i, st, died). sat_sub now died < dead_retention (cfg env)) (v_dead s)\<rparr>;
          swim_dead = (\<lambda>i. case bt_get (v_members s1) i of Some m \<Rightarrow> m_state m = Dead | None \<Rightarrow> False);
          tomb = map (\<lambda>(i, st, died). (i, st)) (v_dead s1)
      in (\<lparr>sn_active = filter (\<lambda>(i, st). \<not> swim_dead i) (v_active s1),
           sn_dead = tomb @ map (\<lambda>(i, m). (i, peer_state_new (m_addr m)))
             (filter (\<lambda>(i, m). m_state m = Dead \<and> i \<notin> fst ` set tomb) (v_members s1)),
           passive_count = length (v_passive s1)\<rparr>, s1))"

section \<open>Inbound messages\<close>

definition send_all :: "'a environment \<Rightarrow> 'a list \<Rightarrow> wire_message \<Rightarrow> 'a membership \<Rightarrow> 'a membership" where
  "send_all env ts msg s = fold (\<lambda>t s. snd (send_oneway env t msg s)) ts s"

definition other_actives :: "'a environment \<Rightarrow> 'a \<Rightarrow> 'a membership \<Rightarrow> 'a list" where
  "other_actives env origin s = filter (\<lambda>a. node_id env a \<noteq> node_id env origin) (map (ps_addr \<circ> snd) (v_active s))"

definition handle_join :: "'a environment \<Rightarrow> bytes \<Rightarrow> 'a membership \<Rightarrow> 'a membership" where
  "handle_join env b s = (case parse_addr env b of None \<Rightarrow> s | Some origin \<Rightarrow>
     send_all env (other_actives env origin s) (MForwardJoin b (arwl (cfg env))) (add_active env origin s))"

definition handle_forward_join :: "'a environment \<Rightarrow> bytes \<Rightarrow> u8 \<Rightarrow> 'a membership \<Rightarrow> 'a membership" where
  "handle_forward_join env b ttl s = (case parse_addr env b of None \<Rightarrow> s | Some origin \<Rightarrow>
     if node_id env origin = my_id env then s
     else if ttl = 0 \<or> length (v_active s) \<le> 1
     then snd (request_peer env origin (MNeighbor (show_addr env (my_addr env)) False) (add_active env origin s))
     else let s1 = (if ttl = prwl (cfg env) then add_passive env origin s else s) in
       (case choose_one env (other_actives env origin s1) of
          Some nxt \<Rightarrow> snd (send_oneway env nxt (MForwardJoin b (ttl - 1)) s1)
        | None \<Rightarrow> add_active env origin s1))"

definition handle_neighbor :: "'a environment \<Rightarrow> bytes \<Rightarrow> bool \<Rightarrow> 'a membership \<Rightarrow> wire_message option \<times> 'a membership" where
  "handle_neighbor env b high s = (case parse_addr env b of None \<Rightarrow> (None, s) | Some origin \<Rightarrow>
     let accept = high \<or> length (v_active s) < active_size (cfg env) in
     (Some (MNeighborReply accept), if accept then add_active env origin s else add_passive env origin s))"

definition handle_shuffle :: "'a environment \<Rightarrow> u64 \<Rightarrow> bytes \<Rightarrow> bytes list \<Rightarrow> member_entry list \<Rightarrow> 'a membership \<Rightarrow> wire_message option \<times> 'a membership" where
  "handle_shuffle env now b sample es s =
     (let reply = map (show_addr env) (take (max (length sample) 1) (shuffle_list env (v_passive s)));
          s1 = add_samples env [b] (add_samples env sample s)
      in (Some (MShuffleReply reply []), refresh_self env now (merge_members env now es s1)))"

fun handle_message :: "'a environment \<Rightarrow> (bytes \<Rightarrow> bytes32) \<Rightarrow> u64 \<Rightarrow> wire_message \<Rightarrow> 'a membership \<Rightarrow> wire_message option \<times> 'a membership" where
  "handle_message env hash now (MJoin b) s = (None, handle_join env b s)"
| "handle_message env hash now (MForwardJoin b ttl) s = (None, handle_forward_join env b ttl s)"
| "handle_message env hash now (MNeighbor b high) s = handle_neighbor env b high s"
| "handle_message env hash now MDisconnect s = (None, s)"
| "handle_message env hash now (MShuffle b sample es) s = handle_shuffle env now b sample es s"
| "handle_message env hash now (MMemberSync es) s =
     (let s1 = refresh_self env now (merge_members env now es s) in (Some (MMemberSync (member_entries env s1)), s1))"
| "handle_message env hash now (MDigest h) s = (Some (MDigest (members_digest hash s)), s)"
| "handle_message env hash now (MPingReq target b) s =
     (Some (MPingReqAck target (case parse_addr env b of Some a \<Rightarrow> ping env 0 a \<noteq> None | None \<Rightarrow> False)), s)"
| "handle_message env hash now _ s = (None, s)"

definition MAX_FRAME :: nat where "MAX_FRAME = 64 * 1024"

text \<open>What arrives on a stream: a frame that decodes shows its authenticated sender alive. The payload codec is a parameter, and the
  merge of the frame's time into the clock is \<open>clock_merge_with\<close> of the clock's theory.\<close>

definition handle_stream :: "'a environment \<Rightarrow> (u32 \<Rightarrow> bytes \<Rightarrow> wire_message option) \<Rightarrow> (bytes \<Rightarrow> bytes32) \<Rightarrow> u64 \<Rightarrow> bytes32 \<Rightarrow> bytes
    \<Rightarrow> 'a membership \<Rightarrow> wire_message option \<times> 'a membership" where
  "handle_stream env dec hash now sender b s = (if length b > MAX_FRAME then (None, s)
     else case decode_frame dec b of Inl err \<Rightarrow> (None, s)
       | Inr f \<Rightarrow> handle_message env hash now (fr_message f) (note_heard env now sender s))"

end
