(* ===== verification/Membership_Laws.thy ===== *)
theory Membership_Laws
  imports Membership
begin

text \<open>
  What membership promises: the member map converges and a live node can refute its death, short of the
  greatest incarnation; equal digests mean equal censuses; a change is gossiped a fixed number of times; and
  the views keep their bounds through every operation.
\<close>

section \<open>Convergence of the member map\<close>

definition liveness :: "'a member_map \<Rightarrow> bytes32 \<Rightarrow> (u64 \<times> u8) option" where
  "liveness mm i = map_option (\<lambda>m. (incarnation m, state_rank (m_state m))) (bt_get mm i)"

definition entry_rank :: "member_entry \<Rightarrow> u64 \<times> u8" where
  "entry_rank e = (me_incarnation e, state_rank (state_from_u8 (me_state e)))"

lemma set_liveness_simps [simp]:
  "incarnation (set_liveness inc st now m) = inc" "m_state (set_liveness inc st now m) = st"
  "m_addr (set_liveness inc st now m) = m_addr m" "last_heard_ms (set_liveness inc st now m) = last_heard_ms m"
  by (simp_all add: set_liveness_def)

lemma liveness_insert [simp]: "liveness (bt_insert i m mm) k = (if k = i then Some (incarnation m, state_rank (m_state m)) else liveness mm k)"
  by (simp add: liveness_def)

lemma merge_one_liveness:
  "liveness (snd (merge_one env now mm e)) k = (if k = me_id e \<and> parse_addr env (me_addr e) \<noteq> None
     then Some (case liveness mm k of None \<Rightarrow> entry_rank e | Some r \<Rightarrow> max r (entry_rank e)) else liveness mm k)"
proof (cases "parse_addr env (me_addr e)")
  case (Some a)
  show ?thesis
  proof (cases "bt_get mm (me_id e)")
    case None
    then show ?thesis using Some by (simp add: merge_one_def Let_def mbr_alive_def) (simp add: liveness_def entry_rank_def)
  next
    case (Some m)
    have "liveness mm (me_id e) = Some (incarnation m, state_rank (m_state m))" using Some by (simp add: liveness_def)
    then show ?thesis using Some \<open>parse_addr env (me_addr e) = Some a\<close>
      by (auto simp: merge_one_def Let_def entry_rank_def max_def)
  qed
qed (simp add: merge_one_def)

interpretation swim: max_register me_id entry_rank "\<lambda>e. parse_addr env (me_addr e) \<noteq> None \<and> me_id e \<noteq> my_id env" "\<lambda>acc. True"
    "\<lambda>acc. liveness (v_members (snd (snd acc)))" "merge_step env now" for env now
proof unfold_locales
  fix acc :: "bool \<times> bool \<times> 'a membership" and e and k
  obtain b c s where acc: "acc = (b, c, s)" by (cases acc)
  show "liveness (v_members (snd (snd (merge_step env now e acc)))) k =
      (if k = me_id e \<and> parse_addr env (me_addr e) \<noteq> None \<and> me_id e \<noteq> my_id env
       then Some (case liveness (v_members (snd (snd acc))) k of None \<Rightarrow> entry_rank e | Some m \<Rightarrow> max m (entry_rank e))
       else liveness (v_members (snd (snd acc))) k)"
    using merge_one_liveness [of env now "v_members s" e k]
    by (auto simp: acc merge_step_def mark_dirty_def Let_def split: prod.split)
qed simp

lemma merge_members_other:
  assumes "i \<noteq> my_id env"
  shows "bt_get (v_members (merge_members env now es s)) i = bt_get (v_members (snd (snd (fold (merge_step env now) es (False, False, s))))) i"
  using assms by (auto simp: merge_members_def Let_def mark_dirty_def refresh_self_def set_member_def split: prod.split)

text \<open>A node with one-byte addresses, for concrete runs.\<close>

definition node_env :: "u8 \<Rightarrow> u8 environment" where
  "node_env a = \<lparr>node_id = ucast, parse_addr = (\<lambda>b. if length b = 1 then Some (hd b) else None), show_addr = (\<lambda>a. [a]), my_addr = a,
     cfg = config_default, net = (\<lambda>_ _. None), ping = (\<lambda>_ _. None), pick = (\<lambda>_. 0), shuf = id, one_in_three = False, rebinds = False\<rparr>"

lemma node_env_simps [simp]:
  "my_id (node_env a) = ucast a" "parse_addr (node_env a) [b] = Some b" "show_addr (node_env a) b = [b]" "node_id (node_env a) = ucast"
  "my_addr (node_env a) = a" "cfg (node_env a) = config_default"
  by (simp_all add: node_env_def my_id_def)

definition said :: "bytes32 \<Rightarrow> u64 \<Rightarrow> u8 \<Rightarrow> member_entry" where
  "said i inc st = \<lparr>me_id = i, me_addr = [ucast i], me_last_heard_ms = 5, me_incarnation = inc, me_state = st\<rparr>"

text \<open>(C14) The member map converges: two nodes that hold the same liveness and merge the same entries, in any order and number
  and at any time, agree on the incarnation and state of every third member, which is the highest seen.\<close>

theorem swim_converges:
  fixes s t :: "'a membership"
  assumes "parse_addr env = parse_addr env'" "set es = set fs" "\<forall>i. liveness (v_members s) i = liveness (v_members t) i"
    and "i \<noteq> my_id env" "i \<noteq> my_id env'"
  shows "liveness (v_members (merge_members env now es s)) i = liveness (v_members (merge_members env' now' fs t)) i
    \<and> liveness (v_members (merge_members env now es s)) i
      = best (set_option (liveness (v_members s) i) \<union> entry_rank ` {e \<in> set es. me_id e = i \<and> parse_addr env (me_addr e) \<noteq> None})"
proof -
  have best: "liveness (v_members (merge_members env now es s)) i
      = best (set_option (liveness (v_members s) i) \<union> entry_rank ` {e \<in> set es. me_id e = i \<and> parse_addr env (me_addr e) \<noteq> None})"
    if i: "i \<noteq> my_id env" for env now es and s :: "'a membership"
  proof -
    have "best (set_option o') = o'" for o' :: "(u64 \<times> u8) option" by (cases o') simp_all
    then have "liveness (v_members (snd (snd (fold (merge_step env now) es (False, False, s))))) i
      = best (set_option (liveness (v_members s) i) \<union> entry_rank ` {e \<in> set es. me_id e = i \<and> parse_addr env (me_addr e) \<noteq> None \<and> me_id e \<noteq> my_id env})"
      using swim.rank_fold [where s = "(False, False, s)" and R = "set_option (liveness (v_members s) i)" and k = i and env = env and now = now and vs = es] by simp
    moreover have "{e \<in> set es. me_id e = i \<and> parse_addr env (me_addr e) \<noteq> None \<and> me_id e \<noteq> my_id env}
        = {e \<in> set es. me_id e = i \<and> parse_addr env (me_addr e) \<noteq> None}" using i by blast
    moreover have "liveness (v_members (merge_members env now es s)) i
        = liveness (v_members (snd (snd (fold (merge_step env now) es (False, False, s))))) i"
      unfolding liveness_def merge_members_other [OF i] ..
    ultimately show ?thesis by simp
  qed
  show ?thesis using best [OF assms(4), of now es s] best [OF assms(5), of now' fs t] assms(1-3) by simp
qed

theorem swim_converges_witness:
  "liveness (v_members (merge_members (node_env 1) 7 [said 3 4 1, said 3 4 0] (membership_new []))) 3
    = liveness (v_members (merge_members (node_env 2) 9 [said 3 4 0, said 3 4 1, said 3 4 0] (membership_new []))) 3"
  using swim_converges [of "node_env 1" "node_env 2" "[said 3 4 1, said 3 4 0]" "[said 3 4 0, said 3 4 1, said 3 4 0]" "membership_new []" "membership_new []" 3 7 9]
  by (simp add: node_env_def my_id_def insert_commute)

section \<open>Refutation\<close>

lemma state_from_to [simp]: "state_from_u8 (state_rank st) = st"
  by (cases st) (simp_all add: state_from_u8_def)

lemma less_sat_succ: "x \<noteq> - 1 \<Longrightarrow> x \<le> y \<Longrightarrow> x < sat_add y 1" for x y :: u64
proof -
  assume "x \<noteq> - 1" "x \<le> y"
  have "unat x < 2 ^ LENGTH(64)" by (rule unsigned_less)
  then have "unat x < 2 ^ 64 - 1" using \<open>x \<noteq> - 1\<close> by (simp add: word_unat_eq_iff unat_max_word)
  then show ?thesis using \<open>x \<le> y\<close> by (simp add: word_less_nat_alt word_le_nat_alt u_simps)
qed

lemma le_sat_succ: "y \<le> sat_add y 1" for y :: u64
proof -
  have "unat y < 2 ^ LENGTH(64)" by (rule unsigned_less)
  then show ?thesis by (simp add: word_le_nat_alt u_simps)
qed

lemma merge_step_self:
  "fst acc \<Longrightarrow> fst (merge_step env now e acc)"
  "self_incarnation (snd (snd acc)) \<le> self_incarnation (snd (snd (merge_step env now e acc)))"
  "me_id e = my_id env \<Longrightarrow> state_from_u8 (me_state e) \<noteq> Alive \<Longrightarrow> fst (merge_step env now e acc)"
  "me_id e = my_id env \<Longrightarrow> state_from_u8 (me_state e) \<noteq> Alive \<Longrightarrow> me_incarnation e \<noteq> - 1
    \<Longrightarrow> me_incarnation e < self_incarnation (snd (snd (merge_step env now e acc)))"
proof -
  obtain b c s where acc: "acc = (b, c, s)" by (cases acc)
  show "fst acc \<Longrightarrow> fst (merge_step env now e acc)" by (simp add: acc merge_step_def Let_def split: prod.split)
  have "self_incarnation s \<le> max (me_incarnation e) (self_incarnation s)" by simp
  then have "self_incarnation s \<le> sat_add (max (me_incarnation e) (self_incarnation s)) 1" using le_sat_succ order_trans by blast
  then show "self_incarnation (snd (snd acc)) \<le> self_incarnation (snd (snd (merge_step env now e acc)))"
    by (simp add: acc merge_step_def mark_dirty_def Let_def split: prod.split)
  show "fst (merge_step env now e acc)" if "me_id e = my_id env" "state_from_u8 (me_state e) \<noteq> Alive"
    using that by (simp add: acc merge_step_def)
  show "me_incarnation e < self_incarnation (snd (snd (merge_step env now e acc)))"
    if "me_id e = my_id env" "state_from_u8 (me_state e) \<noteq> Alive" "me_incarnation e \<noteq> - 1"
    using that less_sat_succ [of "me_incarnation e" "max (me_incarnation e) (self_incarnation s)"] by (simp add: acc merge_step_def)
qed

lemma merge_fold_self:
  "fst acc \<Longrightarrow> fst (fold (merge_step env now) es acc)"
  "self_incarnation (snd (snd acc)) \<le> self_incarnation (snd (snd (fold (merge_step env now) es acc)))"
proof (induction es arbitrary: acc)
  case (Cons e es)
  { case 1 then show ?case using Cons.IH(1) [OF merge_step_self(1)] by simp next
    case 2 show ?case using Cons.IH(2) [of "merge_step env now e acc"] merge_step_self(2) [of acc env now e] by simp }
qed simp_all

lemma merge_fold_refutes:
  assumes "e \<in> set es" "me_id e = my_id env" "state_from_u8 (me_state e) \<noteq> Alive"
  shows "fst (fold (merge_step env now) es acc)"
    and "me_incarnation e \<noteq> - 1 \<Longrightarrow> me_incarnation e < self_incarnation (snd (snd (fold (merge_step env now) es acc)))"
proof -
  obtain as bs where es: "es = as @ e # bs" using assms(1) split_list by metis
  let ?a = "merge_step env now e (fold (merge_step env now) as acc)"
  show "fst (fold (merge_step env now) es acc)" using merge_fold_self(1) [OF merge_step_self(3) [OF assms(2,3)]] by (simp add: es)
  assume "me_incarnation e \<noteq> - 1"
  then have "me_incarnation e < self_incarnation (snd (snd ?a))" by (rule merge_step_self(4) [OF assms(2,3)])
  then show "me_incarnation e < self_incarnation (snd (snd (fold (merge_step env now) es acc)))"
    using merge_fold_self(2) [of ?a env now bs] by (simp add: es)
qed

lemma refute_self:
  assumes "fst (fold (merge_step env now) es (False, False, s))"
  defines "s1 \<equiv> snd (snd (fold (merge_step env now) es (False, False, s)))"
  shows "bt_get (v_members (merge_members env now es s)) (my_id env)
      = Some \<lparr>m_addr = my_addr env, last_heard_ms = now, incarnation = self_incarnation s1, m_state = Alive, suspect_since_ms = None\<rparr>"
    and "bt_get (v_dirty (merge_members env now es s)) (my_id env) = Some GOSSIP_REPEATS"
  using assms by (auto simp: merge_members_def Let_def mark_dirty_def refresh_self_def set_member_def split: prod.split)

lemma merge_members_singleton:
  assumes "me_id e \<noteq> my_id env" "parse_addr env (me_addr e) \<noteq> None"
  shows "liveness (v_members (merge_members env now [e] s)) (me_id e)
    = Some (case liveness (v_members s) (me_id e) of None \<Rightarrow> entry_rank e | Some r \<Rightarrow> max r (entry_rank e))"
  using swim.rank_put [where s = "(False, False, s)" and v = e and k = "me_id e" and env = env and now = now] assms
  unfolding liveness_def merge_members_other [OF assms(1)] by simp

text \<open>(C30) Refutation: a node that hears itself called suspect or dead, at an incarnation that can still grow, records itself alive
  at a higher incarnation and marks that for gossip, and the record overrides what any peer holds of the claim.\<close>

theorem refutation_wins:
  assumes "e \<in> set es" "me_id e = my_id env" "state_from_u8 (me_state e) \<noteq> Alive" "me_incarnation e \<noteq> - 1"
    and "my_id env' \<noteq> my_id env" "parse_addr env' (show_addr env (my_addr env)) \<noteq> None"
    and "liveness (v_members t) (my_id env) = Some (me_incarnation e, r)"
  shows "\<exists>m. bt_get (v_members (merge_members env now es s)) (my_id env) = Some m \<and> m_state m = Alive \<and> me_incarnation e < incarnation m
    \<and> bt_get (v_dirty (merge_members env now es s)) (my_id env) = Some GOSSIP_REPEATS
    \<and> liveness (v_members (merge_members env' now' [member_entry_of env (my_id env) m] t)) (my_id env) = Some (incarnation m, 0)"
proof -
  note f = merge_fold_refutes [OF assms(1-3), of now "(False, False, s)"]
  define m where "m = \<lparr>m_addr = my_addr env, last_heard_ms = now,
    incarnation = self_incarnation (snd (snd (fold (merge_step env now) es (False, False, s)))), m_state = Alive, suspect_since_ms = None\<rparr>"
  have less: "me_incarnation e < incarnation m" using f(2) [OF assms(4)] by (simp add: m_def)
  let ?e = "member_entry_of env (my_id env) m"
  have id: "me_id ?e = my_id env" and rank: "entry_rank ?e = (incarnation m, 0)"
    by (simp_all add: member_entry_of_def entry_rank_def state_to_u8_def m_def del: state_rank.simps) simp
  have "me_id ?e \<noteq> my_id env'" "parse_addr env' (me_addr ?e) \<noteq> None"
    using assms(5,6) by (auto simp: member_entry_of_def m_def)
  note merge_members_singleton [OF this, of now' t]
  then have "liveness (v_members (merge_members env' now' [?e] t)) (my_id env) = Some (incarnation m, 0)"
    unfolding id rank using assms(7) less by (simp add: max_def)
  then show ?thesis using refute_self [OF f(1)] less unfolding m_def by simp
qed

theorem refutation_wins_witness:
  "\<exists>m. bt_get (v_members (merge_members (node_env 3) 7 [said 3 4 2] (membership_new []))) 3 = Some m \<and> m_state m = Alive \<and> 4 < incarnation m
    \<and> liveness (v_members (merge_members (node_env 1) 9 [member_entry_of (node_env 3) 3 m] ((membership_new [])\<lparr>v_members := [(3, \<lparr>m_addr = 3, last_heard_ms = 1,
      incarnation = 4, m_state = Dead, suspect_since_ms = None\<rparr>)]\<rparr>))) 3 = Some (incarnation m, 0)"
  using refutation_wins [of "said 3 4 2" "[said 3 4 2]" "node_env 3" "node_env 1" "(membership_new [])\<lparr>v_members := [(3, \<lparr>m_addr = 3, last_heard_ms = 1,
      incarnation = 4, m_state = Dead, suspect_since_ms = None\<rparr>)]\<rparr>" 2 7 "membership_new []" 9]
  by (simp add: said_def state_from_u8_def liveness_def) blast

text \<open>A claim that a node is dead at the greatest incarnation is never refuted: whatever is merged after it, the node's own
  record included, the member stays dead and out of the census.\<close>

theorem dead_at_max_is_final:
  assumes "bt_inv (v_members s)" "liveness (v_members s) i = Some (- 1, 2)" "i \<noteq> my_id env"
  shows "liveness (v_members (merge_members env now es s)) i = Some (- 1, 2) \<and> i \<notin> fst ` set (census env now' (merge_members env now es s))"
proof -
  have "state_rank st \<le> 2" for st by (cases st) (simp_all add: word_le_nat_alt)
  then have top: "max (- 1, 2) (entry_rank e) = (- 1, 2)" for e
    using word_order.extremum [of "me_incarnation e"] by (intro max_absorb1) (auto simp: entry_rank_def order_le_less)
  have "liveness (v_members (snd (snd (fold (merge_step env now) es acc)))) i = Some (- 1, 2) \<and> bt_inv (v_members (snd (snd (fold (merge_step env now) es acc))))"
    if "liveness (v_members (snd (snd acc))) i = Some (- 1, 2)" "bt_inv (v_members (snd (snd acc)))" for acc
    using that
  proof (induction es arbitrary: acc)
    case (Cons e es)
    have "bt_inv (v_members (snd (snd (merge_step env now e acc))))"
      using Cons.prems(2) by (auto simp: merge_step_def merge_one_def mark_dirty_def Let_def split: prod.split option.split)
    moreover have "liveness (v_members (snd (snd (merge_step env now e acc)))) i = Some (- 1, 2)"
      using swim.rank_put [where s = acc and v = e and k = i and env = env and now = now] Cons.prems(1) top by auto
    ultimately show ?case using Cons.IH by simp
  qed simp
  note this [of "(False, False, s)"]
  moreover have "liveness (v_members (merge_members env now es s)) i = liveness (v_members (snd (snd (fold (merge_step env now) es (False, False, s))))) i"
    unfolding liveness_def merge_members_other [OF assms(3)] ..
  moreover have "bt_inv (v_members (merge_members env now es s))" if "bt_inv (v_members (snd (snd (fold (merge_step env now) es (False, False, s)))))"
    using that by (auto simp: merge_members_def Let_def mark_dirty_def refresh_self_def set_member_def split: prod.split)
  ultimately have inv: "bt_inv (v_members (merge_members env now es s))"
    and dead: "liveness (v_members (merge_members env now es s)) i = Some (- 1, 2)" using assms by auto
  have "m_state m = Dead" if "(i, m) \<in> set (v_members (merge_members env now es s))" for m
    using dead that inv by (cases "m_state m") (simp_all add: liveness_def flip: bt_get_Some_iff)
  then show ?thesis using dead assms(3) by (auto simp: census_def)
qed

theorem dead_at_max_is_final_witness:
  "liveness (v_members (merge_members (node_env 1) 9 [said 3 (- 1) 0] ((membership_new [])\<lparr>v_members := [(3, \<lparr>m_addr = 3, last_heard_ms = 1,
      incarnation = - 1, m_state = Dead, suspect_since_ms = None\<rparr>)]\<rparr>))) 3 = Some (- 1, 2)"
  using dead_at_max_is_final [of "(membership_new [])\<lparr>v_members := [(3, \<lparr>m_addr = 3, last_heard_ms = 1,
      incarnation = - 1, m_state = Dead, suspect_since_ms = None\<rparr>)]\<rparr>" 3 "node_env 1" 9 "[said 3 (- 1) 0]" 10]
  by (simp add: liveness_def [of "[_]"])

section \<open>Digests\<close>

lemma concat_rows_inj:
  assumes "concat (map f xs) = concat (map f ys)" "\<And>x. length (f x) = n" "n > 0" "inj f"
  shows "xs = ys"
  using assms(1)
proof (induction xs arbitrary: ys)
  case Nil
  then show ?case using assms(2) [of "hd ys"] assms(3) by (cases ys) auto
next
  case (Cons x xs)
  then obtain y ys' where ys: "ys = y # ys'" using assms(2) [of x] assms(3) by (cases ys) auto
  then have "f x = f y \<and> concat (map f xs) = concat (map f ys')" using Cons.prems assms(2) by simp
  then show ?case using Cons.IH [of ys'] injD [OF assms(4)] ys by blast
qed

lemma digest_row_inj: "inj digest_row"
proof (rule injI)
  fix x y assume eq: "digest_row x = digest_row y"
  obtain i inc st j inc' st' where xy: "x = (i, inc, st)" "y = (j, inc', st')" by (cases x, cases y)
  have "be_bytes 32 i = be_bytes 32 j" "le_bytes 8 inc = le_bytes 8 inc'" "st = st'" using eq by (simp_all add: xy digest_row_def)
  then show "x = y" using be_bytes_inj [of 32 i j] le_bytes_inj [of 8 inc inc'] by (simp add: xy)
qed

text \<open>What a member is believed to be while it is not believed dead.\<close>

definition lively :: "'a member_map \<Rightarrow> bytes32 \<Rightarrow> (u64 \<times> u8) option" where
  "lively mm i = (case liveness mm i of Some (inc, r) \<Rightarrow> if r = 2 then None else Some (inc, r) | None \<Rightarrow> None)"

lemma state_rank_2 [simp]: "state_rank st = 2 \<longleftrightarrow> st = Dead"
  by (cases st) simp_all

lemma lively_Some_iff: "lively mm i = Some (inc, r) \<longleftrightarrow> (\<exists>m. bt_get mm i = Some m \<and> m_state m \<noteq> Dead \<and> inc = incarnation m \<and> r = state_rank (m_state m))"
  by (auto simp: lively_def liveness_def split: option.splits)

lemma set_digest_rows: "bt_inv (v_members s) \<Longrightarrow> set (digest_rows s) = {(i, inc, r). lively (v_members s) i = Some (inc, r)}"
  by (force simp: digest_rows_def lively_Some_iff state_to_u8_def bt_get_Some_iff)

lemma sorted_digest_rows: "sorted (digest_rows s)"
  by (simp add: digest_rows_def)

lemma distinct_digest_rows: "bt_inv (v_members s) \<Longrightarrow> distinct (digest_rows s)"
proof -
  assume "bt_inv (v_members s)"
  then have "distinct (map fst (filter (\<lambda>(i, m). m_state m \<noteq> Dead) (v_members s)))" using bt_inv_distinct bt_inv_filter by blast
  then have "distinct (map fst (map (\<lambda>(i, m). (i, incarnation m, state_to_u8 (m_state m))) (filter (\<lambda>(i, m). m_state m \<noteq> Dead) (v_members s))))"
    by (simp add: case_prod_beta comp_def)
  then show ?thesis unfolding digest_rows_def distinct_sort distinct_map [of fst] by (rule conjunct1)
qed

text \<open>(C31) The digest tells divergence exactly: where the hash does not collide on the two row lists, two member maps have one digest
  iff they agree on the incarnation and state of every member neither believes dead.\<close>

theorem digest_iff_agree:
  assumes "bt_inv (v_members s)" "bt_inv (v_members t)"
    and "inj_on hash {concat (map digest_row (digest_rows s)), concat (map digest_row (digest_rows t))}"
  shows "members_digest hash s = members_digest hash t \<longleftrightarrow> (\<forall>i. lively (v_members s) i = lively (v_members t) i)"
proof
  assume "members_digest hash s = members_digest hash t"
  then have "concat (map digest_row (digest_rows s)) = concat (map digest_row (digest_rows t))"
    using inj_onD [OF assms(3), of "concat (map digest_row (digest_rows s))" "concat (map digest_row (digest_rows t))"] by (simp add: members_digest_def)
  then have "digest_rows s = digest_rows t"
    by (rule concat_rows_inj [where n = 41, OF _ _ _ digest_row_inj]) (simp_all add: digest_row_def split: prod.split)
  then have "{(i, inc, r). lively (v_members s) i = Some (inc, r)} = {(i, inc, r). lively (v_members t) i = Some (inc, r)}"
    using set_digest_rows assms(1,2) by metis
  then have "lively (v_members s) i = Some p \<longleftrightarrow> lively (v_members t) i = Some p" for i p by (cases p) (simp add: set_eq_iff)
  then show "\<forall>i. lively (v_members s) i = lively (v_members t) i" by (metis option.exhaust)
next
  assume "\<forall>i. lively (v_members s) i = lively (v_members t) i"
  then have "set (digest_rows s) = set (digest_rows t)" using assms(1,2) by (simp add: set_digest_rows)
  then have "digest_rows s = digest_rows t"
    by (rule sorted_distinct_set_unique [OF sorted_digest_rows distinct_digest_rows [OF assms(1)] sorted_digest_rows distinct_digest_rows [OF assms(2)]])
  then show "members_digest hash s = members_digest hash t" by (simp add: members_digest_def)
qed

theorem digest_iff_agree_witness:
  "\<exists>hash. members_digest hash (merge_members (node_env 1) 7 [said 3 4 1] (membership_new [])) \<noteq> members_digest hash (membership_new [] :: u8 membership)"
proof -
  let ?s = "merge_members (node_env 1) 7 [said 3 4 1] (membership_new [])" let ?t = "membership_new [] :: u8 membership"
  define hash where "hash = (\<lambda>b. if b = concat (map digest_row (digest_rows ?s)) then 1 else 0 :: bytes32)"
  have s: "v_members ?s = [(3, \<lparr>m_addr = 3, last_heard_ms = 5, incarnation = 4, m_state = Suspect, suspect_since_ms = Some 7\<rparr>)]"
    by (simp add: merge_members_def merge_step_def merge_one_def membership_new_def said_def state_from_u8_def mark_dirty_def Let_def)
  have "inj_on hash {concat (map digest_row (digest_rows ?s)), concat (map digest_row (digest_rows ?t))}" by (auto simp: inj_on_def hash_def)
  from digest_iff_agree [OF _ _ this] have "members_digest hash ?s = members_digest hash ?t \<longleftrightarrow> (\<forall>i. lively (v_members ?s) i = lively (v_members ?t) i)"
    unfolding s by (simp add: membership_new_def)
  moreover have "lively (v_members ?s) 3 \<noteq> lively (v_members ?t) 3" unfolding s by (simp add: lively_def liveness_def membership_new_def)
  ultimately show ?thesis by metis
qed

section \<open>Gossip of changes\<close>

lemma retire_get: "bt_get (retire i d) k = (if k = i then Option.bind (bt_get d i) (\<lambda>c. if sat_sub c 1 = 0 then None else Some (sat_sub c 1)) else bt_get d k)"
  by (auto simp: retire_def Let_def split: option.split)

lemma retire_inv [simp]: "bt_inv d \<Longrightarrow> bt_inv (retire i d)"
  by (simp add: retire_def Let_def split: option.split)

lemma retire_fold_inv: "bt_inv d \<Longrightarrow> bt_inv (fold retire is d)"
  by (induction "is" arbitrary: d) simp_all

lemma retire_fold_get: "distinct is \<Longrightarrow> bt_get (fold retire is d) k = (if k \<in> set is then bt_get (retire k d) k else bt_get d k)"
  by (induction "is" arbitrary: d) (auto simp: retire_get)

definition sent_by_push :: "'a environment \<Rightarrow> u64 \<Rightarrow> 'a membership \<Rightarrow> ('a \<times> wire_message) list" where
  "sent_by_push env now s = drop (length (ms_outbox s)) (ms_outbox (snd (epidemic_push env now s)))"

lemma refresh_self_simps [simp]:
  "v_dirty (refresh_self env now s) = v_dirty s" "v_active (refresh_self env now s) = v_active s" "v_passive (refresh_self env now s) = v_passive s"
  "ms_outbox (refresh_self env now s) = ms_outbox s" "self_incarnation (refresh_self env now s) = self_incarnation s"
  "v_dead (refresh_self env now s) = v_dead s" "ms_panicked (refresh_self env now s) = ms_panicked s"
  "i \<noteq> my_id env \<Longrightarrow> bt_get (v_members (refresh_self env now s)) i = bt_get (v_members s) i"
  by (simp_all add: refresh_self_def set_member_def)

lemma take_delta_simps [simp]:
  "v_members (snd (take_delta env s)) = v_members s" "v_active (snd (take_delta env s)) = v_active s" "ms_outbox (snd (take_delta env s)) = ms_outbox s"
  "v_dirty (snd (take_delta env s)) = fold retire (map fst (v_dirty s)) (v_dirty s)" "v_dirty s = [] \<Longrightarrow> fst (take_delta env s) = []"
  by (simp_all add: take_delta_def Let_def map_filter_simps)

lemma set_delta: "bt_inv (v_dirty s) \<Longrightarrow> e \<in> set (fst (take_delta env s))
    \<longleftrightarrow> (\<exists>i m. bt_get (v_dirty s) i \<noteq> None \<and> bt_get (v_members s) i = Some m \<and> e = member_entry_of env i m)"
  unfolding bt_get_None_iff by (force simp: take_delta_def Let_def List.map_filter_def)

lemma push_simps:
  "v_active (snd (epidemic_push env now s)) = v_active s"
  "v_members (snd (epidemic_push env now s)) = v_members (refresh_self env now s)"
  "v_dirty (snd (epidemic_push env now s)) = fold retire (map fst (v_dirty s)) (v_dirty s)"
  "ms_outbox (snd (epidemic_push env now s)) = ms_outbox s @ (let delta = fst (take_delta env (refresh_self env now s)) in
     if delta = [] then [] else map (\<lambda>p. (p, MMemberSync delta)) (take EPIDEMIC_FANOUT (shuffle_list env (map (ps_addr \<circ> snd) (v_active s)))))"
  by (simp_all add: epidemic_push_def Let_def case_prod_beta)

lemma push_dirty_get:
  assumes "bt_inv (v_dirty s)"
  shows "bt_get (v_dirty (snd (epidemic_push env now s))) i
    = Option.bind (bt_get (v_dirty s) i) (\<lambda>c. if sat_sub c 1 = 0 then None else Some (sat_sub c 1))"
    and "bt_inv (v_dirty (snd (epidemic_push env now s)))"
proof -
  show "bt_inv (v_dirty (snd (epidemic_push env now s)))" by (simp add: push_simps retire_fold_inv assms)
  show "bt_get (v_dirty (snd (epidemic_push env now s))) i
    = Option.bind (bt_get (v_dirty s) i) (\<lambda>c. if sat_sub c 1 = 0 then None else Some (sat_sub c 1))"
    using retire_fold_get [OF bt_inv_distinct [OF assms], of "v_dirty s" i] bt_get_None_iff [of "v_dirty s" i]
    by (auto simp: push_simps retire_get)
qed

lemma unat_minus_nat: "n \<le> unat c \<Longrightarrow> unat (c - of_nat n) = unat c - n" for c :: "'a::len word"
proof -
  assume n: "n \<le> unat c"
  have "n < 2 ^ LENGTH('a)" using n unsigned_less [of c] by (rule le_less_trans)
  then have "unat (of_nat n :: 'a word) = n" by (simp add: unat_of_nat)
  then show ?thesis using n by (simp add: unat_sub word_le_nat_alt)
qed

lemma pushes_get:
  fixes s :: "'a membership" and ns :: "u64 list" and env :: "'a environment"
  assumes "bt_inv (v_dirty s)" "bt_get (v_dirty s) i = Some c" "c \<noteq> 0" "bt_get (v_members s) i = Some m" "i \<noteq> my_id env"
  defines "s' \<equiv> fold (\<lambda>now s. snd (epidemic_push env now s)) ns s"
  shows "bt_inv (v_dirty s')" "bt_get (v_dirty s') i = (if length ns < unat c then Some (c - of_nat (length ns)) else None)"
    "bt_get (v_members s') i = Some m" "v_active s' = v_active s"
proof -
  have "bt_inv (v_dirty s') \<and> bt_get (v_dirty s') i = (if length ns < unat c then Some (c - of_nat (length ns)) else None)
    \<and> bt_get (v_members s') i = Some m \<and> v_active s' = v_active s"
    unfolding s'_def
  proof (induction ns rule: rev_induct)
    case Nil
    then show ?case using assms(1-5) by (simp add: unat_gt_0)
  next
    case (snoc now ns)
    let ?t = "fold (\<lambda>now s. snd (epidemic_push env now s)) ns s"
    have c: "sat_sub (c - of_nat (length ns)) 1 = c - of_nat (Suc (length ns))" "c - of_nat (Suc (length ns)) = 0 \<longleftrightarrow> unat c = Suc (length ns)"
      if "length ns < unat c"
      using that unat_minus_nat [of "length ns" c] unat_minus_nat [of "Suc (length ns)" c]
      by (auto simp: word_unat_eq_iff unat_sat_sub simp del: of_nat_Suc)
    show ?case using snoc push_dirty_get(1) [of ?t env now i] push_dirty_get(2) [of ?t env now] c assms(5) by (auto simp: push_simps)
  qed
  then show "bt_inv (v_dirty s')" "bt_get (v_dirty s') i = (if length ns < unat c then Some (c - of_nat (length ns)) else None)"
    "bt_get (v_members s') i = Some m" "v_active s' = v_active s" by simp_all
qed

text \<open>A change is gossiped a fixed number of times: after a push of the delta to a few active peers the entry's counter is one
  less, the entry is in every push while its counter lasts, and in no push after.\<close>

theorem gossip_repeats:
  fixes s :: "'a membership" and ns :: "u64 list" and env :: "'a environment" and now :: u64
  assumes "bt_inv (v_dirty s)" "bt_get (v_dirty s) i = Some c" "c \<noteq> 0" "bt_get (v_members s) i = Some m" "i \<noteq> my_id env"
  defines "sent \<equiv> sent_by_push env now (fold (\<lambda>now s. snd (epidemic_push env now s)) ns s)"
  shows "if length ns < unat c
    then length sent = min EPIDEMIC_FANOUT (length (v_active s)) \<and> (\<forall>p msg. (p, msg) \<in> set sent \<longrightarrow> (\<exists>delta. msg = MMemberSync delta \<and> member_entry_of env i m \<in> set delta))
    else \<forall>p msg. (p, msg) \<in> set sent \<longrightarrow> (\<exists>delta. msg = MMemberSync delta \<and> i \<notin> me_id ` set delta)"
proof -
  let ?s = "fold (\<lambda>now s. snd (epidemic_push env now s)) ns s"
  note g = pushes_get [OF assms(1-5), of ns]
  define delta where "delta = fst (take_delta env (refresh_self env now ?s))"
  have sent: "sent = (if delta = [] then [] else map (\<lambda>p. (p, MMemberSync delta)) (take EPIDEMIC_FANOUT (shuffle_list env (map (ps_addr \<circ> snd) (v_active ?s)))))"
    by (simp add: sent_def sent_by_push_def push_simps delta_def)
  have len: "length (shuffle_list env xs) = length xs" for xs
    by (auto simp: shuffle_list_def Let_def dest: mset_eq_length)
  note in_delta = set_delta [of "refresh_self env now ?s" _ env, folded delta_def, simplified, OF g(1)]
  show ?thesis
  proof (cases "length ns < unat c")
    case True
    then have "member_entry_of env i m \<in> set delta" unfolding in_delta using g assms(5) by auto
    then show ?thesis using True g(4) len by (auto simp: sent)
  next
    case False
    then have "i \<notin> me_id ` set delta" using g by (auto simp: in_delta member_entry_of_def)
    then show ?thesis using False by (auto simp: sent)
  qed
qed

theorem gossip_repeats_witness:
  "\<forall>p msg. (p, msg) \<in> set (sent_by_push (node_env 1) 9 ((membership_new [])\<lparr>v_members := [(3, mbr_alive 3 1)], v_dirty := [(3, GOSSIP_REPEATS)]\<rparr>))
    \<longrightarrow> (\<exists>delta. msg = MMemberSync delta \<and> member_entry_of (node_env 1) 3 (mbr_alive 3 1) \<in> set delta)"
  using gossip_repeats [of "(membership_new [])\<lparr>v_members := [(3, mbr_alive 3 1)], v_dirty := [(3, GOSSIP_REPEATS)]\<rparr>" 3 GOSSIP_REPEATS "mbr_alive 3 1" "node_env 1" "[]" 9]
  by (simp add: GOSSIP_REPEATS_def)

end
