(* ===== verification/Membership_Views.thy ===== *)
theory Membership_Views
  imports Membership_Laws
begin

text \<open>
  The invariant of membership, through every sequence of its operations: the active and passive views keep
  within their sizes and apart from each other, and every suspect has a running clock.
\<close>

section \<open>The invariant\<close>

definition active_ok :: "'a environment \<Rightarrow> (bytes32, 'a peer_state) btree \<Rightarrow> bool" where
  "active_ok env a \<longleftrightarrow> bt_inv a \<and> length a \<le> active_size (cfg env) \<and> (\<forall>i st. bt_get a i = Some st \<longrightarrow> node_id env (ps_addr st) = i \<and> i \<noteq> my_id env)"

definition passive_ok :: "'a environment \<Rightarrow> (bytes32, 'a peer_state) btree \<Rightarrow> 'a list \<Rightarrow> bool" where
  "passive_ok env a p \<longleftrightarrow> distinct (map (node_id env) p) \<and> length p \<le> passive_size (cfg env)
     \<and> (\<forall>x \<in> set p. node_id env x \<noteq> my_id env \<and> bt_get a (node_id env x) = None)"

definition views_ok :: "'a environment \<Rightarrow> 'a membership \<Rightarrow> bool" where
  "views_ok env s \<longleftrightarrow> active_ok env (v_active s) \<and> passive_ok env (v_active s) (v_passive s)"

definition clock_ok :: "'a mbr \<Rightarrow> bool" where
  "clock_ok m \<longleftrightarrow> (m_state m = Suspect \<longleftrightarrow> suspect_since_ms m \<noteq> None)"

definition members_ok :: "'a membership \<Rightarrow> bool" where
  "members_ok s \<longleftrightarrow> bt_inv (v_members s) \<and> bt_inv (v_dirty s) \<and> bt_inv (v_dead s)
     \<and> (\<forall>i m. bt_get (v_members s) i = Some m \<longrightarrow> clock_ok m) \<and> (\<forall>i c. bt_get (v_dirty s) i = Some c \<longrightarrow> c \<noteq> 0)"

definition ms_inv :: "'a environment \<Rightarrow> 'a membership \<Rightarrow> bool" where
  "ms_inv env s \<longleftrightarrow> views_ok env s \<and> members_ok s"

section \<open>The member map\<close>

lemma clock_set_liveness [simp]: "clock_ok (set_liveness inc st now m)"
  by (cases st) (simp_all add: clock_ok_def set_liveness_def split: option.split)

lemma clock_alive [simp]: "clock_ok (mbr_alive a now)"
  by (simp add: clock_ok_def mbr_alive_def)

lemma clock_update [simp]: "clock_ok (m\<lparr>last_heard_ms := x\<rparr>) = clock_ok m" "clock_ok (m\<lparr>last_heard_ms := x, m_addr := a\<rparr>) = clock_ok m"
  by (simp_all add: clock_ok_def)

lemma members_ok_cong:
  "v_members t = v_members s \<Longrightarrow> v_dirty t = v_dirty s \<Longrightarrow> v_dead t = v_dead s \<Longrightarrow> members_ok t = members_ok s"
  by (simp add: members_ok_def)

lemma views_ok_cong: "v_active t = v_active s \<Longrightarrow> v_passive t = v_passive s \<Longrightarrow> views_ok env t = views_ok env s"
  by (simp add: views_ok_def)

lemma members_ok_set [simp]: "members_ok s \<Longrightarrow> clock_ok m \<Longrightarrow> members_ok (set_member i m s)"
  by (simp add: members_ok_def set_member_def)

lemma members_ok_dirty [simp]: "members_ok s \<Longrightarrow> members_ok (mark_dirty i s)"
  by (simp add: members_ok_def mark_dirty_def GOSSIP_REPEATS_def)

lemma members_ok_refresh [simp]: "members_ok s \<Longrightarrow> members_ok (refresh_self env now s)"
  by (simp add: refresh_self_def clock_ok_def)

lemma views_ok_set [simp]:
  "views_ok env (set_member i m s) = views_ok env s" "views_ok env (mark_dirty i s) = views_ok env s" "views_ok env (refresh_self env' now s) = views_ok env s"
  by (simp_all add: views_ok_def set_member_def mark_dirty_def refresh_self_def)

lemma members_ok_get: "members_ok s \<Longrightarrow> bt_get (v_members s) i = Some m \<Longrightarrow> clock_ok m"
  by (simp add: members_ok_def)

lemma merge_one_ok:
  assumes "bt_inv mm" "\<forall>i m. bt_get mm i = Some m \<longrightarrow> clock_ok m"
  shows "bt_inv (snd (merge_one env now mm e)) \<and> (\<forall>i m. bt_get (snd (merge_one env now mm e)) i = Some m \<longrightarrow> clock_ok m)"
  using assms by (simp add: merge_one_def Let_def split: option.split) (simp add: clock_ok_def)

lemma merge_step_ok:
  assumes "members_ok (snd (snd acc))"
  shows "members_ok (snd (snd (merge_step env now e acc)))"
proof -
  obtain b c s where acc: "acc = (b, c, s)" by (cases acc)
  have "members_ok (s\<lparr>v_members := snd (merge_one env now (v_members s) e)\<rparr>)"
    using assms merge_one_ok [of "v_members s" env now e] by (simp add: acc members_ok_def)
  then have "members_ok (s\<lparr>v_members := mm\<rparr>)" if "merge_one env now (v_members s) e = (ch, mm)" for ch mm using that by simp
  moreover have "members_ok (s\<lparr>self_incarnation := x\<rparr>)" for x using assms by (simp add: acc members_ok_def)
  ultimately show ?thesis using assms by (auto simp: acc merge_step_def Let_def split: prod.split)
qed

lemma merge_members_ok [simp]: "members_ok s \<Longrightarrow> members_ok (merge_members env now es s)"
proof -
  assume "members_ok s"
  have "members_ok (snd (snd (fold (merge_step env now) es acc)))" if "members_ok (snd (snd acc))" for acc
    using that by (induction es arbitrary: acc) (simp_all add: merge_step_ok)
  from this [of "(False, False, s)"] \<open>members_ok s\<close> have "members_ok (snd (snd (fold (merge_step env now) es (False, False, s))))" by simp
  moreover have "members_ok (t\<lparr>last_epidemic_ms := x, ms_notified := y\<rparr>) = members_ok t" for t :: "'a membership" and x y by (rule members_ok_cong) simp_all
  ultimately show ?thesis by (auto simp: merge_members_def Let_def split: prod.split)
qed

lemma merge_members_views_ok [simp]: "views_ok env' (merge_members env now es s) = views_ok env' s"
  by (simp add: views_ok_def)

lemma sent_ok [simp]: "members_ok (s\<lparr>ms_outbox := x\<rparr>) = members_ok s" "views_ok env (s\<lparr>ms_outbox := x\<rparr>) = views_ok env s"
  by (simp_all add: members_ok_def views_ok_def)

lemma sync_ok [simp]: "members_ok s \<Longrightarrow> members_ok (sync_members_with env now p s)" "views_ok env' (sync_members_with env now p s) = views_ok env' s"
  by (auto simp: sync_members_with_def Let_def request_peer_def split: prod.split option.split wire_message.split)

lemma note_heard_ok [simp]: "members_ok s \<Longrightarrow> members_ok (note_heard env now i s)" "views_ok env' (note_heard env now i s) = views_ok env' s"
  using members_ok_get [of s i] by (auto simp: note_heard_def split: option.split)

lemma prune_ok [simp]: "members_ok s \<Longrightarrow> members_ok (prune_members env now s)" "views_ok env' (prune_members env now s) = views_ok env' s"
  by (auto simp: prune_members_def members_ok_def views_ok_def bt_inv_filter bt_get_Some_iff)

lemma suspect_ok [simp]: "members_ok s \<Longrightarrow> members_ok (suspect now i s)" "views_ok env' (suspect now i s) = views_ok env' s"
  by (auto simp: suspect_def split: option.split)

lemma push_rest: "v_passive (snd (epidemic_push env now s)) = v_passive s" "v_dead (snd (epidemic_push env now s)) = v_dead s"
  by (simp_all add: epidemic_push_def take_delta_def Let_def)

lemma push_ok [simp]:
  "members_ok s \<Longrightarrow> members_ok (snd (epidemic_push env now s))" "views_ok env' (snd (epidemic_push env now s)) = views_ok env' s"
proof -
  show "views_ok env' (snd (epidemic_push env now s)) = views_ok env' s" by (simp add: views_ok_def push_simps push_rest)
  assume ok: "members_ok s"
  then have inv: "bt_inv (v_dirty s)" by (simp add: members_ok_def)
  note d = push_dirty_get(1) [OF inv, of env now] push_dirty_get(2) [OF inv, of env now]
  have "members_ok (refresh_self env now s)" using ok by simp
  then show "members_ok (snd (epidemic_push env now s))"
    using d by (auto simp: members_ok_def push_simps(2) push_rest bind_eq_Some_conv split: if_splits)
qed

section \<open>The views\<close>

lemma bt_length: "bt_inv m \<Longrightarrow> length m = card (fst ` set m)"
  using bt_inv_distinct [of m] distinct_card [of "map fst m"] by simp

lemma bt_get_key: "bt_get m k = Some v \<Longrightarrow> k \<in> fst ` set m"
  using bt_get_None_iff [of m k] by auto

lemma length_insert_new: "bt_inv m \<Longrightarrow> bt_get m k = None \<Longrightarrow> length (bt_insert k v m) = Suc (length m)"
  by (simp add: bt_length keys_bt_insert bt_get_None_iff)

lemma length_insert_old: "bt_inv m \<Longrightarrow> bt_get m k = Some v' \<Longrightarrow> length (bt_insert k v m) = length m"
  by (simp add: bt_length keys_bt_insert insert_absorb bt_get_key)

lemma keys_bt_remove: "fst ` set (bt_remove k m) = fst ` set m - {k}"
  by (auto simp: bt_remove_def)

lemma length_remove: "bt_inv m \<Longrightarrow> bt_get m k = Some v \<Longrightarrow> Suc (length (bt_remove k m)) = length m"
  by (metis bt_length bt_inv_remove keys_bt_remove bt_get_key card_Suc_Diff1 finite_imageI finite_set)

lemma length_remove_le: "length (bt_remove k m) \<le> length m"
  by (simp add: bt_remove_def)

lemma active_ok_get: "active_ok env a \<Longrightarrow> bt_get a i = Some st \<Longrightarrow> node_id env (ps_addr st) = i \<and> i \<noteq> my_id env"
  by (simp add: active_ok_def)

lemma active_ok_replace [simp]:
  "active_ok env a \<Longrightarrow> bt_get a i = Some st \<Longrightarrow> node_id env (ps_addr st') = i \<Longrightarrow> active_ok env (bt_insert i st' a)"
  by (auto simp: active_ok_def length_insert_old)

lemma active_ok_remove [simp]: "active_ok env a \<Longrightarrow> active_ok env (bt_remove i a)"
  using length_remove_le [of i a] by (auto simp: active_ok_def)

lemma passive_ok_replace [simp]: "passive_ok env a p \<Longrightarrow> bt_get a i = Some st \<Longrightarrow> passive_ok env (bt_insert i st' a) p"
  by (auto simp: passive_ok_def)

lemma passive_ok_remove [simp]: "passive_ok env a p \<Longrightarrow> passive_ok env (bt_remove i a) p"
  by (auto simp: passive_ok_def)

lemma passive_ok_mono:
  assumes "passive_ok env a p" "mset p' \<subseteq># mset p"
  shows "passive_ok env a p'"
proof -
  obtain D where "mset p = mset p' + D" using assms(2) mset_subset_eq_exists_conv by blast
  moreover obtain q where "mset q = D" using ex_mset by blast
  ultimately have "mset (map (node_id env) p) = mset (map (node_id env) (p' @ q))" by simp
  then have "distinct (map (node_id env) (p' @ q))" using assms(1) mset_eq_imp_distinct_iff unfolding passive_ok_def by blast
  then have "distinct (map (node_id env) p')" by simp
  moreover have "length p' \<le> length p" using size_mset_mono [OF assms(2)] by simp
  moreover have "set p' \<subseteq> set p" using set_mset_mono [OF assms(2)] by simp
  ultimately show ?thesis using assms(1) by (auto simp: passive_ok_def)
qed

lemma mset_swap_remove: "i < length xs \<Longrightarrow> add_mset (xs ! i) (mset (swap_remove i xs)) = mset xs"
proof -
  assume i: "i < length xs"
  let ?ys = "xs[i := last xs]"
  have ne: "xs \<noteq> []" using i by auto
  have "last ?ys = last xs" using ne by (cases "i = length xs - 1") (auto simp: last_conv_nth nth_list_update)
  then have "?ys = butlast ?ys @ [last xs]" using ne append_butlast_last_id [of ?ys] by simp
  then have "add_mset (last xs) (mset (butlast ?ys)) = mset ?ys" by (metis mset_append union_mset_add_mset_right mset.simps add_mset_add_single)
  moreover have "mset ?ys = add_mset (last xs) (mset xs - {#xs ! i#})" using i by (simp add: mset_update)
  ultimately have "mset (swap_remove i xs) = mset xs - {#xs ! i#}" by (simp add: swap_remove_def)
  then show ?thesis using i by simp
qed

lemma push_passive_ok:
  assumes "passive_ok env a p" "node_id env x \<noteq> my_id env" "bt_get a (node_id env x) = None" "0 < passive_size (cfg env)"
  shows "\<exists>p'. push_passive env x (passive_size (cfg env)) p = Some p' \<and> passive_ok env a p' \<and> set p' \<subseteq> insert x (set p)"
proof (cases "list_ex (\<lambda>q. node_id env q = node_id env x) p")
  case False
  then have new: "node_id env x \<notin> node_id env ` set p" by (auto simp: list_ex_iff)
  have add: "passive_ok env a (q @ [x])" if "passive_ok env a q" "set q \<subseteq> set p" "length q < passive_size (cfg env)" for q
    using that new assms(2,3) by (auto simp: passive_ok_def)
  show ?thesis
  proof (cases "length p \<ge> passive_size (cfg env)")
    case True
    let ?i = "pick env (length p) mod length p"
    have "p \<noteq> []" using True assms(4) by auto
    then have sr: "add_mset (p ! ?i) (mset (swap_remove ?i p)) = mset p" by (simp add: mset_swap_remove)
    then have sub: "mset (swap_remove ?i p) \<subseteq># mset p" by (metis mset_subset_eq_add_right add_mset_add_single union_commute)
    have "Suc (length (swap_remove ?i p)) = length p" using arg_cong [OF sr, of size] by simp
    moreover have "length p \<le> passive_size (cfg env)" using assms(1) by (simp add: passive_ok_def)
    moreover have "set (swap_remove ?i p) \<subseteq> set p" using set_mset_mono [OF sub] by simp
    ultimately show ?thesis using add [OF passive_ok_mono [OF assms(1) sub]] True False \<open>p \<noteq> []\<close>
      by (auto simp: push_passive_def)
  next
    case lt: False
    then show ?thesis using add [OF assms(1)] False by (auto simp: push_passive_def)
  qed
qed (use assms in \<open>auto simp: push_passive_def\<close>)

lemma evict_ok:
  assumes "views_ok env s" "0 < passive_size (cfg env)" "0 < active_size (cfg env)" "i \<notin> node_id env ` set (v_passive s)" "bt_get (v_active s) i = None"
  defines "s' \<equiv> snd (evict env s)"
  shows "views_ok env s' \<and> length (v_active s') < active_size (cfg env) \<and> i \<notin> node_id env ` set (v_passive s') \<and> bt_get (v_active s') i = None
    \<and> v_members s' = v_members s \<and> v_dirty s' = v_dirty s \<and> v_dead s' = v_dead s"
proof (cases "length (v_active s) \<ge> active_size (cfg env)")
  case True
  let ?ks = "map fst (v_active s)"
  define v where "v = ?ks ! (pick env (length ?ks) mod length ?ks)"
  have a: "active_ok env (v_active s)" and p: "passive_ok env (v_active s) (v_passive s)" using assms(1) by (simp_all add: views_ok_def)
  have "v_active s \<noteq> []" using True assms(3) by auto
  then have ch: "choose_one env ?ks = Some v" and "v \<in> set ?ks" by (simp_all add: choose_one_def v_def)
  then obtain st where st: "bt_get (v_active s) v = Some st" using bt_get_None_iff [of "v_active s" v] by auto
  have id: "node_id env (ps_addr st) = v" "v \<noteq> my_id env" using active_ok_get [OF a st] by auto
  obtain p' where p': "push_passive env (ps_addr st) (passive_size (cfg env)) (v_passive s) = Some p'"
      "passive_ok env (bt_remove v (v_active s)) p'" "set p' \<subseteq> insert (ps_addr st) (set (v_passive s))"
    using push_passive_ok [OF passive_ok_remove [OF p, of v], of "ps_addr st"] id assms(2) by auto
  have "Suc (length (bt_remove v (v_active s))) = length (v_active s)" using a st by (simp add: active_ok_def length_remove)
  moreover have "length (v_active s) \<le> active_size (cfg env)" using a by (simp add: active_ok_def)
  moreover have "i \<noteq> v" using st assms(5) by auto
  then have "i \<notin> node_id env ` set p'" using p'(3) assms(4) id(1) by auto
  moreover have "s' = s\<lparr>v_active := bt_remove v (v_active s), v_passive := p'\<rparr>" using True ch st p'(1) by (simp add: s'_def evict_def)
  ultimately show ?thesis using a p'(2) assms(5) by (simp add: views_ok_def)
qed (use assms in \<open>simp add: evict_def\<close>)

definition sized :: "'a environment \<Rightarrow> bool" where
  "sized env \<longleftrightarrow> 0 < active_size (cfg env) \<and> 0 < passive_size (cfg env)"

lemma ms_inv_frame [simp]:
  "ms_inv env (s\<lparr>ms_outbox := x\<rparr>) = ms_inv env s" "ms_inv env (s\<lparr>last_recover_ms := n\<rparr>) = ms_inv env s"
  "ms_inv env (s\<lparr>isolated_since_ms := n\<rparr>) = ms_inv env s" "ms_inv env (s\<lparr>isolated_since_ms := n, last_recover_ms := k\<rparr>) = ms_inv env s"
  "ms_inv env (panic s) = ms_inv env s"
  by (simp_all add: ms_inv_def views_ok_def members_ok_def panic_def)

lemma ms_inv_sent [simp]: "ms_inv env (snd (send_oneway env' p m s)) = ms_inv env s" "ms_inv env (snd (request_peer env' p m s)) = ms_inv env s"
  by (simp_all add: send_oneway_def request_peer_def)

lemma ms_inv_members [simp]:
  "ms_inv env s \<Longrightarrow> ms_inv env (merge_members env' now es s)" "ms_inv env s \<Longrightarrow> ms_inv env (sync_members_with env' now p s)"
  "ms_inv env s \<Longrightarrow> ms_inv env (note_heard env' now i s)" "ms_inv env s \<Longrightarrow> ms_inv env (prune_members env' now s)"
  "ms_inv env s \<Longrightarrow> ms_inv env (suspect now i s)" "ms_inv env s \<Longrightarrow> ms_inv env (snd (epidemic_push env' now s))"
  "ms_inv env s \<Longrightarrow> ms_inv env (refresh_self env' now s)"
  by (simp_all add: ms_inv_def)

lemma passive_ok_filter: "passive_ok env a p \<Longrightarrow> passive_ok env a (filter P p)"
  by (erule passive_ok_mono) simp

lemma views_ok_activate:
  assumes "views_ok env s" "length (v_active s) < active_size (cfg env)" "i \<notin> node_id env ` set (v_passive s)" "bt_get (v_active s) i = None"
    and "node_id env peer = i" "i \<noteq> my_id env"
  shows "views_ok env (s\<lparr>v_active := bt_insert i (peer_state_new peer) (v_active s)\<rparr>)"
proof -
  have "\<forall>x \<in> set (v_passive s). node_id env x \<noteq> i" using assms(3) by auto
  then show ?thesis using assms by (auto simp: views_ok_def active_ok_def passive_ok_def length_insert_new peer_state_new_def)
qed

lemma add_active_ok [simp]:
  assumes "sized env" "ms_inv env s"
  shows "ms_inv env (add_active env peer s)"
proof (cases "node_id env peer = my_id env")
  case False
  define i where "i = node_id env peer"
  define s1 where "s1 = s\<lparr>v_dead := bt_remove i (v_dead s), v_passive := filter (\<lambda>p. node_id env p \<noteq> i) (v_passive s)\<rparr>"
  have v1: "views_ok env s1" and m1: "members_ok s1"
    using assms(2) by (auto simp: s1_def ms_inv_def views_ok_def members_ok_def passive_ok_filter)
  show ?thesis
  proof (cases "bt_get (v_active s1) i")
    case None
    have "i \<notin> node_id env ` set (v_passive s1)" by (auto simp: s1_def)
    note e = evict_ok [OF v1 _ _ this None]
    let ?s2 = "snd (evict env s1)" let ?s3 = "?s2\<lparr>v_active := bt_insert i (peer_state_new peer) (v_active ?s2)\<rparr>"
    have "views_ok env ?s3" using e assms(1) False by (intro views_ok_activate) (auto simp: sized_def i_def)
    moreover have "members_ok ?s3" using e assms(1) m1 by (simp add: sized_def members_ok_def)
    ultimately have "ms_inv env ?s3" by (simp add: ms_inv_def)
    moreover have "add_active env peer s = (case fst (evict env s1) of Some victim \<Rightarrow> snd (send_oneway env victim MDisconnect ?s3) | None \<Rightarrow> ?s3)"
      using False None by (simp add: add_active_def Let_def case_prod_beta flip: i_def s1_def)
    ultimately show ?thesis by (simp split: option.split)
  next
    case (Some st)
    then have "add_active env peer s = s1\<lparr>v_active := bt_insert i (st\<lparr>ps_addr := peer\<rparr>) (v_active s1)\<rparr>"
      using False by (simp add: add_active_def Let_def flip: i_def s1_def)
    then show ?thesis using v1 m1 Some by (simp add: ms_inv_def views_ok_def members_ok_def i_def)
  qed
qed (use assms in \<open>simp add: add_active_def\<close>)

lemma add_passive_ok [simp]:
  assumes "sized env" "ms_inv env s"
  shows "ms_inv env (add_passive env peer s)"
proof (cases "node_id env peer = my_id env \<or> bt_get (v_active s) (node_id env peer) \<noteq> None")
  case False
  then obtain p' where "push_passive env peer (passive_size (cfg env)) (v_passive s) = Some p'" "passive_ok env (v_active s) p'"
    using push_passive_ok [of env "v_active s" "v_passive s" peer] assms by (auto simp: sized_def ms_inv_def views_ok_def)
  then show ?thesis using False assms(2) by (simp add: add_passive_def Let_def ms_inv_def views_ok_def members_ok_def)
qed (use assms in \<open>auto simp: add_passive_def Let_def\<close>)

lemma try_promote_ok [simp]: "sized env \<Longrightarrow> ms_inv env s \<Longrightarrow> ms_inv env (snd (try_promote env now c s))"
  by (auto simp: try_promote_def request_peer_def split: option.split wire_message.split bool.split)

lemma join_ok [simp]: "sized env \<Longrightarrow> ms_inv env s \<Longrightarrow> ms_inv env (join env now c s)"
  by (auto simp: join_def send_oneway_def request_peer_def split: bool.split)

lemma mset_shuffle [simp]: "mset (shuffle_list env xs) = mset xs"
  by (simp add: shuffle_list_def Let_def)

lemma passive_ok_butlast: "passive_ok env a p \<Longrightarrow> passive_ok env a (butlast (shuffle_list env' p))"
proof (erule passive_ok_mono)
  have "mset (butlast xs) \<subseteq># mset xs" for xs :: "'a list" by (cases xs rule: rev_cases) simp_all
  from this [of "shuffle_list env' p"] show "mset (butlast (shuffle_list env' p)) \<subseteq># mset p" by simp
qed

lemma fill_active_ok [simp]: "sized env \<Longrightarrow> ms_inv env s \<Longrightarrow> ms_inv env (fill_active env now s)"
proof (induction env now s rule: fill_active.induct)
  case (1 env now s)
  have "ms_inv env (s\<lparr>v_passive := butlast (shuffle_list env (v_passive s))\<rparr>)"
    using 1(3) by (simp add: ms_inv_def views_ok_def members_ok_def passive_ok_butlast)
  then show ?case using 1 by (subst fill_active.simps) (simp add: Let_def)
qed

lemma seed_ok [simp]: "sized env \<Longrightarrow> ms_inv env s \<Longrightarrow> ms_inv env (seed_peers env now ps s)"
proof -
  assume sz: "sized env" and "ms_inv env s"
  then have "ms_inv env (fold (\<lambda>p s. if node_id env p \<noteq> my_id env then add_passive env p s else s) ps s)"
    by (induction ps arbitrary: s) simp_all
  then show ?thesis using sz by (simp add: seed_peers_def)
qed

section \<open>Death and probing\<close>

lemma deactivate_ok:
  assumes "ms_inv env s" "bt_get (v_active s) i = Some st" "passive_ok env (v_active s) p"
  shows "ms_inv env (s\<lparr>v_active := bt_remove i (v_active s), v_dead := bt_insert i d (v_dead s), v_passive := p\<rparr>)"
  using assms by (simp add: ms_inv_def views_ok_def members_ok_def)

lemma mark_dead_ok [simp]:
  assumes "sized env" "ms_inv env s"
  shows "ms_inv env (mark_dead env now i s)"
proof -
  define s1 where "s1 = (case bt_get (v_members s) i of None \<Rightarrow> s
       | Some m \<Rightarrow> mark_dirty i (set_member i (set_liveness (incarnation m) Dead now m) s))"
  have s1: "ms_inv env s1" using assms(2) by (simp add: s1_def ms_inv_def split: option.split)
  show ?thesis
  proof (cases "bt_get (v_active s1) i")
    case (Some st)
    let ?p = "shuffle_list env (v_passive s1)"
    have "passive_ok env (v_active s1) (butlast ?p)" using s1 by (simp add: ms_inv_def views_ok_def passive_ok_butlast)
    note deactivate_ok [OF s1 Some this, of "(st\<lparr>ps_alive := False\<rparr>, now)"]
    then show ?thesis using Some assms(1) by (cases "?p = []") (simp_all add: mark_dead_def Let_def flip: s1_def)
  qed (use s1 in \<open>simp add: mark_dead_def flip: s1_def\<close>)
qed

lemma promote_suspects_ok [simp]: "sized env \<Longrightarrow> ms_inv env s \<Longrightarrow> ms_inv env (promote_suspects env now s)"
proof -
  assume "sized env" "ms_inv env s"
  then have "ms_inv env (fold (mark_dead env now) is s)" for "is" by (induction "is" arbitrary: s) simp_all
  then show ?thesis by (simp add: promote_suspects_def)
qed

lemma drop_dead_active_ok [simp]: "ms_inv env s \<Longrightarrow> ms_inv env (drop_dead_active now s)"
proof -
  let ?f = "\<lambda>i s. case bt_get (v_active s) i of None \<Rightarrow> s
      | Some st \<Rightarrow> s\<lparr>v_active := bt_remove i (v_active s), v_dead := bt_insert i (st\<lparr>ps_alive := False\<rparr>, now) (v_dead s)\<rparr>"
  have step: "ms_inv env (?f i s)" if "ms_inv env s" for i and s :: "'a membership"
    using that by (auto simp: ms_inv_def views_ok_def members_ok_def split: option.split)
  assume "ms_inv env s"
  then have "ms_inv env (fold ?f is s)" for "is" by (induction "is" arbitrary: s) (simp_all only: fold_simps step id_apply comp_apply)
  then show ?thesis by (simp add: drop_dead_active_def)
qed

lemma update_active_ok:
  "ms_inv env s \<Longrightarrow> bt_get (v_active s) i = Some st \<Longrightarrow> ps_addr st' = ps_addr st \<Longrightarrow> ms_inv env (s\<lparr>v_active := bt_insert i st' (v_active s)\<rparr>)"
  using active_ok_get [of env "v_active s" i st] active_ok_replace [of env "v_active s" i st st']
  by (simp add: ms_inv_def views_ok_def members_ok_def)

lemma probe_ok_ok [simp]: "ms_inv env s \<Longrightarrow> ms_inv env (probe_ok now i a rep s)"
proof -
  assume ok: "ms_inv env s"
  define s1 where "s1 = (case bt_get (v_active s) i of None \<Rightarrow> s
          | Some st \<Rightarrow> s\<lparr>v_active := bt_insert i (st\<lparr>ps_alive := True, rtt_us := Some (fst rep), ps_skew_ms := Some (snd rep),
              last_seen_unix := Some (now div 1000), consecutive_failures := 0\<rparr>) (v_active s)\<rparr>)"
  have "ms_inv env s1" using ok by (auto simp: s1_def split: option.split intro!: update_active_ok)
  then show ?thesis using members_ok_get [of s1 i]
    by (auto simp: probe_ok_def Let_def ms_inv_def simp flip: s1_def split: option.split)
qed

lemma count_failure_ok: "ms_inv env s \<Longrightarrow> ms_inv env (snd (count_failure env' i s))"
  by (auto simp: count_failure_def split: option.split intro!: update_active_ok)

lemma probe_failed_ok [simp]: "ms_inv env s \<Longrightarrow> ms_inv env (probe_failed env' now i a s)"
proof -
  assume ok: "ms_inv env s"
  obtain hit s1 where c: "count_failure env' i s = (hit, s1)" by (cases "count_failure env' i s")
  obtain b s2 where p: "indirect_probe env' i a s1 = (b, s2)" by (cases "indirect_probe env' i a s1")
  have s1: "ms_inv env s1" using count_failure_ok [OF ok, of env' i] c by simp
  then have s2: "ms_inv env s2" using p by (auto simp: indirect_probe_def Let_def split: if_splits)
  then have "ms_inv env (case bt_get (v_active s2) i of None \<Rightarrow> s2
      | Some st \<Rightarrow> s2\<lparr>v_active := bt_insert i (st\<lparr>consecutive_failures := 0\<rparr>) (v_active s2)\<rparr>)"
    by (auto split: option.split intro!: update_active_ok)
  then show ?thesis using s1 s2 by (simp add: probe_failed_def c p split: bool.split)
qed

lemma probe_peer_ok [simp]: "ms_inv env s \<Longrightarrow> ms_inv env (probe_peer env' now t s)"
  by (simp add: probe_peer_def split: prod.split option.split)

lemma recover_ok [simp]: "sized env \<Longrightarrow> ms_inv env s \<Longrightarrow> ms_inv env (recover_isolated env now s)"
  by (simp add: recover_isolated_def Let_def split: option.split)

lemma rebind_ok [simp]: "ms_inv env s \<Longrightarrow> ms_inv env (maybe_rebind_wedged env' now s)"
  by (simp add: maybe_rebind_wedged_def Let_def)

lemma probe_round_ok [simp]: "sized env \<Longrightarrow> ms_inv env s \<Longrightarrow> ms_inv env (probe_round env now s)"
proof -
  assume sz: "sized env" and "ms_inv env s"
  define s2 where "s2 = (let s1 = fill_active env now (drop_dead_active now (promote_suspects env now s)) in
     if v_active s1 = [] then maybe_rebind_wedged env now (recover_isolated env now s1) else s1\<lparr>isolated_since_ms := 0\<rparr>)"
  have "ms_inv env s2" using sz \<open>ms_inv env s\<close> by (simp add: s2_def Let_def)
  then have "ms_inv env (fold (probe_peer env now) ts s2)" for ts by (induction ts arbitrary: s2) simp_all
  then show ?thesis by (simp add: probe_round_def s2_def Let_def)
qed

section \<open>Rounds and messages\<close>

lemma add_samples_ok [simp]: "sized env \<Longrightarrow> ms_inv env s \<Longrightarrow> ms_inv env (add_samples env bs s)"
  unfolding add_samples_def by (induction bs arbitrary: s) (simp_all split: option.split)

lemma shuffle_round_ok [simp]: "sized env \<Longrightarrow> ms_inv env s \<Longrightarrow> ms_inv env (shuffle_round env now s)"
  by (simp add: shuffle_round_def Let_def request_peer_def split: option.split wire_message.split)

lemma digest_round_ok [simp]: "ms_inv env s \<Longrightarrow> ms_inv env (digest_round env' hash now s)"
  by (simp add: digest_round_def Let_def request_peer_def split: option.split wire_message.split)

lemma snapshot_ok [simp]: "ms_inv env s \<Longrightarrow> ms_inv env (snd (ms_snapshot_of env' now s))"
  by (simp add: ms_snapshot_of_def Let_def ms_inv_def views_ok_def members_ok_def bt_inv_filter)

lemma send_all_ok [simp]: "ms_inv env s \<Longrightarrow> ms_inv env (send_all env' ts msg s)"
  unfolding send_all_def by (induction ts arbitrary: s) simp_all

lemma handle_join_ok [simp]: "sized env \<Longrightarrow> ms_inv env s \<Longrightarrow> ms_inv env (handle_join env b s)"
  by (simp add: handle_join_def split: option.split)

lemma handle_forward_join_ok [simp]: "sized env \<Longrightarrow> ms_inv env s \<Longrightarrow> ms_inv env (handle_forward_join env b ttl s)"
  by (simp add: handle_forward_join_def Let_def split: option.split)

lemma handle_message_ok [simp]: "sized env \<Longrightarrow> ms_inv env s \<Longrightarrow> ms_inv env (snd (handle_message env hash now msg s))"
  by (cases msg) (simp_all add: handle_neighbor_def handle_shuffle_def Let_def split: option.split)

section \<open>Every run\<close>

datatype 'a command = Join 'a | Seed "'a list" | Probe_Round | Shuffle_Round | Digest_Round | Epidemic_Push | Snapshot | Stream bytes32 bytes

fun run_command :: "'a environment \<Rightarrow> (u32 \<Rightarrow> bytes \<Rightarrow> wire_message option) \<Rightarrow> (bytes \<Rightarrow> bytes32) \<Rightarrow> u64 \<Rightarrow> 'a command \<Rightarrow> 'a membership \<Rightarrow> 'a membership" where
  "run_command env dec hash now (Join c) s = join env now c s"
| "run_command env dec hash now (Seed ps) s = seed_peers env now ps s"
| "run_command env dec hash now Probe_Round s = probe_round env now s"
| "run_command env dec hash now Shuffle_Round s = shuffle_round env now s"
| "run_command env dec hash now Digest_Round s = digest_round env hash now s"
| "run_command env dec hash now Epidemic_Push s = snd (epidemic_push env now s)"
| "run_command env dec hash now Snapshot s = snd (ms_snapshot_of env now s)"
| "run_command env dec hash now (Stream sender b) s = snd (handle_stream env dec hash now sender b s)"

text \<open>A run of one node: its identity and configuration stay, while what the network and the generator answer changes from one
  operation to the next.\<close>

inductive ms_reachable :: "('a \<Rightarrow> bytes32) \<Rightarrow> 'a \<Rightarrow> config \<Rightarrow> 'a membership \<Rightarrow> bool" for nid me c where
  ms_start: "ms_reachable nid me c (membership_new boot)"
| ms_step: "ms_reachable nid me c s \<Longrightarrow> node_id env = nid \<Longrightarrow> my_addr env = me \<Longrightarrow> cfg env = c
    \<Longrightarrow> ms_reachable nid me c (run_command env dec hash now cmd s)"

lemma run_command_ok: "sized env \<Longrightarrow> ms_inv env s \<Longrightarrow> ms_inv env (run_command env dec hash now cmd s)"
  by (cases cmd) (simp_all add: handle_stream_def split: sum.split)

lemma ms_inv_node:
  "node_id env = node_id env' \<Longrightarrow> my_addr env = my_addr env' \<Longrightarrow> cfg env = cfg env' \<Longrightarrow> ms_inv env s = ms_inv env' s"
  "cfg env = cfg env' \<Longrightarrow> sized env = sized env'"
  by (simp_all add: ms_inv_def views_ok_def active_ok_def passive_ok_def my_id_def sized_def)

lemma reachable_ok:
  assumes "ms_reachable (node_id env) (my_addr env) (cfg env) s" "sized env"
  shows "ms_inv env s"
  using assms(1)
proof induction
  case (ms_start boot)
  then show ?case by (simp add: ms_inv_def views_ok_def members_ok_def active_ok_def passive_ok_def membership_new_def)
next
  case (ms_step s env' dec hash now cmd)
  have "ms_inv env' s" using ms_step(5) ms_inv_node(1) [of env' env s] ms_step(2-4) by simp
  moreover have "sized env'" using assms(2) ms_inv_node(2) [of env' env] ms_step(4) by simp
  ultimately show ?case using run_command_ok ms_inv_node(1) [of env' env] ms_step(2-4) by blast
qed

text \<open>(C15) Through every run of joins, probes, shuffles, pushes and received messages, whatever the peers answer: each view keeps within
  its size, no peer is in a view twice or in both views, the node is in neither, and each active peer is kept under its own identity.\<close>

theorem views_bounded:
  assumes "ms_reachable (node_id env) (my_addr env) (cfg env) s" "0 < active_size (cfg env)" "0 < passive_size (cfg env)"
  shows "length (v_active s) \<le> active_size (cfg env) \<and> length (v_passive s) \<le> passive_size (cfg env)
    \<and> distinct (map (node_id env) (map (ps_addr \<circ> snd) (v_active s) @ v_passive s))
    \<and> my_id env \<notin> node_id env ` (set (map (ps_addr \<circ> snd) (v_active s)) \<union> set (v_passive s))
    \<and> (\<forall>i st. bt_get (v_active s) i = Some st \<longrightarrow> node_id env (ps_addr st) = i)"
proof -
  have "ms_inv env s" using assms by (intro reachable_ok) (simp_all add: sized_def)
  then have a: "active_ok env (v_active s)" and p: "passive_ok env (v_active s) (v_passive s)" by (simp_all add: ms_inv_def views_ok_def)
  have keys: "map (node_id env) (map (ps_addr \<circ> snd) (v_active s)) = map fst (v_active s)"
    using a by (auto simp: active_ok_def bt_get_Some_iff)
  have "distinct (map fst (v_active s))" using a bt_inv_distinct by (auto simp: active_ok_def)
  moreover have "set (map fst (v_active s)) \<inter> set (map (node_id env) (v_passive s)) = {}"
    using p by (force simp: passive_ok_def bt_get_None_iff)
  moreover have "my_id env \<notin> set (map fst (v_active s))"
    using a bt_get_None_iff [of "v_active s" "my_id env"] by (fastforce simp: active_ok_def)
  ultimately show ?thesis using a p keys unfolding map_append distinct_append
    by (auto simp: active_ok_def passive_ok_def distinct_map [of "node_id env"] simp flip: keys)
qed

definition suspect_run :: "u8 membership" where
  "suspect_run = run_command (node_env 1) (\<lambda>_ _. Some (MMemberSync [said 3 4 1])) (\<lambda>_. 0) 9
     (Stream 3 [0, 0, 1, 7, 1, 0, 0, 0, 0, 0, 0, 0, 0, 0, 0, 0, 0]) (membership_new [])"

lemma reachable_witness:
  "ms_reachable (node_id (node_env 1)) (my_addr (node_env 1)) (cfg (node_env 1)) suspect_run"
  unfolding suspect_run_def by (rule ms_step [OF ms_start]) simp_all

theorem views_bounded_witness:
  "length (v_active suspect_run) \<le> active_size (cfg (node_env 1))"
  using views_bounded [OF reachable_witness] by (simp add: config_default_def)

text \<open>Every suspect has a running clock: in every run, a suspected member has a moment from which it is due to be declared dead
  once the suspicion timeout has passed since, and no member that is not suspected is ever due.\<close>

theorem suspects_expire:
  assumes "ms_reachable (node_id env) (my_addr env) (cfg env) s" "0 < active_size (cfg env)" "0 < passive_size (cfg env)"
    and "bt_get (v_members s) i = Some m"
  shows "if m_state m = Suspect then \<exists>t. \<forall>now. i \<in> set (expired_suspects env now s) \<longleftrightarrow> suspect_timeout (cfg env) \<le> sat_sub now t
    else \<forall>now. i \<notin> set (expired_suspects env now s)"
proof -
  have "ms_inv env s" using assms by (intro reachable_ok) (simp_all add: sized_def)
  then have inv: "bt_inv (v_members s)" and clock: "clock_ok m" using assms(4) by (auto simp: ms_inv_def members_ok_def)
  have "i \<in> set (expired_suspects env now s) \<longleftrightarrow> m_state m = Suspect \<and> (\<exists>t. suspect_since_ms m = Some t \<and> suspect_timeout (cfg env) \<le> sat_sub now t)" for now
  proof -
    let ?due = "\<lambda>m. m_state m = Suspect \<and> (case suspect_since_ms m of None \<Rightarrow> False | Some t \<Rightarrow> suspect_timeout (cfg env) \<le> sat_sub now t)"
    have "i \<in> set (expired_suspects env now s) \<longleftrightarrow> (\<exists>m'. (i, m') \<in> set (v_members s) \<and> ?due m')"
      by (force simp: expired_suspects_def)
    moreover have "(i, m') \<in> set (v_members s) \<longleftrightarrow> m' = m" for m' using assms(4) bt_get_Some_iff [OF inv, of i m'] by auto
    ultimately show ?thesis by (simp split: option.split)
  qed
  then show ?thesis using clock by (auto simp: clock_ok_def)
qed

theorem suspects_expire_witness:
  "\<exists>t. \<forall>now. 3 \<in> set (expired_suspects (node_env 1) now suspect_run)
    \<longleftrightarrow> 6000 \<le> sat_sub now t"
proof -
  have "decode_frame (\<lambda>_ _. Some (MMemberSync [said 3 4 1])) [0, 0, 1, 7, 1, 0, 0, 0, 0, 0, 0, 0, 0, 0, 0, 0, 0]
      = Inr \<lparr>fr_version = 1, fr_hlc_ts = 0, fr_message = MMemberSync [said 3 4 1]\<rparr>"
    by (simp add: decode_frame_def decode_body_def of_be_bytes_def HEADER_LEN_def MAX_MESSAGE_SIZE_def WIRE_VERSION_def known_tags_def tag_defs)
  then have "bt_get (v_members suspect_run) 3 = Some \<lparr>m_addr = 3, last_heard_ms = 5, incarnation = 4, m_state = Suspect, suspect_since_ms = Some 9\<rparr>"
    by (simp add: suspect_run_def handle_stream_def MAX_FRAME_def note_heard_def merge_members_def merge_step_def merge_one_def membership_new_def said_def
      state_from_u8_def mark_dirty_def Let_def)
  from suspects_expire [OF reachable_witness _ _ this] show ?thesis by (simp add: config_default_def)
qed

text \<open>Filling the active view ends, with the view full or no passive peer left to try.\<close>

theorem fill_active_fills: "length (v_active (fill_active env now s)) \<ge> active_size (cfg env) \<or> v_passive (fill_active env now s) = []"
proof (induction env now s rule: fill_active.induct)
  case (1 env now s)
  then show ?case by (subst (1 2) fill_active.simps) (auto simp: Let_def)
qed

end
