(* ===== verification/Cipher.thy ===== *)
theory Cipher
  imports Zeph_Prelude
begin

text \<open>
  Content encryption, \<open>src/crates/cipher/src/lib.rs\<close>: sealing of bytes under a data key, capsules of data
  keys, and sharing by threshold proxy re-encryption. The authenticated cipher, the keyed hash and the
  Umbral scheme are libraries: they are parameters, with their documented laws as hypotheses. Random draws
  are arguments.
\<close>

section \<open>Sealing\<close>

definition DEK_LEN :: nat where "DEK_LEN = 32"

definition XNONCE_LEN :: nat where "XNONCE_LEN = 24"

datatype cipher_error = Decrypt | Malformed string

type_synonym dek = bytes32

record aead =
  aead_encrypt :: "dek \<Rightarrow> bytes \<Rightarrow> bytes \<Rightarrow> bytes"
  aead_decrypt :: "dek \<Rightarrow> bytes \<Rightarrow> bytes \<Rightarrow> bytes option"
  keyed_xof :: "dek \<Rightarrow> bytes \<Rightarrow> nat \<Rightarrow> bytes"

definition seal :: "aead \<Rightarrow> bytes \<Rightarrow> dek \<Rightarrow> bytes \<Rightarrow> bytes" where
  "seal ad nonce k plain = nonce @ aead_encrypt ad k nonce plain"

definition seal_deterministic :: "aead \<Rightarrow> dek \<Rightarrow> bytes \<Rightarrow> bytes" where
  "seal_deterministic ad k plain = (let nonce = keyed_xof ad k (ascii ''craftec/det-nonce/v1'' @ plain) XNONCE_LEN in
     nonce @ aead_encrypt ad k nonce plain)"

definition sealed_open :: "aead \<Rightarrow> dek \<Rightarrow> bytes \<Rightarrow> cipher_error + bytes" where
  "sealed_open ad k sealed = (if length sealed < XNONCE_LEN then Inl (Malformed ''sealed blob shorter than nonce'')
     else case aead_decrypt ad k (take XNONCE_LEN sealed) (drop XNONCE_LEN sealed) of None \<Rightarrow> Inl Decrypt | Some p \<Rightarrow> Inr p)"

text \<open>What the cipher library documents: decryption under the same key and nonce recovers the plaintext, and the hash fills its buffer.\<close>

definition aead_laws :: "aead \<Rightarrow> bool" where
  "aead_laws ad \<longleftrightarrow> (\<forall>k nonce p. aead_decrypt ad k nonce (aead_encrypt ad k nonce p) = Some p) \<and> (\<forall>k m n. length (keyed_xof ad k m n) = n)"

lemma open_seal: "aead_laws ad \<Longrightarrow> length nonce = XNONCE_LEN \<Longrightarrow> sealed_open ad k (seal ad nonce k p) = Inr p"
  by (simp add: sealed_open_def seal_def aead_laws_def)

lemma open_seal_deterministic: "aead_laws ad \<Longrightarrow> sealed_open ad k (seal_deterministic ad k p) = Inr p"
  by (simp add: sealed_open_def seal_deterministic_def aead_laws_def Let_def)

section \<open>Capsules\<close>

record ('sk, 'pk, 'cap, 'kf, 'cf) umbral =
  public_key :: "'sk \<Rightarrow> 'pk"
  umbral_encrypt :: "nat \<Rightarrow> 'pk \<Rightarrow> bytes \<Rightarrow> 'cap \<times> bytes"
  decrypt_original :: "'sk \<Rightarrow> 'cap \<Rightarrow> bytes \<Rightarrow> bytes option"
  generate_kfrags :: "'sk \<Rightarrow> 'pk \<Rightarrow> nat \<Rightarrow> nat \<Rightarrow> 'kf list"
  kfrag_verify :: "'kf \<Rightarrow> 'pk \<Rightarrow> 'pk \<Rightarrow> bool"
  umbral_reencrypt :: "'cap \<Rightarrow> 'kf \<Rightarrow> 'cf"
  cfrag_verify :: "'cf \<Rightarrow> 'cap \<Rightarrow> 'pk \<Rightarrow> 'pk \<Rightarrow> bool"
  decrypt_reencrypted :: "'sk \<Rightarrow> 'pk \<Rightarrow> 'cap \<Rightarrow> 'cf list \<Rightarrow> bytes \<Rightarrow> bytes option"

record 'cap dek_capsule =
  dc_capsule :: 'cap
  enc_dek :: bytes

record 'cap sealed_object =
  so_capsule :: "'cap dek_capsule"
  so_ciphertext :: bytes

definition encapsulate :: "('sk, 'pk, 'cap, 'kf, 'cf) umbral \<Rightarrow> nat \<Rightarrow> 'pk \<Rightarrow> dek \<Rightarrow> 'cap dek_capsule" where
  "encapsulate um r pk k = (case umbral_encrypt um r pk (be_bytes DEK_LEN k) of (c, e) \<Rightarrow> \<lparr>dc_capsule = c, enc_dek = e\<rparr>)"

definition dek_of :: "bytes \<Rightarrow> cipher_error + dek" where
  "dek_of b = (if length b = DEK_LEN then Inr (of_be_bytes b) else Inl (Malformed ''dek length''))"

definition open_capsule :: "('sk, 'pk, 'cap, 'kf, 'cf) umbral \<Rightarrow> 'sk \<Rightarrow> 'cap dek_capsule \<Rightarrow> cipher_error + dek" where
  "open_capsule um sk c = (case decrypt_original um sk (dc_capsule c) (enc_dek c) of None \<Rightarrow> Inl Decrypt | Some b \<Rightarrow> dek_of b)"

definition encrypt :: "('sk, 'pk, 'cap, 'kf, 'cf) umbral \<Rightarrow> aead \<Rightarrow> nat \<Rightarrow> dek \<Rightarrow> bytes \<Rightarrow> 'pk \<Rightarrow> bytes \<Rightarrow> 'cap sealed_object" where
  "encrypt um ad r k nonce pk plain = \<lparr>so_capsule = encapsulate um r pk k, so_ciphertext = seal ad nonce k plain\<rparr>"

definition decrypt_self :: "('sk, 'pk, 'cap, 'kf, 'cf) umbral \<Rightarrow> aead \<Rightarrow> 'sk \<Rightarrow> 'cap sealed_object \<Rightarrow> cipher_error + bytes" where
  "decrypt_self um ad sk obj = (case open_capsule um sk (so_capsule obj) of Inl e \<Rightarrow> Inl e | Inr k \<Rightarrow> sealed_open ad k (so_ciphertext obj))"

section \<open>Sharing\<close>

definition grant :: "('sk, 'pk, 'cap, 'kf, 'cf) umbral \<Rightarrow> 'sk \<Rightarrow> 'pk \<Rightarrow> nat \<Rightarrow> nat \<Rightarrow> 'kf list" where
  "grant um sk pk threshold shares = generate_kfrags um sk pk threshold shares"

definition reencrypt :: "('sk, 'pk, 'cap, 'kf, 'cf) umbral \<Rightarrow> 'pk \<Rightarrow> 'pk \<Rightarrow> 'cap sealed_object \<Rightarrow> 'kf \<Rightarrow> cipher_error + 'cf" where
  "reencrypt um owner_pk recipient_pk obj kf = (if kfrag_verify um kf owner_pk recipient_pk
     then Inr (umbral_reencrypt um (dc_capsule (so_capsule obj)) kf) else Inl (Malformed ''kfrag verify''))"

definition decrypt_granted :: "('sk, 'pk, 'cap, 'kf, 'cf) umbral \<Rightarrow> aead \<Rightarrow> 'sk \<Rightarrow> 'pk \<Rightarrow> 'cap sealed_object \<Rightarrow> 'cf list \<Rightarrow> cipher_error + bytes" where
  "decrypt_granted um ad sk owner_pk obj cfs =
     (let cap = dc_capsule (so_capsule obj) in
      if \<exists>cf \<in> set cfs. \<not> cfrag_verify um cf cap owner_pk (public_key um sk) then Inl Decrypt
      else case decrypt_reencrypted um sk owner_pk cap cfs (enc_dek (so_capsule obj)) of None \<Rightarrow> Inl Decrypt
        | Some b \<Rightarrow> (case dek_of b of Inl e \<Rightarrow> Inl e | Inr k \<Rightarrow> sealed_open ad k (so_ciphertext obj)))"

text \<open>What the scheme documents: the owner opens its own capsule; a fragment of a grant verifies, and so does what a proxy makes of it;
  and a threshold, of at least one and at most the number of shares, of fragments of one grant, from different proxies, opens the capsule
  for the recipient. Nothing is said of fewer fragments or of a threshold of zero, which the library refuses.\<close>

definition opens_own :: "('sk, 'pk, 'cap, 'kf, 'cf) umbral \<Rightarrow> bool" where
  "opens_own um \<longleftrightarrow> (\<forall>sk r m c e. umbral_encrypt um r (public_key um sk) m = (c, e) \<longrightarrow> decrypt_original um sk c e = Some m)"

definition fragments_verify :: "('sk, 'pk, 'cap, 'kf, 'cf) umbral \<Rightarrow> bool" where
  "fragments_verify um \<longleftrightarrow> (\<forall>sk pk t n. 1 \<le> t \<and> t \<le> n \<longrightarrow> (\<forall>kf \<in> set (generate_kfrags um sk pk t n).
     kfrag_verify um kf (public_key um sk) pk \<and> (\<forall>c. cfrag_verify um (umbral_reencrypt um c kf) c (public_key um sk) pk)))"

definition threshold_opens :: "('sk, 'pk, 'cap, 'kf, 'cf) umbral \<Rightarrow> bool" where
  "threshold_opens um \<longleftrightarrow> (\<forall>sk sk' r m c e t n kfs. umbral_encrypt um r (public_key um sk) m = (c, e) \<and> distinct kfs \<and> 1 \<le> t \<and> t \<le> n \<and> t \<le> length kfs
     \<and> set kfs \<subseteq> set (generate_kfrags um sk (public_key um sk') t n)
     \<longrightarrow> decrypt_reencrypted um sk' (public_key um sk) c (map (umbral_reencrypt um c) kfs) e = Some m)"

definition umbral_laws :: "('sk, 'pk, 'cap, 'kf, 'cf) umbral \<Rightarrow> bool" where
  "umbral_laws um \<longleftrightarrow> opens_own um \<and> fragments_verify um \<and> threshold_opens um"

lemma dek_of_bytes: "dek_of (be_bytes DEK_LEN k) = Inr k"
  by (simp add: dek_of_def DEK_LEN_def)

text \<open>(C33) Sharing works: what is encrypted for an owner is read by the owner, and by the recipient of a grant, of a threshold of at
  least one and at most the number of shares, from what any threshold of the granted proxies return, each of which accepts its
  fragment.\<close>

theorem granted_read:
  assumes "umbral_laws um" "aead_laws ad" "length nonce = XNONCE_LEN"
    and "obj = encrypt um ad r k nonce (public_key um owner) plain"
    and "distinct kfs" "set kfs \<subseteq> set (grant um owner (public_key um recipient) threshold shares)" "1 \<le> threshold" "threshold \<le> shares" "threshold \<le> length kfs"
  shows "decrypt_self um ad owner obj = Inr plain
    \<and> (\<exists>cfs. map (reencrypt um (public_key um owner) (public_key um recipient) obj) kfs = map Inr cfs
         \<and> decrypt_granted um ad recipient (public_key um owner) obj cfs = Inr plain)"
proof -
  obtain c e where ce: "umbral_encrypt um r (public_key um owner) (be_bytes DEK_LEN k) = (c, e)" by fastforce
  have obj: "obj = \<lparr>so_capsule = \<lparr>dc_capsule = c, enc_dek = e\<rparr>, so_ciphertext = seal ad nonce k plain\<rparr>"
    by (simp add: assms(4) encrypt_def encapsulate_def ce)
  have o: "sealed_open ad k (seal ad nonce k plain) = Inr plain" by (rule open_seal [OF assms(2,3)])
  have self: "decrypt_self um ad owner obj = Inr plain"
    using assms(1) ce o by (simp add: obj decrypt_self_def open_capsule_def dek_of_bytes umbral_laws_def opens_own_def)
  let ?cfs = "map (umbral_reencrypt um c) kfs"
  have kf: "kfrag_verify um kf (public_key um owner) (public_key um recipient) \<and> cfrag_verify um (umbral_reencrypt um c kf) c (public_key um owner) (public_key um recipient)"
    if "kf \<in> set kfs" for kf
    using that assms(1,6-8) unfolding umbral_laws_def fragments_verify_def grant_def by (meson subsetD)
  have "map (reencrypt um (public_key um owner) (public_key um recipient) obj) kfs = map Inr ?cfs"
    using kf by (simp add: reencrypt_def obj)
  moreover have "decrypt_reencrypted um recipient (public_key um owner) c ?cfs e = Some (be_bytes DEK_LEN k)"
    using assms(1,5-9) ce unfolding umbral_laws_def threshold_opens_def grant_def by meson
  then have "decrypt_granted um ad recipient (public_key um owner) obj ?cfs = Inr plain"
    using kf o by (auto simp: decrypt_granted_def obj dek_of_bytes)
  ultimately show ?thesis using self by blast
qed

text \<open>Libraries with the documented laws and no secrecy, for concrete runs: a fragment is the owner's number and its own.\<close>

definition plain_aead :: aead where
  "plain_aead = \<lparr>aead_encrypt = (\<lambda>k nonce p. p), aead_decrypt = (\<lambda>k nonce p. Some p), keyed_xof = (\<lambda>k m n. replicate n 0)\<rparr>"

definition plain_umbral :: "(nat, nat, nat, nat \<times> nat, nat) umbral" where
  "plain_umbral = \<lparr>public_key = (\<lambda>sk. sk), umbral_encrypt = (\<lambda>r pk m. (pk, m)), decrypt_original = (\<lambda>sk c e. if sk = c then Some e else None),
     generate_kfrags = (\<lambda>sk pk t n. map (Pair sk) [0..<n]), kfrag_verify = (\<lambda>kf d r. fst kf = d), umbral_reencrypt = (\<lambda>c kf. snd kf),
     cfrag_verify = (\<lambda>cf c d r. True), decrypt_reencrypted = (\<lambda>sk pk c cfs e. if cfs = [] then None else Some e)\<rparr>"

lemma plain_aead_laws: "aead_laws plain_aead"
  by (simp add: aead_laws_def plain_aead_def)

lemma plain_umbral_laws: "umbral_laws plain_umbral"
  by (auto simp: umbral_laws_def opens_own_def fragments_verify_def threshold_opens_def plain_umbral_def)

theorem granted_read_witness:
  "decrypt_self plain_umbral plain_aead 1 (encrypt plain_umbral plain_aead 0 5 (replicate 24 0) 1 [7, 8]) = Inr [7, 8]
    \<and> (\<exists>cfs. map (reencrypt plain_umbral 1 2 (encrypt plain_umbral plain_aead 0 5 (replicate 24 0) 1 [7, 8])) [(1, 0), (1, 2)] = map Inr cfs
         \<and> decrypt_granted plain_umbral plain_aead 2 1 (encrypt plain_umbral plain_aead 0 5 (replicate 24 0) 1 [7, 8]) cfs = Inr [7, 8])"
  using granted_read [OF plain_umbral_laws plain_aead_laws, of "replicate 24 0" _ 0 5 1 "[7, 8]" "[(1, 0), (1, 2)]" 2 2 3]
  by (simp add: XNONCE_LEN_def grant_def plain_umbral_def)

end
