(* ===== verification/Pager.thy ===== *)
theory Pager
  imports Cipher BTree_Map
begin

text \<open>
  The storage core of CraftSQL, \<open>src/crates/sql/src/store.rs\<close> and \<open>src/crates/sql/src/pager.rs\<close>: a
  content-addressed object store, and the pager that keeps the pages of a database as objects under a radix
  tree of index nodes with 256 children each, commits to one root, and opens a root again. The file system
  under the store does not fail in the model. The hash, the serialisation and the cipher are parameters.
\<close>

section \<open>The object store\<close>

text \<open>One database's directory, with the older flat directory it falls back to for reads. The last field belongs to no code: it notes
  whether two different objects ever met under one hash.\<close>

record object_store =
  os_root :: "(bytes32, bytes) btree"
  os_fallback :: "(bytes32, bytes) btree"
  os_clash :: bool

definition os_get :: "object_store \<Rightarrow> bytes32 \<Rightarrow> bytes option" where
  "os_get st c = (case bt_get (os_root st) c of Some b \<Rightarrow> Some b | None \<Rightarrow> bt_get (os_fallback st) c)"

definition os_has :: "object_store \<Rightarrow> bytes32 \<Rightarrow> bool" where
  "os_has st c \<longleftrightarrow> bt_get (os_root st) c \<noteq> None \<or> bt_get (os_fallback st) c \<noteq> None"

definition os_put :: "(bytes \<Rightarrow> bytes32) \<Rightarrow> bytes \<Rightarrow> object_store \<Rightarrow> bytes32 \<times> object_store" where
  "os_put hash d st = (let c = hash d; clash = os_clash st \<or> (os_has st c \<and> os_get st c \<noteq> Some d) in
     if bt_get (os_root st) c \<noteq> None then (c, st\<lparr>os_clash := clash\<rparr>)
     else (c, st\<lparr>os_root := bt_insert c d (os_root st), os_clash := clash\<rparr>))"

definition os_list :: "object_store \<Rightarrow> bytes32 list" where
  "os_list st = map fst (os_root st)"

definition os_delete :: "bytes32 \<Rightarrow> object_store \<Rightarrow> object_store" where
  "os_delete c st = st\<lparr>os_root := bt_remove c (os_root st)\<rparr>"

section \<open>The index\<close>

definition PAGE_SIZE :: nat where "PAGE_SIZE = 16 * 1024"

definition FANOUT :: nat where "FANOUT = 256"

type_synonym node_map = "(u8, bytes32) btree"

record root_index =
  ri_page_count :: u32
  ri_depth :: u8
  ri_root_cid :: bytes32
  ri_wrapped_dek :: bytes

datatype sql_error = Io | Serde | RootNotFound bytes32 | CorruptIndex | Sqlite | Conflict | ReadOnly

record pager_env =
  pe_hash :: "bytes \<Rightarrow> bytes32"
  node_enc :: "node_map \<Rightarrow> bytes"
  node_dec :: "bytes \<Rightarrow> node_map option"
  root_enc :: "root_index \<Rightarrow> bytes"
  root_dec :: "bytes \<Rightarrow> root_index option"
  pe_aead :: aead

definition decode_root :: "pager_env \<Rightarrow> bytes \<Rightarrow> sql_error + root_index" where
  "decode_root e b = (case root_dec e b of None \<Rightarrow> Inl CorruptIndex | Some r \<Rightarrow> Inr r)"

definition seal_index :: "pager_env \<Rightarrow> dek option \<Rightarrow> bytes \<Rightarrow> bytes" where
  "seal_index e k plain = (case k of Some dek \<Rightarrow> seal_deterministic (pe_aead e) dek plain | None \<Rightarrow> plain)"

definition open_index :: "pager_env \<Rightarrow> dek option \<Rightarrow> bytes \<Rightarrow> sql_error + bytes" where
  "open_index e k stored = (case k of None \<Rightarrow> Inr stored
     | Some dek \<Rightarrow> (case sealed_open (pe_aead e) dek stored of Inl _ \<Rightarrow> Inl CorruptIndex | Inr p \<Rightarrow> Inr p))"

definition decode_node :: "pager_env \<Rightarrow> bytes \<Rightarrow> sql_error + node_map" where
  "decode_node e b = (case node_dec e b of None \<Rightarrow> Inl CorruptIndex | Some m \<Rightarrow> Inr m)"

definition decode_node_sealed :: "pager_env \<Rightarrow> dek option \<Rightarrow> bytes \<Rightarrow> sql_error + node_map" where
  "decode_node_sealed e k stored = (case open_index e k stored of Inl err \<Rightarrow> Inl err | Inr b \<Rightarrow> decode_node e b)"

text \<open>The loop grows the capacity until it holds the pages: at most three times for a 32-bit count.\<close>

function depth_loop :: "nat \<Rightarrow> nat \<Rightarrow> nat \<Rightarrow> nat" where
  "depth_loop cap d n = (if cap < n \<and> 0 < cap then depth_loop (cap * FANOUT) (d + 1) n else d)"
  by pat_completeness auto
termination by (relation "measure (\<lambda>(cap, d, n). n - cap)") (auto simp: FANOUT_def)

declare depth_loop.simps [simp del]

definition depth_for :: "u32 \<Rightarrow> u8" where
  "depth_for n = (if n = 0 then 0 else of_nat (depth_loop FANOUT 1 (unat n)))"

section \<open>The pager\<close>

record pager =
  pg_store :: object_store
  pg_pages :: "(u32, bytes32) btree"
  pg_dirty :: "(u32, bytes) btree"
  pg_dirty_index :: "u32 list"
  pg_node_cids :: "nat \<times> u32 \<Rightarrow> bytes32 option"
  pg_page_count :: u32
  pg_depth :: u8
  pg_remote :: "(bytes32 \<Rightarrow> bytes option) option"
  pg_cipher :: "dek option"
  pg_wrapped_dek :: bytes

definition pager_create :: "object_store \<Rightarrow> pager" where
  "pager_create st = \<lparr>pg_store = st, pg_pages = [], pg_dirty = [], pg_dirty_index = [], pg_node_cids = Map.empty, pg_page_count = 0, pg_depth = 0,
     pg_remote = None, pg_cipher = None, pg_wrapped_dek = []\<rparr>"

text \<open>One child of an index node: a page of a leaf, else a subtree. The key is computed in 64 bits and cut to 32.\<close>

definition child_key :: "u32 \<Rightarrow> nat \<Rightarrow> u32" where
  "child_key nk i = of_nat (unat nk * FANOUT + i)"

text \<open>A loop whose body may return an error.\<close>

fun fold_err :: "('x \<Rightarrow> 'b \<Rightarrow> 'e + 'b) \<Rightarrow> 'x list \<Rightarrow> 'b \<Rightarrow> 'e + 'b" where
  "fold_err f [] acc = Inr acc"
| "fold_err f (x # xs) acc = (case f x acc of Inl err \<Rightarrow> Inl err | Inr acc \<Rightarrow> fold_err f xs acc)"

definition read_node :: "pager_env \<Rightarrow> object_store \<Rightarrow> dek option \<Rightarrow> bytes32 \<Rightarrow> sql_error + node_map" where
  "read_node e st k c = (case os_get st c of None \<Rightarrow> Inl CorruptIndex | Some b \<Rightarrow> decode_node_sealed e k b)"

type_synonym loaded = "(u32, bytes32) btree \<times> (nat \<times> u32 \<Rightarrow> bytes32 option)"

primrec load_subtree :: "nat \<Rightarrow> pager_env \<Rightarrow> object_store \<Rightarrow> dek option \<Rightarrow> u32 \<Rightarrow> bytes32 \<Rightarrow> loaded \<Rightarrow> sql_error + loaded" where
  "load_subtree 0 e st k nk c acc = (case read_node e st k c of Inl err \<Rightarrow> Inl err
     | Inr m \<Rightarrow> Inr (fold (\<lambda>(i, child). bt_insert (child_key nk (unat i)) child) m (fst acc), (snd acc)((0, nk) \<mapsto> c)))"
| "load_subtree (Suc l) e st k nk c acc = (case read_node e st k c of Inl err \<Rightarrow> Inl err
     | Inr m \<Rightarrow> fold_err (\<lambda>(i, child). load_subtree l e st k (child_key nk (unat i)) child) m (fst acc, (snd acc)((Suc l, nk) \<mapsto> c)))"

definition pager_open :: "pager_env \<Rightarrow> object_store \<Rightarrow> bytes32 \<Rightarrow> dek option \<Rightarrow> sql_error + pager" where
  "pager_open e st root k = (case os_get st root of None \<Rightarrow> Inl (RootNotFound root) | Some b \<Rightarrow>
     (case decode_root e b of Inl err \<Rightarrow> Inl err | Inr ri \<Rightarrow>
       (case (if ri_depth ri > 0 then load_subtree (unat (ri_depth ri) - 1) e st k 0 (ri_root_cid ri) ([], Map.empty) else Inr ([], Map.empty)) of
          Inl err \<Rightarrow> Inl err
        | Inr (pages, cids) \<Rightarrow> Inr \<lparr>pg_store = st, pg_pages = pages, pg_dirty = [], pg_dirty_index = [], pg_node_cids = cids,
            pg_page_count = ri_page_count ri, pg_depth = ri_depth ri, pg_remote = None, pg_cipher = k, pg_wrapped_dek = ri_wrapped_dek ri\<rparr>)))"

definition set_remote :: "(bytes32 \<Rightarrow> bytes option) \<Rightarrow> pager \<Rightarrow> pager" where
  "set_remote f p = p\<lparr>pg_remote := Some f\<rparr>"

definition set_cipher :: "dek \<Rightarrow> pager \<Rightarrow> pager" where
  "set_cipher k p = p\<lparr>pg_cipher := Some k\<rparr>"

definition set_wrapped_dek :: "bytes \<Rightarrow> pager \<Rightarrow> pager" where
  "set_wrapped_dek w p = p\<lparr>pg_wrapped_dek := w\<rparr>"

section \<open>Reading and writing\<close>

definition pager_object :: "pager_env \<Rightarrow> bytes32 \<Rightarrow> pager \<Rightarrow> bytes option \<times> pager" where
  "pager_object e c p = (case os_get (pg_store p) c of Some d \<Rightarrow> (Some d, p)
     | None \<Rightarrow> (case Option.bind (pg_remote p) (\<lambda>f. f c) of None \<Rightarrow> (None, p)
        | Some b \<Rightarrow> (Some b, p\<lparr>pg_store := snd (os_put (pe_hash e) b (pg_store p))\<rparr>)))"

definition pad :: "bytes \<Rightarrow> bytes" where
  "pad d = take PAGE_SIZE (d @ replicate PAGE_SIZE 0)"

definition open_page :: "pager_env \<Rightarrow> dek option \<Rightarrow> bytes \<Rightarrow> bytes" where
  "open_page e k d = (case k of None \<Rightarrow> d | Some dek \<Rightarrow> (case sealed_open (pe_aead e) dek d of Inl _ \<Rightarrow> d | Inr p \<Rightarrow> p))"

definition read_page :: "pager_env \<Rightarrow> u32 \<Rightarrow> pager \<Rightarrow> bytes \<times> pager" where
  "read_page e n p = (case bt_get (pg_dirty p) n of Some d \<Rightarrow> (pad d, p)
     | None \<Rightarrow> (case bt_get (pg_pages p) n of None \<Rightarrow> (replicate PAGE_SIZE 0, p)
        | Some c \<Rightarrow> (case pager_object e c p of (None, p1) \<Rightarrow> (replicate PAGE_SIZE 0, p1)
           | (Some d, p1) \<Rightarrow> (pad (open_page e (pg_cipher p) d), p1))))"

text \<open>The successor of the last page number overflows.\<close>

definition write_page :: "u32 \<Rightarrow> bytes \<Rightarrow> pager \<Rightarrow> pager option" where
  "write_page n d p = map_option (\<lambda>m. p\<lparr>pg_dirty := bt_insert n d (pg_dirty p), pg_dirty_index := insort_insert n (pg_dirty_index p),
     pg_page_count := (if m > pg_page_count p then m else pg_page_count p)\<rparr>) (checked_add n 1)"

definition set_page_count :: "u32 \<Rightarrow> pager \<Rightarrow> pager" where
  "set_page_count m p = (let drop = filter (\<lambda>n. n \<ge> m) (map fst (pg_pages p));
       p1 = fold (\<lambda>n p. p\<lparr>pg_pages := bt_remove n (pg_pages p), pg_dirty_index := insort_insert n (pg_dirty_index p)\<rparr>) drop p
     in p1\<lparr>pg_dirty := filter (\<lambda>(n, d). n < m) (pg_dirty p1), pg_page_count := m\<rparr>)"

function read_at :: "pager_env \<Rightarrow> nat \<Rightarrow> nat \<Rightarrow> pager \<Rightarrow> bytes \<times> pager" where
  "read_at e len pos p = (if len = 0 then ([], p)
     else let within = pos mod PAGE_SIZE; n = min (PAGE_SIZE - within) len in
       (case read_page e (of_nat (pos div PAGE_SIZE)) p of (pdata, p1) \<Rightarrow>
         (case read_at e (len - n) (pos + n) p1 of (rest, p2) \<Rightarrow> (take n (drop within pdata) @ rest, p2))))"
  by pat_completeness auto
termination by (relation "measure (\<lambda>(e, len, pos, p). len)") (auto simp: PAGE_SIZE_def)

function write_at :: "pager_env \<Rightarrow> bytes \<Rightarrow> nat \<Rightarrow> pager \<Rightarrow> pager option" where
  "write_at e buf pos p = (if buf = [] then Some p
     else let within = pos mod PAGE_SIZE; n = min (PAGE_SIZE - within) (length buf); page = of_nat (pos div PAGE_SIZE) in
       (case read_page e page p of (pdata, p1) \<Rightarrow>
         (case write_page page (take within pdata @ take n buf @ drop (within + n) pdata) p1 of None \<Rightarrow> None
          | Some p2 \<Rightarrow> write_at e (drop n buf) (pos + n) p2)))"
  by pat_completeness auto
termination by (relation "measure (\<lambda>(e, buf, pos, p). length buf)") (auto simp: PAGE_SIZE_def)

declare read_at.simps [simp del] write_at.simps [simp del]

section \<open>Committing\<close>

definition btset_of :: "u32 list \<Rightarrow> u32 list" where
  "btset_of xs = sort (remdups xs)"

definition collect :: "(nat \<Rightarrow> bytes32 option) \<Rightarrow> node_map" where
  "collect f = List.map_filter (\<lambda>i. map_option (Pair (of_nat i)) (f i)) [0..<FANOUT]"

definition child_cid :: "pager \<Rightarrow> nat \<Rightarrow> u32 \<Rightarrow> bytes32 option" where
  "child_cid p level key = (case level of 0 \<Rightarrow> bt_get (pg_pages p) key | Suc l \<Rightarrow> pg_node_cids p (l, key))"

definition rebuild_node :: "pager_env \<Rightarrow> nat \<Rightarrow> u32 \<Rightarrow> pager \<Rightarrow> pager" where
  "rebuild_node e level nk p = (let children = collect (\<lambda>i. child_cid p level (child_key nk i)) in
     if children = [] then p\<lparr>pg_node_cids := (pg_node_cids p)((level, nk) := None)\<rparr>
     else case os_put (pe_hash e) (seal_index e (pg_cipher p) (node_enc e children)) (pg_store p) of (c, st) \<Rightarrow>
       p\<lparr>pg_store := st, pg_node_cids := (pg_node_cids p)((level, nk) \<mapsto> c)\<rparr>)"

definition parent_key :: "u32 \<Rightarrow> u32" where
  "parent_key n = of_nat (unat n div FANOUT)"

primrec rebuild_levels :: "nat list \<Rightarrow> pager_env \<Rightarrow> u32 list \<Rightarrow> pager \<Rightarrow> pager" where
  "rebuild_levels [] e dirty_keys p = p"
| "rebuild_levels (level # ls) e dirty_keys p = rebuild_levels ls e (btset_of (map parent_key dirty_keys)) (fold (rebuild_node e level) dirty_keys p)"

definition rebuild :: "pager_env \<Rightarrow> u32 list \<Rightarrow> pager \<Rightarrow> pager" where
  "rebuild e changed p = (if pg_depth p = 0 then p\<lparr>pg_node_cids := Map.empty\<rparr>
     else rebuild_levels [0..<unat (pg_depth p)] e (btset_of (map parent_key changed)) p)"

definition flush_page :: "pager_env \<Rightarrow> u32 \<times> bytes \<Rightarrow> pager \<Rightarrow> pager" where
  "flush_page e nd p = (case os_put (pe_hash e) (seal_index e (pg_cipher p) (snd nd)) (pg_store p) of (c, st) \<Rightarrow>
     p\<lparr>pg_store := st, pg_pages := bt_insert (fst nd) c (pg_pages p)\<rparr>)"

definition commit :: "pager_env \<Rightarrow> pager \<Rightarrow> bytes32 \<times> pager" where
  "commit e p =
     (let p1 = fold (flush_page e) (pg_dirty p) (p\<lparr>pg_dirty := []\<rparr>);
          new_depth = depth_for (pg_page_count p1);
          (changed, p2) = (if new_depth \<noteq> pg_depth p1 then (map fst (pg_pages p1), p1\<lparr>pg_depth := new_depth, pg_node_cids := Map.empty\<rparr>)
             else (pg_dirty_index p1, p1));
          p3 = rebuild e changed (p2\<lparr>pg_dirty_index := []\<rparr>);
          root_cid = (if pg_depth p3 = 0 then 0 else case pg_node_cids p3 (unat (pg_depth p3) - 1, 0) of Some c \<Rightarrow> c | None \<Rightarrow> 0);
          ri = \<lparr>ri_page_count = pg_page_count p3, ri_depth = pg_depth p3, ri_root_cid = root_cid, ri_wrapped_dek = pg_wrapped_dek p3\<rparr>
      in case os_put (pe_hash e) (root_enc e ri) (pg_store p3) of (c, st) \<Rightarrow> (c, p3\<lparr>pg_store := st\<rparr>))"

section \<open>Enumerating a snapshot\<close>

text \<open>The frontier holds the nodes of one level: a round visits them and collects the next level, or the pages of the lowest.\<close>

definition reach_round :: "nat \<Rightarrow> pager_env \<Rightarrow> object_store \<Rightarrow> dek option \<Rightarrow> bytes32 list \<Rightarrow> sql_error + bytes32 list \<times> bytes32 list" where
  "reach_round level e st k frontier = fold_err (\<lambda>c (out, nxt). case read_node e st k c of Inl err \<Rightarrow> Inl err
     | Inr m \<Rightarrow> Inr (if level = 0 then (out @ c # map snd m, nxt) else (out @ [c], nxt @ map snd m))) frontier ([], [])"

primrec reach_levels :: "nat \<Rightarrow> pager_env \<Rightarrow> object_store \<Rightarrow> dek option \<Rightarrow> bytes32 list \<Rightarrow> sql_error + bytes32 list" where
  "reach_levels 0 e st k frontier = (case reach_round 0 e st k frontier of Inl err \<Rightarrow> Inl err | Inr (out, nxt) \<Rightarrow> Inr out)"
| "reach_levels (Suc l) e st k frontier = (case reach_round (Suc l) e st k frontier of Inl err \<Rightarrow> Inl err
     | Inr (out, nxt) \<Rightarrow> (case reach_levels l e st k nxt of Inl err \<Rightarrow> Inl err | Inr rest \<Rightarrow> Inr (out @ rest)))"

definition reachable :: "pager_env \<Rightarrow> object_store \<Rightarrow> bytes32 \<Rightarrow> dek option \<Rightarrow> sql_error + bytes32 list" where
  "reachable e st root k = (case os_get st root of None \<Rightarrow> Inl (RootNotFound root) | Some b \<Rightarrow>
     (case decode_root e b of Inl err \<Rightarrow> Inl err | Inr ri \<Rightarrow>
       if ri_depth ri = 0 then Inr [root]
       else (case reach_levels (unat (ri_depth ri) - 1) e st k [ri_root_cid ri] of Inl err \<Rightarrow> Inl err | Inr out \<Rightarrow> Inr (root # out))))"

end
