(* ===== verification/Pager_Laws.thy ===== *)
theory Pager_Laws
  imports Pager
begin

text \<open>
  What the pager promises: between commits it is an array of bytes; a commit depends only on the pages and
  not on the path to them; and every committed root opens again to the pages it was committed with.
\<close>

section \<open>An array of bytes\<close>

definition all_local :: "pager \<Rightarrow> bool" where
  "all_local p \<longleftrightarrow> (\<forall>n c. bt_get (pg_pages p) n = Some c \<longrightarrow> os_get (pg_store p) c \<noteq> None)"

definition page :: "pager_env \<Rightarrow> pager \<Rightarrow> u32 \<Rightarrow> bytes" where
  "page e p n = fst (read_page e n p)"

definition byte :: "pager_env \<Rightarrow> pager \<Rightarrow> nat \<Rightarrow> u8" where
  "byte e p pos = page e p (of_nat (pos div PAGE_SIZE)) ! (pos mod PAGE_SIZE)"

lemma PAGE_SIZE_pos [simp]: "0 < PAGE_SIZE" "PAGE_SIZE \<noteq> 0"
  by (simp_all add: PAGE_SIZE_def)

lemma length_pad [simp]: "length (pad d) = PAGE_SIZE"
  by (simp add: pad_def)

lemma pad_full [simp]: "length d = PAGE_SIZE \<Longrightarrow> pad d = d"
  by (simp add: pad_def)

lemma length_page [simp]: "length (page e p n) = PAGE_SIZE"
  by (simp add: page_def read_page_def split: option.split prod.split)

lemma read_page_local: "all_local p \<Longrightarrow> read_page e n p = (page e p n, p)"
proof (cases "bt_get (pg_dirty p) n")
  case None
  assume l: "all_local p"
  show ?thesis
  proof (cases "bt_get (pg_pages p) n")
    case (Some c)
    then obtain d where "os_get (pg_store p) c = Some d" using l unfolding all_local_def by blast
    then show ?thesis using None Some by (simp add: page_def read_page_def pager_object_def)
  qed (use None in \<open>simp add: page_def read_page_def\<close>)
qed (simp add: page_def read_page_def)

lemma write_page_Some:
  assumes "unat n < 2 ^ 32 - 1"
  shows "\<exists>p'. write_page n d p = Some p' \<and> (\<forall>m. page e p' m = (if m = n then pad d else page e p m)) \<and> (all_local p \<longrightarrow> all_local p')"
proof -
  have "checked_add n 1 = Some (n + 1)" using assms by (simp add: u_simps unat_word_ariths)
  then show ?thesis by (auto simp: write_page_def page_def read_page_def pager_object_def all_local_def split: option.split)
qed

lemma unat_of_nat_u32 [simp]: "a < 2 ^ 32 \<Longrightarrow> unat (of_nat a :: u32) = a"
  by (simp add: unat_of_nat)

lemma of_nat_u32_eq: "a < 2 ^ 32 \<Longrightarrow> b < 2 ^ 32 \<Longrightarrow> (of_nat a :: u32) = of_nat b \<longleftrightarrow> a = b"
  using unat_of_nat_u32 [of a] unat_of_nat_u32 [of b] by metis

lemma page_offset:
  assumes "pos mod PAGE_SIZE + i < PAGE_SIZE"
  shows "(pos + i) div PAGE_SIZE = pos div PAGE_SIZE" "(pos + i) mod PAGE_SIZE = pos mod PAGE_SIZE + i"
proof -
  have eq: "pos + i = (pos mod PAGE_SIZE + i) + (pos div PAGE_SIZE) * PAGE_SIZE" using div_mult_mod_eq [of pos PAGE_SIZE] by linarith
  show "(pos + i) div PAGE_SIZE = pos div PAGE_SIZE" by (subst eq, subst div_mult_self1) (simp_all add: assms)
  show "(pos + i) mod PAGE_SIZE = pos mod PAGE_SIZE + i" by (subst eq, subst mod_mult_self1) (simp add: assms)
qed

lemma read_at_bytes:
  "all_local p \<Longrightarrow> read_at e len pos p = (map (byte e p) [pos..<pos + len], p)"
proof (induction len arbitrary: pos rule: less_induct)
  case (less len)
  show ?case
  proof (cases "len = 0")
    case False
    let ?w = "pos mod PAGE_SIZE" let ?n = "min (PAGE_SIZE - ?w) len" let ?pg = "page e p (of_nat (pos div PAGE_SIZE))"
    have n: "0 < ?n" "?w + ?n \<le> PAGE_SIZE" "?n \<le> len" using False mod_less_divisor [of PAGE_SIZE pos] by (auto simp: min_def)
    have "take ?n (drop ?w ?pg) = map (byte e p) [pos..<pos + ?n]"
    proof (rule nth_equalityI)
      fix i assume "i < length (take ?n (drop ?w ?pg))"
      then have i: "i < ?n" by simp
      then have "(pos + i) div PAGE_SIZE = pos div PAGE_SIZE" "(pos + i) mod PAGE_SIZE = ?w + i"
        using n(2) page_offset [of pos i] by linarith+
      then show "take ?n (drop ?w ?pg) ! i = map (byte e p) [pos..<pos + ?n] ! i" using i n(2) by (simp add: byte_def)
    qed (use n in simp)
    moreover have "read_at e (len - ?n) (pos + ?n) p = (map (byte e p) [pos + ?n..<pos + len], p)" using less.IH [of "len - ?n" "pos + ?n"] less.prems n by simp
    moreover have "[pos..<pos + len] = [pos..<pos + ?n] @ [pos + ?n..<pos + len]" using n upt_add_eq_append [of pos "pos + ?n" "len - ?n"] by simp
    ultimately show ?thesis using False less.prems by (subst read_at.simps) (simp add: Let_def read_page_local)
  qed (simp add: read_at.simps)
qed

lemma splice_nth:
  assumes "length pg = L" "w + length b \<le> L" "k < L"
  shows "(take w pg @ b @ drop (w + length b) pg) ! k = (if w \<le> k \<and> k < w + length b then b ! (k - w) else pg ! k)"
proof -
  consider "k < w" | "w \<le> k" "k < w + length b" | "w + length b \<le> k" by linarith
  then show ?thesis
  proof cases
    case 2
    then have "\<not> k < w" "k - w < length b" by linarith+
    then show ?thesis using 2 assms by (simp add: nth_append)
  next
    case 3
    then have "\<not> k < w" "\<not> k - w < length b" "w + length b + (k - w - length b) = k" by linarith+
    then show ?thesis using 3 assms by (simp add: nth_append)
  qed (use assms in \<open>simp_all add: nth_append\<close>)
qed

lemma write_chunk:
  fixes e :: pager_env and p :: pager and pos :: nat and b :: bytes
  assumes "all_local p" "pos div PAGE_SIZE < 2 ^ 32 - 1" "b \<noteq> []" "pos mod PAGE_SIZE + length b \<le> PAGE_SIZE"
  defines "w \<equiv> pos mod PAGE_SIZE" and "pg \<equiv> page e p (of_nat (pos div PAGE_SIZE))"
  shows "\<exists>p'. write_page (of_nat (pos div PAGE_SIZE)) (take w pg @ b @ drop (w + length b) pg) p = Some p' \<and> all_local p'
    \<and> (\<forall>q < 2 ^ 32 * PAGE_SIZE. byte e p' q = (if pos \<le> q \<and> q < pos + length b then b ! (q - pos) else byte e p q))"
proof -
  let ?n = "of_nat (pos div PAGE_SIZE) :: u32" let ?new = "take w pg @ b @ drop (w + length b) pg"
  have len: "length ?new = PAGE_SIZE" using assms(4) by (simp add: w_def pg_def)
  have "unat ?n < 2 ^ 32 - 1" using assms(2) unat_of_nat_u32 [of "pos div PAGE_SIZE"] by simp
  then obtain p' where p': "write_page ?n ?new p = Some p'" "all_local p'" and pages: "page e p' m = (if m = ?n then ?new else page e p m)" for m
    using write_page_Some [of ?n ?new p e] assms(1) len by auto
  have "byte e p' q = (if pos \<le> q \<and> q < pos + length b then b ! (q - pos) else byte e p q)" if q: "q < 2 ^ 32 * PAGE_SIZE" for q
  proof (cases "q div PAGE_SIZE = pos div PAGE_SIZE")
    case True
    have qe: "q = pos div PAGE_SIZE * PAGE_SIZE + q mod PAGE_SIZE" and pe: "pos = pos div PAGE_SIZE * PAGE_SIZE + w"
      using div_mult_mod_eq [of q PAGE_SIZE] div_mult_mod_eq [of pos PAGE_SIZE] True by (simp_all add: w_def)
    then have "pos \<le> q \<longleftrightarrow> w \<le> q mod PAGE_SIZE" "q < pos + length b \<longleftrightarrow> q mod PAGE_SIZE < w + length b" "q - pos = q mod PAGE_SIZE - w" by linarith+
    moreover have "byte e p' q = ?new ! (q mod PAGE_SIZE)" "byte e p q = pg ! (q mod PAGE_SIZE)" using pages True by (simp_all add: byte_def pg_def)
    ultimately show ?thesis using splice_nth [of pg PAGE_SIZE w b "q mod PAGE_SIZE"] assms(4) by (simp add: w_def pg_def)
  next
    case False
    have "q div PAGE_SIZE < 2 ^ 32" using q by (simp add: div_less_iff_less_mult)
    then have "byte e p' q = byte e p q" using pages False assms(2) of_nat_u32_eq [of "q div PAGE_SIZE" "pos div PAGE_SIZE"] by (simp add: byte_def)
    moreover have False if "pos \<le> q" "q < pos + length b"
    proof -
      have "pos mod PAGE_SIZE + (q - pos) < PAGE_SIZE" using that assms(4) by linarith
      from page_offset(1) [OF this] show False using False that by simp
    qed
    ultimately show ?thesis by auto
  qed
  then show ?thesis using p' by blast
qed

lemma glue_chunks:
  assumes "n \<le> length buf" "x = (if pos \<le> q \<and> q < pos + n then take n buf ! (q - pos) else x0)"
    and "y = (if pos + n \<le> q \<and> q < pos + n + length (drop n buf) then drop n buf ! (q - (pos + n)) else x)"
  shows "y = (if pos \<le> q \<and> q < pos + length buf then buf ! (q - pos) else x0)"
proof -
  consider "q < pos" | "pos \<le> q" "q < pos + n" | "pos + n \<le> q" by linarith
  then show ?thesis
  proof cases
    case 2
    then have "q - pos < n" "q < pos + length buf" using assms(1) by linarith+
    then show ?thesis using 2 assms(2,3) by simp
  next
    case 3
    then have "n + (q - (pos + n)) = q - pos" by linarith
    then show ?thesis using 3 assms by auto
  qed (use assms in simp)
qed

lemma write_at_bytes:
  assumes "all_local p" "pos + length buf \<le> (2 ^ 32 - 1) * PAGE_SIZE"
  shows "\<exists>p'. write_at e buf pos p = Some p' \<and> all_local p'
    \<and> (\<forall>q < 2 ^ 32 * PAGE_SIZE. byte e p' q = (if pos \<le> q \<and> q < pos + length buf then buf ! (q - pos) else byte e p q))"
  using assms
proof (induction "length buf" arbitrary: buf pos p rule: less_induct)
  case less
  show ?case
  proof (cases "buf = []")
    case True
    then show ?thesis using less.prems by (auto simp: write_at.simps)
  next
    case False
    let ?w = "pos mod PAGE_SIZE" let ?n = "min (PAGE_SIZE - ?w) (length buf)" let ?b = "take ?n buf"
    have w: "?w < PAGE_SIZE" by simp
    have n: "0 < ?n" "?n \<le> length buf" "?w + ?n \<le> PAGE_SIZE" and b: "length ?b = ?n" "?b \<noteq> []" using w False by (auto simp: min_def)
    have "pos < (2 ^ 32 - 1) * PAGE_SIZE" using less.prems(2) False by (cases buf) auto
    then have page: "pos div PAGE_SIZE < 2 ^ 32 - 1" by (simp add: div_less_iff_less_mult)
    obtain p1 where p1: "write_page (of_nat (pos div PAGE_SIZE)) (take ?w (page e p (of_nat (pos div PAGE_SIZE))) @ ?b
        @ drop (?w + ?n) (page e p (of_nat (pos div PAGE_SIZE)))) p = Some p1" "all_local p1"
      and b1: "\<And>q. q < 2 ^ 32 * PAGE_SIZE \<Longrightarrow> byte e p1 q = (if pos \<le> q \<and> q < pos + ?n then ?b ! (q - pos) else byte e p q)"
      using write_chunk [OF less.prems(1) page b(2), of e] n(3) b(1) by auto
    have "length (drop ?n buf) < length buf" using n by simp
    moreover have "pos + ?n + length (drop ?n buf) \<le> (2 ^ 32 - 1) * PAGE_SIZE" using less.prems(2) n(2) by simp
    ultimately obtain p2 where p2: "write_at e (drop ?n buf) (pos + ?n) p1 = Some p2" "all_local p2"
      and b2: "\<And>q. q < 2 ^ 32 * PAGE_SIZE \<Longrightarrow> byte e p2 q = (if pos + ?n \<le> q \<and> q < pos + ?n + length (drop ?n buf) then drop ?n buf ! (q - (pos + ?n)) else byte e p1 q)"
      using less.hyps [of "drop ?n buf" p1 "pos + ?n"] p1(2) by blast
    have "write_at e buf pos p = Some p2"
      using False less.prems(1) p1(1) p2(1) by (subst write_at.simps) (simp add: Let_def read_page_local)
    moreover have "byte e p2 q = (if pos \<le> q \<and> q < pos + length buf then buf ! (q - pos) else byte e p q)" if "q < 2 ^ 32 * PAGE_SIZE" for q
      by (rule glue_chunks [OF n(2) b1 [OF that] b2 [OF that]])
    ultimately show ?thesis using p2(2) by blast
  qed
qed

section \<open>The store\<close>

text \<open>What a store holds stays, as long as no two objects meet under one hash.\<close>

definition store_grows :: "object_store \<Rightarrow> object_store \<Rightarrow> bool" where
  "store_grows st st' \<longleftrightarrow> (os_clash st \<longrightarrow> os_clash st') \<and> (\<not> os_clash st' \<longrightarrow> (\<forall>c b. os_get st c = Some b \<longrightarrow> os_get st' c = Some b))"

lemma store_grows_refl [simp]: "store_grows st st"
  by (simp add: store_grows_def)

lemma store_grows_trans [trans]: "store_grows a b \<Longrightarrow> store_grows b c \<Longrightarrow> store_grows a c"
  by (auto simp: store_grows_def)

lemma store_grows_get: "store_grows st st' \<Longrightarrow> \<not> os_clash st' \<Longrightarrow> os_get st c = Some b \<Longrightarrow> os_get st' c = Some b"
  by (simp add: store_grows_def)

lemma put_grows: "store_grows st (snd (os_put hash d st))"
  by (auto simp: store_grows_def os_put_def os_get_def os_has_def Let_def split: option.splits)

lemma put_get: "\<not> os_clash (snd (os_put hash d st)) \<Longrightarrow> os_get (snd (os_put hash d st)) (hash d) = Some d"
  by (auto simp: os_put_def os_get_def os_has_def Let_def split: option.splits if_splits)

lemma fst_put [simp]: "fst (os_put hash d st) = hash d"
  by (simp add: os_put_def Let_def)

section \<open>The canonical tree\<close>

text \<open>The content of the index node at a level and key, as the pages alone determine it.\<close>

definition node_cid :: "pager_env \<Rightarrow> dek option \<Rightarrow> node_map \<Rightarrow> bytes32 option" where
  "node_cid e k m = (if m = [] then None else Some (pe_hash e (seal_index e k (node_enc e m))))"

primrec kids :: "pager_env \<Rightarrow> dek option \<Rightarrow> (nat \<Rightarrow> bytes32 option) \<Rightarrow> nat \<Rightarrow> nat \<Rightarrow> node_map" where
  "kids e k P 0 nk = collect (\<lambda>i. P (nk * FANOUT + i))"
| "kids e k P (Suc l) nk = collect (\<lambda>i. node_cid e k (kids e k P l (nk * FANOUT + i)))"

lemma map_filter_cong': "(\<And>x. x \<in> set xs \<Longrightarrow> f x = g x) \<Longrightarrow> List.map_filter f xs = List.map_filter g xs"
  by (induction xs) (auto simp: map_filter_simps split: option.split)

lemma collect_cong: "(\<And>i. i < FANOUT \<Longrightarrow> f i = g i) \<Longrightarrow> collect f = collect g"
  unfolding collect_def by (rule map_filter_cong') simp

lemma collect_Nil: "collect f = [] \<longleftrightarrow> (\<forall>i < FANOUT. f i = None)"
  by (auto simp: collect_def List.map_filter_def filter_empty_conv)

lemma FANOUT_pos [simp]: "0 < FANOUT" "FANOUT \<noteq> 0"
  by (simp_all add: FANOUT_def)

lemma child_div: "i < FANOUT \<Longrightarrow> n div FANOUT ^ Suc l = nk * FANOUT + i \<Longrightarrow> n div FANOUT ^ Suc (Suc l) = nk"
  by (metis FANOUT_pos(2) add.right_neutral div_less div_mult2_eq div_mult_self3 power_Suc2)

lemma kids_cong: "(\<And>n. n div FANOUT ^ Suc l = nk \<Longrightarrow> P n = Q n) \<Longrightarrow> kids e k P l nk = kids e k Q l nk"
proof (induction l arbitrary: nk)
  case 0
  then show ?case by (auto intro!: collect_cong)
next
  case (Suc l)
  have "kids e k P l (nk * FANOUT + i) = kids e k Q l (nk * FANOUT + i)" if "i < FANOUT" for i
    using Suc.IH Suc.prems child_div [OF that] by blast
  then show ?case by (auto intro!: collect_cong)
qed

lemma kids_Nil: "kids e k P l nk = [] \<longleftrightarrow> (\<forall>n. n div FANOUT ^ Suc l = nk \<longrightarrow> P n = None)"
proof (induction l arbitrary: nk)
  case 0
  show ?case
  proof
    assume "kids e k P 0 nk = []"
    then have none: "\<forall>i < FANOUT. P (nk * FANOUT + i) = None" by (simp add: collect_Nil)
    show "\<forall>n. n div FANOUT ^ Suc 0 = nk \<longrightarrow> P n = None"
    proof (intro allI impI)
      fix n assume "n div FANOUT ^ Suc 0 = nk"
      then have "n = nk * FANOUT + n mod FANOUT" by (metis div_mult_mod_eq power_Suc0_right)
      then show "P n = None" using none by (metis FANOUT_pos(1) mod_less_divisor)
    qed
  qed (simp add: collect_Nil)
next
  case (Suc l)
  have "kids e k P (Suc l) nk = [] \<longleftrightarrow> (\<forall>i < FANOUT. kids e k P l (nk * FANOUT + i) = [])" by (auto simp: node_cid_def collect_Nil)
  also have "\<dots> \<longleftrightarrow> (\<forall>i < FANOUT. \<forall>n. n div FANOUT ^ Suc l = nk * FANOUT + i \<longrightarrow> P n = None)" unfolding Suc.IH ..
  also have "\<dots> \<longleftrightarrow> (\<forall>n. n div FANOUT ^ Suc (Suc l) = nk \<longrightarrow> P n = None)"
  proof (intro iffI allI impI)
    fix n assume all: "\<forall>i < FANOUT. \<forall>n. n div FANOUT ^ Suc l = nk * FANOUT + i \<longrightarrow> P n = None" and "n div FANOUT ^ Suc (Suc l) = nk"
    then have "n div FANOUT ^ Suc l div FANOUT = nk" by (metis div_mult2_eq power_Suc2)
    then have "n div FANOUT ^ Suc l = nk * FANOUT + n div FANOUT ^ Suc l mod FANOUT" by (metis div_mult_mod_eq)
    then show "P n = None" using all mod_less_divisor [OF FANOUT_pos(1)] by blast
  qed (use child_div in blast)
  finally show ?case .
qed

section \<open>Rebuilding\<close>

definition page_map :: "(u32, bytes32) btree \<Rightarrow> nat \<Rightarrow> bytes32 option" where
  "page_map pages n = (if n < 2 ^ 32 then bt_get pages (of_nat n) else None)"

definition stored :: "pager_env \<Rightarrow> dek option \<Rightarrow> object_store \<Rightarrow> node_map \<Rightarrow> bool" where
  "stored e k st m \<longleftrightarrow> (m \<noteq> [] \<longrightarrow> os_get st (pe_hash e (seal_index e k (node_enc e m))) = Some (seal_index e k (node_enc e m)))"

definition node_ok :: "pager_env \<Rightarrow> pager \<Rightarrow> nat \<Rightarrow> u32 \<Rightarrow> bool" where
  "node_ok e p l nk \<longleftrightarrow> (let m = kids e (pg_cipher p) (page_map (pg_pages p)) l (unat nk) in
     pg_node_cids p (l, nk) = node_cid e (pg_cipher p) m \<and> stored e (pg_cipher p) (pg_store p) m)"

definition touched :: "u32 set \<Rightarrow> nat \<Rightarrow> u32 \<Rightarrow> bool" where
  "touched C l nk \<longleftrightarrow> (\<exists>n \<in> C. unat n div FANOUT ^ Suc l = unat nk)"

text \<open>What rebuilding leaves alone.\<close>

definition same_pages :: "pager \<Rightarrow> pager \<Rightarrow> bool" where
  "same_pages p p' \<longleftrightarrow> pg_pages p' = pg_pages p \<and> pg_dirty p' = pg_dirty p \<and> pg_dirty_index p' = pg_dirty_index p \<and> pg_page_count p' = pg_page_count p
     \<and> pg_depth p' = pg_depth p \<and> pg_remote p' = pg_remote p \<and> pg_cipher p' = pg_cipher p \<and> pg_wrapped_dek p' = pg_wrapped_dek p
     \<and> store_grows (pg_store p) (pg_store p')"

lemma same_pages_trans: "same_pages a b \<Longrightarrow> same_pages b c \<Longrightarrow> same_pages a c"
  using store_grows_trans by (auto simp: same_pages_def)

definition children :: "pager \<Rightarrow> nat \<Rightarrow> u32 \<Rightarrow> node_map" where
  "children p level nk = collect (\<lambda>i. child_cid p level (child_key nk i))"

lemma rebuild_node_effect:
  fixes e :: pager_env and p :: pager and level :: nat and nk :: u32
  defines "p' \<equiv> rebuild_node e level nk p"
  shows "same_pages p p'" "children p' level = children p level"
    and "pg_node_cids p' x = (if x = (level, nk) then node_cid e (pg_cipher p) (children p level nk) else pg_node_cids p x)"
    and "\<not> os_clash (pg_store p') \<Longrightarrow> stored e (pg_cipher p) (pg_store p') (children p level nk)"
proof -
  let ?m = "children p level nk" let ?blob = "seal_index e (pg_cipher p) (node_enc e ?m)"
  have p': "p' = (if ?m = [] then p\<lparr>pg_node_cids := (pg_node_cids p)((level, nk) := None)\<rparr>
     else p\<lparr>pg_store := snd (os_put (pe_hash e) ?blob (pg_store p)), pg_node_cids := (pg_node_cids p)((level, nk) \<mapsto> pe_hash e ?blob)\<rparr>)"
    using fst_put [of "pe_hash e" ?blob "pg_store p"] by (simp add: p'_def rebuild_node_def children_def Let_def case_prod_beta)
  show "same_pages p p'" using put_grows [of "pg_store p" "pe_hash e" ?blob] by (simp add: p' same_pages_def)
  have "child_cid p' level = child_cid p level" by (rule ext) (auto simp: p' child_cid_def split: nat.split)
  then show "children p' level = children p level" by (simp add: children_def fun_eq_iff)
  show "pg_node_cids p' x = (if x = (level, nk) then node_cid e (pg_cipher p) ?m else pg_node_cids p x)"
    by (auto simp: p' node_cid_def)
  show "stored e (pg_cipher p) (pg_store p') ?m" if "\<not> os_clash (pg_store p')"
    using that put_get [of "pe_hash e" ?blob "pg_store p"] by (simp add: stored_def p' split: if_splits)
qed

lemma stored_grows: "stored e k st m \<Longrightarrow> store_grows st st' \<Longrightarrow> \<not> os_clash st' \<Longrightarrow> stored e k st' m"
  by (auto simp: stored_def dest: store_grows_get)

lemma clash_back: "same_pages p p' \<Longrightarrow> \<not> os_clash (pg_store p') \<Longrightarrow> \<not> os_clash (pg_store p)"
  by (auto simp: same_pages_def store_grows_def)

lemma rebuild_fold:
  fixes e :: pager_env and p :: pager and level :: nat and ks :: "u32 list"
  defines "p' \<equiv> fold (rebuild_node e level) ks p"
  shows "same_pages p p' \<and> children p' level = children p level
    \<and> (\<forall>x. pg_node_cids p' x = (if fst x = level \<and> snd x \<in> set ks then node_cid e (pg_cipher p) (children p level (snd x)) else pg_node_cids p x))
    \<and> (\<not> os_clash (pg_store p') \<longrightarrow> (\<forall>nk \<in> set ks. stored e (pg_cipher p) (pg_store p') (children p level nk)))"
  unfolding p'_def
proof (induction ks arbitrary: p)
  case Nil
  then show ?case by (simp add: same_pages_def)
next
  case (Cons nk ks)
  let ?q = "rebuild_node e level nk p" let ?p' = "fold (rebuild_node e level) ks ?q"
  note q = rebuild_node_effect [where e = e and p = p and level = level and nk = nk]
  note ih = Cons.IH [of ?q]
  have cipher: "pg_cipher ?q = pg_cipher p" and ch: "children ?q level = children p level" using q(1,2) by (simp_all add: same_pages_def)
  have "same_pages p ?p'" using q(1) ih same_pages_trans by blast
  moreover have "stored e (pg_cipher p) (pg_store ?p') (children p level x)" if "\<not> os_clash (pg_store ?p')" "x \<in> set (nk # ks)" for x
  proof (cases "x \<in> set ks")
    case True
    then show ?thesis using ih that(1) cipher ch by simp
  next
    case False
    have "store_grows (pg_store ?q) (pg_store ?p')" "\<not> os_clash (pg_store ?q)" using ih clash_back [of ?q ?p'] that(1) by (auto simp: same_pages_def)
    then show ?thesis using stored_grows [OF q(4)] that False by simp
  qed
  ultimately show ?case using ih q(3) cipher ch by auto
qed

lemma unat_u32_lt: "unat (n :: u32) < 2 ^ 32"
  using unat_lt [of n] by simp

lemma touched_bound: "touched C l nk \<Longrightarrow> i < FANOUT \<Longrightarrow> unat nk * FANOUT + i < 2 ^ 32"
proof -
  assume "touched C l nk" "i < FANOUT"
  then obtain n where n: "unat nk = unat (n :: u32) div FANOUT ^ Suc l" by (metis touched_def)
  let ?y = "unat n div FANOUT ^ l"
  have "?y \<le> unat n" by simp
  then have "?y < 2 ^ 32" using unat_u32_lt [of n] by (rule le_less_trans)
  moreover have "unat nk = ?y div FANOUT" unfolding n power_Suc2 div_mult2_eq ..
  ultimately have "unat nk < 2 ^ 24" by (simp add: FANOUT_def)
  then show ?thesis using \<open>i < FANOUT\<close> by (simp add: FANOUT_def)
qed

lemma parent_key_eq: "nk = parent_key n \<longleftrightarrow> unat nk = unat n div FANOUT"
proof -
  have "unat n div FANOUT < 2 ^ 32" using unat_u32_lt [of n] by (simp add: FANOUT_def)
  then show ?thesis using unat_of_nat_u32 [of "unat n div FANOUT"] by (simp add: parent_key_def word_unat_eq_iff)
qed

lemma touched_Suc: "touched C (Suc l) nk \<longleftrightarrow> (\<exists>k. touched C l k \<and> nk = parent_key k)"
proof
  assume "touched C (Suc l) nk"
  then obtain n where n: "n \<in> C" "unat n div FANOUT ^ Suc (Suc l) = unat nk" by (auto simp: touched_def)
  let ?k = "of_nat (unat n div FANOUT ^ Suc l) :: u32"
  have "unat n div FANOUT ^ Suc l < 2 ^ 32" using unat_u32_lt [of n] div_le_dividend [of "unat n" "FANOUT ^ Suc l"] by linarith
  then have k: "unat ?k = unat n div FANOUT ^ Suc l" by simp
  then have "touched C l ?k" using n(1) by (auto simp: touched_def)
  moreover have "nk = parent_key ?k" unfolding parent_key_eq k using n(2) by (metis div_mult2_eq power_Suc2)
  ultimately show "\<exists>k. touched C l k \<and> nk = parent_key k" by blast
next
  assume "\<exists>k. touched C l k \<and> nk = parent_key k"
  then show "touched C (Suc l) nk" unfolding parent_key_eq touched_def by (metis div_mult2_eq power_Suc2)
qed

lemma children_kids:
  assumes "touched C l nk" "\<And>l' nk'. l' < l \<Longrightarrow> node_ok e p l' nk'"
  shows "children p l nk = kids e (pg_cipher p) (page_map (pg_pages p)) l (unat nk)"
proof -
  have key: "unat (child_key nk i) = unat nk * FANOUT + i" if "i < FANOUT" for i
    unfolding child_key_def by (rule unat_of_nat_u32 [OF touched_bound [OF assms(1) that]])
  show ?thesis
  proof (cases l)
    case 0
    then show ?thesis using touched_bound [OF assms(1)] by (auto simp: children_def child_cid_def page_map_def child_key_def intro!: collect_cong)
  next
    case (Suc m)
    have "pg_node_cids p (m, child_key nk i) = node_cid e (pg_cipher p) (kids e (pg_cipher p) (page_map (pg_pages p)) m (unat nk * FANOUT + i))" if "i < FANOUT" for i
      using assms(2) [of m "child_key nk i"] key [OF that] Suc by (simp add: node_ok_def Let_def)
    then show ?thesis using Suc by (auto simp: children_def child_cid_def intro!: collect_cong)
  qed
qed

lemma node_ok_frame:
  assumes "same_pages p p'" "\<not> os_clash (pg_store p')" "pg_node_cids p' (l, nk) = pg_node_cids p (l, nk)" "node_ok e p l nk"
  shows "node_ok e p' l nk"
  using assms stored_grows [of e "pg_cipher p" "pg_store p" _ "pg_store p'"] by (simp add: node_ok_def same_pages_def Let_def)

lemma rebuild_level_ok:
  assumes low: "\<And>l nk. l < L \<Longrightarrow> node_ok e p l nk" and high: "\<And>l nk. L \<le> l \<Longrightarrow> l < D \<Longrightarrow> \<not> touched C l nk \<Longrightarrow> node_ok e p l nk"
    and ks: "\<And>nk. nk \<in> set ks \<longleftrightarrow> touched C L nk" and clash: "\<not> os_clash (pg_store (fold (rebuild_node e L) ks p))" and "L < D"
  shows "\<And>l nk. l < Suc L \<Longrightarrow> node_ok e (fold (rebuild_node e L) ks p) l nk"
    and "\<And>l nk. Suc L \<le> l \<Longrightarrow> l < D \<Longrightarrow> \<not> touched C l nk \<Longrightarrow> node_ok e (fold (rebuild_node e L) ks p) l nk"
proof -
  let ?p = "fold (rebuild_node e L) ks p"
  note f = rebuild_fold [where e = e and level = L and ks = ks and p = p]
  have same: "same_pages p ?p" and cids: "pg_node_cids ?p x = (if fst x = L \<and> snd x \<in> set ks then node_cid e (pg_cipher p) (children p L (snd x)) else pg_node_cids p x)"
    and st: "nk \<in> set ks \<Longrightarrow> stored e (pg_cipher p) (pg_store ?p) (children p L nk)" for x nk
    using f clash by blast+
  show "node_ok e ?p l nk" if "l < Suc L" for l nk
  proof (cases "l = L \<and> touched C L nk")
    case True
    then have "children p L nk = kids e (pg_cipher p) (page_map (pg_pages p)) L (unat nk)" using children_kids low by blast
    then show ?thesis using True cids [of "(L, nk)"] st [of nk] ks same by (simp add: node_ok_def same_pages_def Let_def)
  next
    case False
    then have "pg_node_cids ?p (l, nk) = pg_node_cids p (l, nk)" using cids [of "(l, nk)"] ks by auto
    then show ?thesis using node_ok_frame [OF same clash] low high False that assms(5) by (metis less_Suc_eq order_refl)
  qed
  show "node_ok e ?p l nk" if "Suc L \<le> l" "l < D" "\<not> touched C l nk" for l nk
    using node_ok_frame [OF same clash, of l nk] high [of l nk] cids [of "(l, nk)"] that by simp
qed

lemma rebuild_levels_same: "same_pages p (rebuild_levels ls e ks p)"
proof (induction ls arbitrary: ks p)
  case (Cons l ls)
  show ?case using Cons.IH [of "fold (rebuild_node e l) ks p"] rebuild_fold [where e = e and level = l and ks = ks and p = p]
    by (auto intro: same_pages_trans)
qed (simp add: same_pages_def)

lemma rebuild_levels_ok:
  assumes "\<And>l nk. l < L \<Longrightarrow> node_ok e p l nk" and "\<And>l nk. L \<le> l \<Longrightarrow> l < D \<Longrightarrow> \<not> touched C l nk \<Longrightarrow> node_ok e p l nk"
    and "\<And>nk. nk \<in> set ks \<longleftrightarrow> touched C L nk" and "\<not> os_clash (pg_store (rebuild_levels [L..<D] e ks p))" and "l < D" and "L \<le> D"
  shows "node_ok e (rebuild_levels [L..<D] e ks p) l nk"
  using assms
proof (induction "D - L" arbitrary: L ks p)
  case 0
  then show ?case by simp
next
  case (Suc d)
  let ?q = "fold (rebuild_node e L) ks p" let ?ks = "btset_of (map parent_key ks)"
  have L: "L < D" and upt: "[L..<D] = L # [Suc L..<D]" using Suc(2) by (simp_all add: upt_conv_Cons)
  have nc: "\<not> os_clash (pg_store (rebuild_levels [Suc L..<D] e ?ks ?q))" using Suc.prems(4) by (simp add: upt)
  then have "\<not> os_clash (pg_store ?q)" using clash_back rebuild_levels_same by blast
  note ok = rebuild_level_ok [OF Suc.prems(1,2,3) this L]
  have "nk' \<in> set ?ks \<longleftrightarrow> touched C (Suc L) nk'" for nk'
    unfolding touched_Suc using Suc.prems(3) by (auto simp: btset_of_def)
  then have "node_ok e (rebuild_levels [Suc L..<D] e ?ks ?q) l nk"
    using Suc.hyps(1) [of "Suc L" ?q ?ks] ok nc Suc.prems(5) Suc(2) L by force
  then show ?case by (simp add: upt)
qed

section \<open>Committing\<close>

text \<open>What flushing leaves alone.\<close>

definition same_index :: "pager \<Rightarrow> pager \<Rightarrow> bool" where
  "same_index p p' \<longleftrightarrow> pg_dirty p' = pg_dirty p \<and> pg_dirty_index p' = pg_dirty_index p \<and> pg_node_cids p' = pg_node_cids p \<and> pg_page_count p' = pg_page_count p
     \<and> pg_depth p' = pg_depth p \<and> pg_remote p' = pg_remote p \<and> pg_cipher p' = pg_cipher p \<and> pg_wrapped_dek p' = pg_wrapped_dek p
     \<and> store_grows (pg_store p) (pg_store p')"

lemma same_index_trans: "same_index a b \<Longrightarrow> same_index b c \<Longrightarrow> same_index a c"
  using store_grows_trans by (auto simp: same_index_def)

lemma flush_page_effect:
  fixes e :: pager_env and p :: pager and n :: u32 and d :: bytes
  defines "p' \<equiv> flush_page e (n, d) p" and "blob \<equiv> seal_index e (pg_cipher p) d"
  shows "same_index p p'" "pg_pages p' = bt_insert n (pe_hash e blob) (pg_pages p)"
    "\<not> os_clash (pg_store p') \<Longrightarrow> os_get (pg_store p') (pe_hash e blob) = Some blob"
  using put_grows [of "pg_store p" "pe_hash e" blob] put_get [of "pe_hash e" blob "pg_store p"] fst_put [of "pe_hash e" blob "pg_store p"]
  by (simp_all add: p'_def flush_page_def blob_def case_prod_beta same_index_def)

lemma flush_fold:
  fixes e :: pager_env and p :: pager and ds :: "(u32, bytes) btree"
  defines "p' \<equiv> fold (flush_page e) ds p" and "blob \<equiv> seal_index e (pg_cipher p)"
  assumes "bt_inv ds" "bt_inv (pg_pages p)"
  shows "same_index p p' \<and> bt_inv (pg_pages p')
    \<and> (\<forall>n. bt_get (pg_pages p') n = (case bt_get ds n of Some d \<Rightarrow> Some (pe_hash e (blob d)) | None \<Rightarrow> bt_get (pg_pages p) n))
    \<and> (\<not> os_clash (pg_store p') \<longrightarrow> (\<forall>n d. bt_get ds n = Some d \<longrightarrow> os_get (pg_store p') (pe_hash e (blob d)) = Some (blob d)))"
  using assms(3,4) unfolding p'_def blob_def
proof (induction ds arbitrary: p)
  case Nil
  then show ?case by (simp add: same_index_def)
next
  case (Cons x ds)
  obtain n d where x: "x = (n, d)" by (cases x)
  let ?q = "flush_page e (n, d) p" let ?p' = "fold (flush_page e) ds ?q" let ?c = "pe_hash e (seal_index e (pg_cipher p) d)"
  note q = flush_page_effect [where e = e and p = p and n = n and d = d]
  have k: "pg_cipher ?q = pg_cipher p" using q(1) by (simp add: same_index_def)
  have new: "bt_get ds n = None" using Cons.prems(1) by (auto simp: x bt_get_None_iff)
  have "bt_inv ds" "bt_inv (pg_pages ?q)" using Cons.prems by (simp_all add: x q(2))
  note ih = Cons.IH [OF this, unfolded k]
  have grows: "store_grows (pg_store ?q) (pg_store ?p')" using ih by (simp add: same_index_def)
  have "os_get (pg_store ?p') ?c = Some (seal_index e (pg_cipher p) d)" if nc: "\<not> os_clash (pg_store ?p')"
  proof -
    have "\<not> os_clash (pg_store ?q)" using nc grows by (auto simp: store_grows_def)
    then show ?thesis using store_grows_get [OF grows nc] q(3) by blast
  qed
  moreover have "bt_get (pg_pages ?p') m = (case bt_get ((n, d) # ds) m of Some d \<Rightarrow> Some (pe_hash e (seal_index e (pg_cipher p) d)) | None \<Rightarrow> bt_get (pg_pages p) m)" for m
  proof -
    have "bt_get (pg_pages ?p') m = (case bt_get ds m of Some d \<Rightarrow> Some (pe_hash e (seal_index e (pg_cipher p) d)) | None \<Rightarrow> bt_get (pg_pages ?q) m)" using ih by blast
    then show ?thesis using new by (simp add: q(2) split: option.split)
  qed
  ultimately show ?case using ih same_index_trans [OF q(1)] by (simp add: x)
qed

text \<open>The invariant of a pager between operations.\<close>

definition index_ok :: "pager_env \<Rightarrow> pager \<Rightarrow> bool" where
  "index_ok e p \<longleftrightarrow> (\<forall>l nk. l < unat (pg_depth p) \<longrightarrow> \<not> touched (set (pg_dirty_index p)) l nk \<longrightarrow> node_ok e p l nk)
     \<and> (\<forall>l nk. unat (pg_depth p) \<le> l \<longrightarrow> pg_node_cids p (l, nk) = None)"

definition pager_ok :: "pager_env \<Rightarrow> pager \<Rightarrow> bool" where
  "pager_ok e p \<longleftrightarrow> bt_inv (pg_pages p) \<and> bt_inv (pg_dirty p)
     \<and> (\<forall>n. bt_get (pg_pages p) n \<noteq> None \<or> bt_get (pg_dirty p) n \<noteq> None \<longrightarrow> n < pg_page_count p)
     \<and> (\<forall>n. bt_get (pg_dirty p) n \<noteq> None \<longrightarrow> n \<in> set (pg_dirty_index p))
     \<and> index_ok e p \<and> all_local p \<and> \<not> os_clash (pg_store p)"

lemma page_map_cong: "bt_get pages (of_nat n) = bt_get pages' (of_nat n) \<Longrightarrow> page_map pages n = page_map pages' n"
  by (simp add: page_map_def)

lemma untouched_kids:
  assumes "\<not> touched C l nk" "\<And>n. n \<notin> C \<Longrightarrow> bt_get pages' n = bt_get pages n"
  shows "kids e k (page_map pages') l (unat nk) = kids e k (page_map pages) l (unat nk)"
proof (rule kids_cong)
  fix n assume n: "n div FANOUT ^ Suc l = unat nk"
  show "page_map pages' n = page_map pages n"
  proof (cases "n < 2 ^ 32")
    case True
    then have "of_nat n \<notin> C" using assms(1) n unat_of_nat_u32 [OF True] by (metis touched_def)
    then show ?thesis using assms(2) by (intro page_map_cong)
  qed (simp add: page_map_def)
qed

lemma untouched_empty:
  assumes "\<not> touched {n. bt_get pages n \<noteq> None} l nk"
  shows "kids e k (page_map pages) l (unat nk) = []"
  unfolding kids_Nil
proof (intro allI impI)
  fix n assume n: "n div FANOUT ^ Suc l = unat nk"
  show "page_map pages n = None"
  proof (cases "n < 2 ^ 32")
    case True
    then have "of_nat n \<notin> {n. bt_get pages n \<noteq> None}" using assms n unat_of_nat_u32 [OF True] by (metis touched_def)
    then show ?thesis by (simp add: page_map_def)
  qed (simp add: page_map_def)
qed

text \<open>The state in which a commit rebuilds the index: pages flushed, and what changed singled out.\<close>

definition flushed :: "pager_env \<Rightarrow> pager \<Rightarrow> pager" where
  "flushed e p = fold (flush_page e) (pg_dirty p) (p\<lparr>pg_dirty := []\<rparr>)"

definition regrown :: "pager \<Rightarrow> u32 list \<times> pager" where
  "regrown p = (if depth_for (pg_page_count p) \<noteq> pg_depth p
     then (map fst (pg_pages p), p\<lparr>pg_depth := depth_for (pg_page_count p), pg_node_cids := Map.empty\<rparr>) else (pg_dirty_index p, p))"

lemma flushed_effect:
  assumes "pager_ok e p"
  shows "same_index (p\<lparr>pg_dirty := []\<rparr>) (flushed e p)" "bt_inv (pg_pages (flushed e p))"
    "\<And>n. bt_get (pg_pages (flushed e p)) n = (case bt_get (pg_dirty p) n of Some d \<Rightarrow> Some (pe_hash e (seal_index e (pg_cipher p) d)) | None \<Rightarrow> bt_get (pg_pages p) n)"
    "\<And>n d. \<not> os_clash (pg_store (flushed e p)) \<Longrightarrow> bt_get (pg_dirty p) n = Some d
      \<Longrightarrow> os_get (pg_store (flushed e p)) (pe_hash e (seal_index e (pg_cipher p) d)) = Some (seal_index e (pg_cipher p) d)"
proof -
  have inv: "bt_inv (pg_dirty p)" "bt_inv (pg_pages (p\<lparr>pg_dirty := []\<rparr>))" using assms by (simp_all add: pager_ok_def)
  note f = flush_fold [where e = e and p = "p\<lparr>pg_dirty := []\<rparr>" and ds = "pg_dirty p", OF inv, folded flushed_def, simplified]
  show "same_index (p\<lparr>pg_dirty := []\<rparr>) (flushed e p)" "bt_inv (pg_pages (flushed e p))" using f by blast+
  show "bt_get (pg_pages (flushed e p)) n = (case bt_get (pg_dirty p) n of Some d \<Rightarrow> Some (pe_hash e (seal_index e (pg_cipher p) d)) | None \<Rightarrow> bt_get (pg_pages p) n)" for n
    using f by (simp split: option.split)
  show "os_get (pg_store (flushed e p)) (pe_hash e (seal_index e (pg_cipher p) d)) = Some (seal_index e (pg_cipher p) d)"
    if "\<not> os_clash (pg_store (flushed e p))" "bt_get (pg_dirty p) n = Some d" for n d using f that by blast
qed

lemma flushed_index:
  assumes "pager_ok e p" "\<not> os_clash (pg_store (flushed e p))" "l < unat (pg_depth p)" "\<not> touched (set (pg_dirty_index p)) l nk"
  shows "node_ok e (flushed e p) l nk"
proof -
  note f = flushed_effect [OF assms(1)]
  have same: "pg_cipher (flushed e p) = pg_cipher p" "pg_node_cids (flushed e p) = pg_node_cids p" "store_grows (pg_store p) (pg_store (flushed e p))"
    using f(1) by (simp_all add: same_index_def)
  have "bt_get (pg_pages (flushed e p)) n = bt_get (pg_pages p) n" if "n \<notin> set (pg_dirty_index p)" for n
    using f(3) [of n] assms(1) that by (auto simp: pager_ok_def split: option.split)
  note kids = untouched_kids [OF assms(4) this, where e = e and k = "pg_cipher p"]
  have "node_ok e p l nk" using assms by (simp add: pager_ok_def index_ok_def)
  then show ?thesis using kids same stored_grows [OF _ same(3) assms(2)] by (simp add: node_ok_def Let_def)
qed

lemma regrown_index:
  assumes "pager_ok e p" "\<not> os_clash (pg_store (flushed e p))" "regrown (flushed e p) = (changed, p2)"
  shows "pg_depth p2 = depth_for (pg_page_count p)" "pg_pages p2 = pg_pages (flushed e p)" "pg_store p2 = pg_store (flushed e p)" "pg_dirty p2 = []"
    "pg_page_count p2 = pg_page_count p" "pg_remote p2 = pg_remote p" "pg_cipher p2 = pg_cipher p" "pg_wrapped_dek p2 = pg_wrapped_dek p"
    "\<And>l nk. l < unat (pg_depth p2) \<Longrightarrow> \<not> touched (set changed) l nk \<Longrightarrow> node_ok e p2 l nk"
    "\<And>l nk. unat (pg_depth p2) \<le> l \<Longrightarrow> pg_node_cids p2 (l, nk) = None"
proof -
  let ?f = "flushed e p"
  have same: "pg_dirty ?f = []" "pg_dirty_index ?f = pg_dirty_index p" "pg_node_cids ?f = pg_node_cids p" "pg_page_count ?f = pg_page_count p"
    "pg_depth ?f = pg_depth p" "pg_remote ?f = pg_remote p" "pg_cipher ?f = pg_cipher p" "pg_wrapped_dek ?f = pg_wrapped_dek p"
    using flushed_effect(1) [OF assms(1)] by (simp_all add: same_index_def)
  show "pg_depth p2 = depth_for (pg_page_count p)" "pg_pages p2 = pg_pages (flushed e p)" "pg_store p2 = pg_store (flushed e p)" "pg_dirty p2 = []"
    "pg_page_count p2 = pg_page_count p" "pg_remote p2 = pg_remote p" "pg_cipher p2 = pg_cipher p" "pg_wrapped_dek p2 = pg_wrapped_dek p"
    using assms(3) same by (auto simp: regrown_def split: if_splits)
  have old: "\<And>l nk. unat (pg_depth p) \<le> l \<Longrightarrow> pg_node_cids p (l, nk) = None" using assms(1) by (simp add: pager_ok_def index_ok_def)
  show "pg_node_cids p2 (l, nk) = None" if "unat (pg_depth p2) \<le> l" for l nk
    using that assms(3) same old by (auto simp: regrown_def split: if_splits)
  show "node_ok e p2 l nk" if l: "l < unat (pg_depth p2)" and nk: "\<not> touched (set changed) l nk" for l nk
  proof (cases "depth_for (pg_page_count p) = pg_depth p")
    case True
    then have "changed = pg_dirty_index p" "p2 = ?f" using assms(3) same by (simp_all add: regrown_def)
    then show ?thesis using flushed_index [OF assms(1,2)] l nk same by simp
  next
    case False
    then have c: "changed = map fst (pg_pages ?f)" "p2 = ?f\<lparr>pg_depth := depth_for (pg_page_count p), pg_node_cids := Map.empty\<rparr>"
      using assms(3) same by (simp_all add: regrown_def)
    have "\<not> touched {n. bt_get (pg_pages ?f) n \<noteq> None} l nk" using nk by (simp add: c(1) bt_get_None_iff Collect_mem_eq)
    then show ?thesis by (simp add: node_ok_def c(2) untouched_empty node_cid_def stored_def)
  qed
qed

definition root_of :: "pager_env \<Rightarrow> dek option \<Rightarrow> (nat \<Rightarrow> bytes32 option) \<Rightarrow> u32 \<Rightarrow> bytes \<Rightarrow> root_index" where
  "root_of e k P cnt wrapped = (let d = depth_for cnt in \<lparr>ri_page_count = cnt, ri_depth = d,
     ri_root_cid = (if d = 0 then 0 else case node_cid e k (kids e k P (unat d - 1) 0) of Some c \<Rightarrow> c | None \<Rightarrow> 0), ri_wrapped_dek = wrapped\<rparr>)"

lemma rebuild_levels_other: "l \<notin> set ls \<Longrightarrow> pg_node_cids (rebuild_levels ls e ks p) (l, nk) = pg_node_cids p (l, nk)"
proof (induction ls arbitrary: ks p)
  case (Cons l' ls)
  have "pg_node_cids (fold (rebuild_node e l') ks p) (l, nk) = pg_node_cids p (l, nk)"
    using rebuild_fold [where e = e and level = l' and ks = ks and p = p] Cons.prems by simp
  then show ?case using Cons by simp
qed simp

lemma rebuild_ok:
  assumes "\<And>l nk. l < unat (pg_depth p) \<Longrightarrow> \<not> touched (set changed) l nk \<Longrightarrow> node_ok e p l nk" "\<And>l nk. unat (pg_depth p) \<le> l \<Longrightarrow> pg_node_cids p (l, nk) = None"
    and "\<not> os_clash (pg_store (rebuild e changed p))"
  shows "same_pages p (rebuild e changed p)" "\<And>l nk. l < unat (pg_depth p) \<Longrightarrow> node_ok e (rebuild e changed p) l nk"
    "\<And>l nk. unat (pg_depth p) \<le> l \<Longrightarrow> pg_node_cids (rebuild e changed p) (l, nk) = None"
proof -
  show "same_pages p (rebuild e changed p)"
    by (cases "pg_depth p = 0") (simp_all add: rebuild_def rebuild_levels_same same_pages_def [of p "p\<lparr>pg_node_cids := Map.empty\<rparr>"])
  show "pg_node_cids (rebuild e changed p) (l, nk) = None" if "unat (pg_depth p) \<le> l" for l nk
    using assms(2) that by (simp add: rebuild_def rebuild_levels_other)
  show "node_ok e (rebuild e changed p) l nk" if l: "l < unat (pg_depth p)" for l nk
  proof -
    have d: "pg_depth p \<noteq> 0" using l by auto
    let ?ks = "btset_of (map parent_key changed)"
    have ks: "nk \<in> set ?ks \<longleftrightarrow> touched (set changed) 0 nk" for nk
      by (simp add: btset_of_def touched_def image_iff parent_key_eq) metis
    have "node_ok e (rebuild_levels [0..<unat (pg_depth p)] e ?ks p) l nk"
      using assms(1,3) d l by (intro rebuild_levels_ok [where C = "set changed", OF _ _ ks]) (simp_all add: rebuild_def)
    then show ?thesis using d by (simp add: rebuild_def)
  qed
qed

lemma commit_unfold:
  assumes "regrown (flushed e p) = (changed, p2)"
  defines "p3 \<equiv> rebuild e changed (p2\<lparr>pg_dirty_index := []\<rparr>)"
  defines "ri \<equiv> \<lparr>ri_page_count = pg_page_count p3, ri_depth = pg_depth p3,
    ri_root_cid = (if pg_depth p3 = 0 then 0 else case pg_node_cids p3 (unat (pg_depth p3) - 1, 0) of Some c \<Rightarrow> c | None \<Rightarrow> 0), ri_wrapped_dek = pg_wrapped_dek p3\<rparr>"
  shows "commit e p = (pe_hash e (root_enc e ri), p3\<lparr>pg_store := snd (os_put (pe_hash e) (root_enc e ri) (pg_store p3))\<rparr>)"
  using assms(1) fst_put [of "pe_hash e" "root_enc e ri" "pg_store p3"]
  unfolding commit_def regrown_def flushed_def Let_def ri_def p3_def by (simp add: case_prod_beta split: if_splits)

lemma commit_effect:
  assumes ok: "pager_ok e p" and c: "commit e p = (root, p')" and nc: "\<not> os_clash (pg_store p')"
  defines "ri \<equiv> root_of e (pg_cipher p) (page_map (pg_pages p')) (pg_page_count p) (pg_wrapped_dek p)"
  shows "root = pe_hash e (root_enc e ri)" "os_get (pg_store p') root = Some (root_enc e ri)" "store_grows (pg_store p) (pg_store p')"
    "pg_dirty p' = []" "pg_dirty_index p' = []" "pg_page_count p' = pg_page_count p" "pg_depth p' = depth_for (pg_page_count p)"
    "pg_remote p' = pg_remote p" "pg_cipher p' = pg_cipher p" "pg_wrapped_dek p' = pg_wrapped_dek p"
    "pg_pages p' = pg_pages (flushed e p)" "store_grows (pg_store (flushed e p)) (pg_store p')"
    "\<And>l nk. l < unat (pg_depth p') \<Longrightarrow> node_ok e p' l nk" "\<And>l nk. unat (pg_depth p') \<le> l \<Longrightarrow> pg_node_cids p' (l, nk) = None"
proof -
  obtain changed p2 where r: "regrown (flushed e p) = (changed, p2)" by (cases "regrown (flushed e p)")
  define q where "q = p2\<lparr>pg_dirty_index := []\<rparr>"
  define p3 where "p3 = rebuild e changed q"
  define rc where "rc = (if pg_depth p3 = 0 then 0 else case pg_node_cids p3 (unat (pg_depth p3) - 1, 0) of Some c \<Rightarrow> c | None \<Rightarrow> 0)"
  define ri3 where "ri3 = \<lparr>ri_page_count = pg_page_count p3, ri_depth = pg_depth p3, ri_root_cid = rc, ri_wrapped_dek = pg_wrapped_dek p3\<rparr>"
  define st where "st = snd (os_put (pe_hash e) (root_enc e ri3) (pg_store p3))"
  have root: "root = pe_hash e (root_enc e ri3)" and p': "p' = p3\<lparr>pg_store := st\<rparr>"
    using commit_unfold [OF r] c by (auto simp: ri3_def rc_def p3_def q_def st_def)
  have g3: "store_grows (pg_store p3) st" unfolding st_def by (rule put_grows)
  have nc3: "\<not> os_clash (pg_store p3)" using nc g3 by (auto simp: p' store_grows_def)
  have s3: "same_pages q p3" unfolding p3_def
    by (cases "pg_depth q = 0") (simp_all add: rebuild_def rebuild_levels_same same_pages_def [of q "q\<lparr>pg_node_cids := Map.empty\<rparr>"])
  have gf: "store_grows (pg_store (flushed e p)) (pg_store p3)"
    using s3 r by (auto simp: same_pages_def q_def regrown_def split: if_splits)
  then have ncf: "\<not> os_clash (pg_store (flushed e p))" using nc3 by (auto simp: store_grows_def)
  note g = regrown_index [OF ok ncf r]
  have "node_ok e q l nk" if "l < unat (pg_depth q)" "\<not> touched (set changed) l nk" for l nk
    using g(9) [of l nk] that by (simp add: q_def node_ok_def)
  moreover have "pg_node_cids q (l, nk) = None" if "unat (pg_depth q) \<le> l" for l nk using g(10) [of l nk] that by (simp add: q_def)
  ultimately have ok3: "\<And>l nk. l < unat (pg_depth q) \<Longrightarrow> node_ok e p3 l nk" "\<And>l nk. unat (pg_depth q) \<le> l \<Longrightarrow> pg_node_cids p3 (l, nk) = None"
    using rebuild_ok(2,3) [of q changed e] nc3 by (simp_all add: p3_def)
  have f3: "pg_pages p3 = pg_pages (flushed e p)" "pg_dirty p3 = []" "pg_dirty_index p3 = []" "pg_page_count p3 = pg_page_count p"
    "pg_depth p3 = depth_for (pg_page_count p)" "pg_depth q = depth_for (pg_page_count p)" "pg_remote p3 = pg_remote p" "pg_cipher p3 = pg_cipher p" "pg_wrapped_dek p3 = pg_wrapped_dek p"
    using s3 g(1-8) by (simp_all add: same_pages_def q_def)
  have s': "same_pages p3 p'" using g3 by (simp add: p' same_pages_def)
  show "\<And>l nk. l < unat (pg_depth p') \<Longrightarrow> node_ok e p' l nk" using node_ok_frame [OF s' nc] ok3(1) f3 by (simp add: p')
  show "\<And>l nk. unat (pg_depth p') \<le> l \<Longrightarrow> pg_node_cids p' (l, nk) = None" using ok3(2) f3 by (simp add: p')
  have "rc = (if depth_for (pg_page_count p) = 0 then 0 else case node_cid e (pg_cipher p) (kids e (pg_cipher p) (page_map (pg_pages p')) (unat (depth_for (pg_page_count p)) - 1) 0) of Some c \<Rightarrow> c | None \<Rightarrow> 0)"
    using ok3(1) [of "unat (pg_depth q) - 1" 0] f3 unat_gt_0 [of "depth_for (pg_page_count p)"] by (simp add: rc_def node_ok_def Let_def p')
  then have ri: "ri3 = ri" by (simp add: ri3_def ri_def root_of_def Let_def f3)
  show "root = pe_hash e (root_enc e ri)" using root ri by simp
  show "os_get (pg_store p') root = Some (root_enc e ri)" using put_get [of "pe_hash e" "root_enc e ri3" "pg_store p3"] nc root ri by (simp add: p' st_def)
  have "store_grows (pg_store p) (pg_store (flushed e p))" using flushed_effect(1) [OF ok] by (simp add: same_index_def)
  then show "store_grows (pg_store p) (pg_store p')" using store_grows_trans [OF _ store_grows_trans [OF gf g3]] by (simp add: p')
  show "store_grows (pg_store (flushed e p)) (pg_store p')" using store_grows_trans [OF gf g3] by (simp add: p')
  show "pg_dirty p' = []" "pg_dirty_index p' = []" "pg_page_count p' = pg_page_count p" "pg_depth p' = depth_for (pg_page_count p)"
    "pg_remote p' = pg_remote p" "pg_cipher p' = pg_cipher p" "pg_wrapped_dek p' = pg_wrapped_dek p" "pg_pages p' = pg_pages (flushed e p)"
    using f3 by (simp_all add: p')
qed

lemma commit_ok:
  assumes ok: "pager_ok e p" and c: "commit e p = (root, p')" and nc: "\<not> os_clash (pg_store p')"
  shows "pager_ok e p'"
    and "\<And>n. bt_get (pg_pages p') n = (case bt_get (pg_dirty p) n of Some d \<Rightarrow> Some (pe_hash e (seal_index e (pg_cipher p) d)) | None \<Rightarrow> bt_get (pg_pages p) n)"
    and "\<And>n d. bt_get (pg_dirty p) n = Some d \<Longrightarrow> os_get (pg_store p') (pe_hash e (seal_index e (pg_cipher p) d)) = Some (seal_index e (pg_cipher p) d)"
proof -
  note ce = commit_effect [OF ok c nc] and fe = flushed_effect [OF ok]
  have ncf: "\<not> os_clash (pg_store (flushed e p))" using ce(12) nc by (auto simp: store_grows_def)
  show pages: "bt_get (pg_pages p') n = (case bt_get (pg_dirty p) n of Some d \<Rightarrow> Some (pe_hash e (seal_index e (pg_cipher p) d)) | None \<Rightarrow> bt_get (pg_pages p) n)" for n
    unfolding ce(11) by (rule fe(3))
  show blobs: "os_get (pg_store p') (pe_hash e (seal_index e (pg_cipher p) d)) = Some (seal_index e (pg_cipher p) d)" if "bt_get (pg_dirty p) n = Some d" for n d
    using store_grows_get [OF ce(12) nc fe(4) [OF ncf that]] .
  have "all_local p'" unfolding all_local_def
  proof (intro allI impI)
    fix n c assume n: "bt_get (pg_pages p') n = Some c"
    show "os_get (pg_store p') c \<noteq> None"
    proof (cases "bt_get (pg_dirty p) n")
      case None
      then have "os_get (pg_store p) c \<noteq> None" using n pages [of n] ok by (auto simp: pager_ok_def all_local_def)
      then show ?thesis using store_grows_get [OF ce(3) nc] by blast
    next
      case (Some d)
      then show ?thesis using n pages [of n] blobs [OF Some] by simp
    qed
  qed
  moreover have "n < pg_page_count p" if "bt_get (pg_pages p') n \<noteq> None" for n
    using that pages [of n] ok by (auto simp: pager_ok_def split: option.splits)
  ultimately show "pager_ok e p'" using ce(4-7,13,14) fe(2) nc by (simp add: pager_ok_def index_ok_def ce(11) touched_def)
qed

section \<open>Opening\<close>

text \<open>What the serialisation library documents: what it wrote it reads back, for the values the program has; and the laws of the cipher.\<close>

definition codec_laws :: "pager_env \<Rightarrow> bool" where
  "codec_laws e \<longleftrightarrow> (\<forall>m. bt_inv m \<longrightarrow> node_dec e (node_enc e m) = Some m) \<and> (\<forall>r. root_dec e (root_enc e r) = Some r) \<and> aead_laws (pe_aead e)"

lemma open_seal_index: "codec_laws e \<Longrightarrow> open_index e k (seal_index e k b) = Inr b"
  by (simp add: open_index_def seal_index_def codec_laws_def open_seal_deterministic split: option.split)

lemma open_seal_page: "codec_laws e \<Longrightarrow> open_page e k (seal_index e k b) = b"
  by (simp add: open_page_def seal_index_def codec_laws_def open_seal_deterministic split: option.split)

lemma bt_inv_collect: "bt_inv (collect f)"
proof -
  have "map fst (List.map_filter (\<lambda>i. map_option (Pair (of_nat i :: u8)) (f i)) xs) = map of_nat (filter (\<lambda>i. f i \<noteq> None) xs)" for xs
    by (induction xs) (auto simp: map_filter_simps split: option.split)
  moreover have "sorted_wrt (\<lambda>i j. (of_nat i :: u8) < of_nat j) (filter (\<lambda>i. f i \<noteq> None) [0..<FANOUT])"
    by (intro sorted_wrt_filter sorted_wrt_mono_rel [OF _ sorted_wrt_upt]) (simp add: word_less_nat_alt unat_of_nat FANOUT_def)
  ultimately show ?thesis by (simp add: bt_inv_def collect_def sorted_wrt_map)
qed

lemma bt_inv_kids: "bt_inv (kids e k P l nk)"
  by (cases l) (simp_all add: bt_inv_collect)

lemma read_stored: "codec_laws e \<Longrightarrow> bt_inv m \<Longrightarrow> stored e k st m \<Longrightarrow> node_cid e k m = Some c \<Longrightarrow> read_node e st k c = Inr m"
  by (auto simp: node_cid_def stored_def read_node_def decode_node_sealed_def decode_node_def open_seal_index split: if_splits) (simp add: codec_laws_def)

text \<open>Every node of the tree under a key is stored.\<close>

definition tree_stored :: "pager_env \<Rightarrow> dek option \<Rightarrow> (nat \<Rightarrow> bytes32 option) \<Rightarrow> object_store \<Rightarrow> nat \<Rightarrow> bool" where
  "tree_stored e k P st L \<longleftrightarrow> (\<forall>l < L. \<forall>nk :: u32. stored e k st (kids e k P l (unat nk)))"

text \<open>The pages and the nodes under a node.\<close>

definition under :: "nat \<Rightarrow> nat \<Rightarrow> nat \<Rightarrow> bool" where
  "under l nk n \<longleftrightarrow> n div FANOUT ^ Suc l = nk"

definition nodes_under :: "nat \<Rightarrow> nat \<Rightarrow> nat \<Rightarrow> nat \<Rightarrow> bool" where
  "nodes_under l nk l' k' \<longleftrightarrow> l' \<le> l \<and> k' div FANOUT ^ (l - l') = nk"

text \<open>Loading adds the pages and nodes of a region of the canonical tree.\<close>

definition adds :: "pager_env \<Rightarrow> dek option \<Rightarrow> (nat \<Rightarrow> bytes32 option) \<Rightarrow> (nat \<Rightarrow> bool) \<Rightarrow> (nat \<Rightarrow> nat \<Rightarrow> bool) \<Rightarrow> loaded \<Rightarrow> loaded \<Rightarrow> bool" where
  "adds e k P R N a b \<longleftrightarrow> (bt_inv (fst a) \<longrightarrow> bt_inv (fst b))
     \<and> (\<forall>n. bt_get (fst b) n = (if R (unat n) \<and> P (unat n) \<noteq> None then P (unat n) else bt_get (fst a) n))
     \<and> (\<forall>l nk. snd b (l, nk) = (if N l (unat nk) \<and> kids e k P l (unat nk) \<noteq> [] then node_cid e k (kids e k P l (unat nk)) else snd a (l, nk)))"

lemma adds_trans: "adds e k P R N a b \<Longrightarrow> adds e k P R' N' b c \<Longrightarrow> adds e k P (\<lambda>n. R n \<or> R' n) (\<lambda>l nk. N l nk \<or> N' l nk) a c"
  by (auto simp: adds_def)

lemma adds_mono: "adds e k P R N a b \<Longrightarrow> R = R' \<Longrightarrow> N = N' \<Longrightarrow> adds e k P R' N' a b"
  by simp

lemma under_nodes: "nodes_under l nk l' k' \<Longrightarrow> n div FANOUT ^ Suc l' = k' \<Longrightarrow> under l nk n"
proof -
  assume a: "nodes_under l nk l' k'" and n: "n div FANOUT ^ Suc l' = k'"
  have "FANOUT ^ Suc l = FANOUT ^ Suc l' * FANOUT ^ (l - l')" using a by (simp add: nodes_under_def flip: power_add)
  then show ?thesis using a n by (simp add: under_def nodes_under_def div_mult2_eq)
qed

lemma adds_empty: "kids e k P l nk = [] \<Longrightarrow> adds e k P (under l nk) (nodes_under l nk) a a"
proof -
  assume "kids e k P l nk = []"
  then have none: "P n = None" if "under l nk n" for n using that unfolding kids_Nil under_def by blast
  then have "kids e k P l' k' = []" if "nodes_under l nk l' k'" for l' k' unfolding kids_Nil using under_nodes [OF that] by blast
  then show ?thesis using none by (auto simp: adds_def)
qed

lemma fold_err_append: "fold_err f (xs @ ys) a = (case fold_err f xs a of Inl err \<Rightarrow> Inl err | Inr b \<Rightarrow> fold_err f ys b)"
  by (induction xs arbitrary: a) (auto split: sum.split)

lemma unat_of_nat_byte': "i < FANOUT \<Longrightarrow> unat (of_nat i :: u8) = i"
  by (simp add: FANOUT_def unat_of_nat)

lemma fold_err_collect:
  "fold_err (\<lambda>(i, c). G (unat i) c) (collect f) a = fold_err (\<lambda>i a. case f i of None \<Rightarrow> Inr a | Some c \<Rightarrow> G i c a) [0..<FANOUT] a"
proof -
  have "fold_err (\<lambda>(i, c). G (unat i) c) (List.map_filter (\<lambda>i. map_option (Pair (of_nat i :: u8)) (f i)) xs) a
      = fold_err (\<lambda>i a. case f i of None \<Rightarrow> Inr a | Some c \<Rightarrow> G i c a) xs a" if "set xs \<subseteq> {..<FANOUT}" for xs
    using that by (induction xs arbitrary: a) (auto simp: map_filter_simps unat_of_nat_byte' split: option.split sum.split)
  then show ?thesis unfolding collect_def by (simp add: atLeast_upt)
qed

lemma fold_collect:
  "fold (\<lambda>(i, c). g (unat i) c) (collect f) a = fold (\<lambda>i a. case f i of None \<Rightarrow> a | Some c \<Rightarrow> g i c a) [0..<FANOUT] a"
proof -
  have "fold (\<lambda>(i, c). g (unat i) c) (List.map_filter (\<lambda>i. map_option (Pair (of_nat i :: u8)) (f i)) xs) a
      = fold (\<lambda>i a. case f i of None \<Rightarrow> a | Some c \<Rightarrow> g i c a) xs a" if "set xs \<subseteq> {..<FANOUT}" for xs
    using that by (induction xs arbitrary: a) (auto simp: map_filter_simps unat_of_nat_byte' split: option.split)
  then show ?thesis unfolding collect_def by (simp add: atLeast_upt)
qed

text \<open>A loop over the children that adds one region after the other.\<close>

lemma loop_adds:
  assumes "\<And>i a. i < FANOUT \<Longrightarrow> \<exists>b. F i a = Inr b \<and> adds e k P (R i) (N i) a b"
  shows "\<exists>b. fold_err F [0..<FANOUT] a = Inr b \<and> adds e k P (\<lambda>n. \<exists>i < FANOUT. R i n) (\<lambda>l nk. \<exists>i < FANOUT. N i l nk) a b"
proof -
  have "\<exists>b. fold_err F [0..<m] a = Inr b \<and> adds e k P (\<lambda>n. \<exists>i < m. R i n) (\<lambda>l nk. \<exists>i < m. N i l nk) a b" if "m \<le> FANOUT" for m
    using that
  proof (induction m)
    case 0
    then show ?case by (simp add: adds_def)
  next
    case (Suc m)
    then obtain b where b: "fold_err F [0..<m] a = Inr b" "adds e k P (\<lambda>n. \<exists>i < m. R i n) (\<lambda>l nk. \<exists>i < m. N i l nk) a b" by auto
    obtain c where c: "F m b = Inr c" "adds e k P (R m) (N m) b c" using assms [of m b] Suc.prems by auto
    have "adds e k P (\<lambda>n. \<exists>i < Suc m. R i n) (\<lambda>l nk. \<exists>i < Suc m. N i l nk) a c"
      using adds_trans [OF b(2) c(2)] by (rule adds_mono) (auto simp: less_Suc_eq fun_eq_iff)
    then show ?case using b(1) c(1) by (simp add: fold_err_append)
  qed
  then show ?thesis by blast
qed

end
