(* ===== verification/Pager_Open.thy ===== *)
theory Pager_Open
  imports Pager_Laws
begin

text \<open>
  Opening a committed root of the database pager (\<open>src/crates/sql/src/pager.rs\<close>): what loading a subtree
  finds, that an opened pager is the committed one, and what histories of writes, truncations, commits and
  reopenings keep.
\<close>

section \<open>Loading a subtree\<close>

lemma child_key_eq:
  assumes "unat nk * FANOUT + i < 2 ^ 32"
  shows "n = child_key nk i \<longleftrightarrow> unat n = unat nk * FANOUT + i" "unat (child_key nk i) = unat nk * FANOUT + i"
proof -
  show u: "unat (child_key nk i) = unat nk * FANOUT + i" unfolding child_key_def by (rule unat_of_nat_u32 [OF assms])
  then show "n = child_key nk i \<longleftrightarrow> unat n = unat nk * FANOUT + i" by (simp add: word_unat_eq_iff)
qed

lemma capacity_child:
  assumes "(nk + 1) * FANOUT ^ Suc l \<le> 2 ^ 32" "i < FANOUT"
  shows "nk * FANOUT + i < 2 ^ 32"
proof -
  have "(nk + 1) * FANOUT \<le> (nk + 1) * FANOUT ^ Suc l" by (intro mult_le_mono2) (simp add: Suc_le_eq)
  moreover have "nk * FANOUT + i < (nk + 1) * FANOUT" using assms(2) by simp
  ultimately show ?thesis using assms(1) by linarith
qed

lemma load_leaf:
  assumes "(unat nk + 1) * FANOUT \<le> 2 ^ 32"
  shows "adds e k P (under 0 (unat nk)) (\<lambda>l n. False) a (fold (\<lambda>(i, c). bt_insert (child_key nk (unat i)) c) (kids e k P 0 (unat nk)) (fst a), snd a)"
proof -
  let ?h = "\<lambda>i (a :: loaded). case P (unat nk * FANOUT + i) of None \<Rightarrow> a | Some c \<Rightarrow> (bt_insert (child_key nk i) c (fst a), snd a)"
  have "\<exists>b. Inr (?h i a) = (Inr b :: sql_error + loaded) \<and> adds e k P (\<lambda>n. n = unat nk * FANOUT + i) (\<lambda>l n. False) a b" if "i < FANOUT" for i a
    using child_key_eq(1) [of nk i] capacity_child [of "unat nk" 0 i] assms that by (auto simp: adds_def split: option.split)
  note loop = loop_adds [of "\<lambda>i a. Inr (?h i a)", OF this, of a]
  have err: "fold_err (\<lambda>i a. Inr (?h i a) :: sql_error + loaded) xs a = Inr (fold ?h xs a)" for xs a by (induction xs arbitrary: a) simp_all
  have pair: "fold ?h xs a = (fold (\<lambda>i pg. case P (unat nk * FANOUT + i) of None \<Rightarrow> pg | Some c \<Rightarrow> bt_insert (child_key nk i) c pg) xs (fst a), snd a)" for xs a
    by (induction xs arbitrary: a) (auto split: option.split)
  have "adds e k P (\<lambda>n. \<exists>i < FANOUT. n = unat nk * FANOUT + i) (\<lambda>l n. False) a (fold (\<lambda>(i, c). bt_insert (child_key nk (unat i)) c) (kids e k P 0 (unat nk)) (fst a), snd a)"
    using loop fold_collect [of "\<lambda>i. bt_insert (child_key nk i)" "\<lambda>i. P (unat nk * FANOUT + i)" "fst a"] by (simp add: err pair)
  moreover have "(\<exists>i < FANOUT. n = unat nk * FANOUT + i) = under 0 (unat nk) n" for n
  proof
    assume "under 0 (unat nk) n"
    then have "n = unat nk * FANOUT + n mod FANOUT" using div_mult_mod_eq [of n FANOUT] by (simp add: under_def)
    then show "\<exists>i < FANOUT. n = unat nk * FANOUT + i" using mod_less_divisor [OF FANOUT_pos(1)] by blast
  qed (auto simp: under_def)
  ultimately show ?thesis by simp
qed

lemma under_Suc: "under (Suc l) nk n \<longleftrightarrow> (\<exists>i < FANOUT. under l (nk * FANOUT + i) n)"
proof
  assume "under (Suc l) nk n"
  then have "n div FANOUT ^ Suc l div FANOUT = nk" unfolding under_def by (metis div_mult2_eq power_Suc2)
  then have "n div FANOUT ^ Suc l = nk * FANOUT + n div FANOUT ^ Suc l mod FANOUT" by (metis div_mult_mod_eq)
  then show "\<exists>i < FANOUT. under l (nk * FANOUT + i) n" unfolding under_def using mod_less_divisor [OF FANOUT_pos(1)] by blast
next
  show "\<exists>i < FANOUT. under l (nk * FANOUT + i) n \<Longrightarrow> under (Suc l) nk n" unfolding under_def using child_div by blast
qed

lemma nodes_under_Suc: "nodes_under (Suc l) nk l' k' \<longleftrightarrow> (l' = Suc l \<and> k' = nk) \<or> (\<exists>i < FANOUT. nodes_under l (nk * FANOUT + i) l' k')"
proof (cases "l' \<le> l")
  case True
  have "k' div FANOUT ^ Suc (l - l') = nk \<longleftrightarrow> (\<exists>i < FANOUT. k' div FANOUT ^ (l - l') = nk * FANOUT + i)"
  proof
    assume "k' div FANOUT ^ Suc (l - l') = nk"
    then have "k' div FANOUT ^ (l - l') div FANOUT = nk" by (metis div_mult2_eq power_Suc2)
    then have "k' div FANOUT ^ (l - l') = nk * FANOUT + k' div FANOUT ^ (l - l') mod FANOUT" by (metis div_mult_mod_eq)
    then show "\<exists>i < FANOUT. k' div FANOUT ^ (l - l') = nk * FANOUT + i" using mod_less_divisor [OF FANOUT_pos(1)] by blast
  next
    assume "\<exists>i < FANOUT. k' div FANOUT ^ (l - l') = nk * FANOUT + i"
    then show "k' div FANOUT ^ Suc (l - l') = nk" by (metis FANOUT_pos(2) add.right_neutral div_less div_mult2_eq div_mult_self3 power_Suc2)
  qed
  then show ?thesis using True by (auto simp: nodes_under_def Suc_diff_le)
qed (auto simp: nodes_under_def)

lemma load_subtree_adds:
  assumes "codec_laws e" "tree_stored e k P st (Suc l)" "(unat nk + 1) * FANOUT ^ Suc l \<le> 2 ^ 32" "node_cid e k (kids e k P l (unat nk)) = Some c"
  shows "\<exists>b. load_subtree l e st k nk c a = Inr b \<and> adds e k P (under l (unat nk)) (nodes_under l (unat nk)) a b"
  using assms(2-4)
proof (induction l arbitrary: nk c a)
  case 0
  have "stored e k st (kids e k P 0 (unat nk))" using 0(1) by (simp add: tree_stored_def del: kids.simps)
  from read_stored [OF assms(1) bt_inv_kids this 0(3)] have "load_subtree 0 e st k nk c a = Inr (fold (\<lambda>(i, c). bt_insert (child_key nk (unat i)) c) (kids e k P 0 (unat nk)) (fst a), (snd a)((0, nk) \<mapsto> c))"
    by (simp del: kids.simps)
  moreover have "adds e k P (\<lambda>n. False) (nodes_under 0 (unat nk)) (x, y) (x, y((0, nk) \<mapsto> c))" for x y
    using 0(3) by (auto simp: adds_def nodes_under_def node_cid_def word_unat_eq_iff simp del: kids.simps split: if_splits)
  from adds_trans [OF load_leaf this] have "adds e k P (\<lambda>n. under 0 (unat nk) n \<or> False) (\<lambda>l n. False \<or> nodes_under 0 (unat nk) l n) a
      (fold (\<lambda>(i, c). bt_insert (child_key nk (unat i)) c) (kids e k P 0 (unat nk)) (fst a), (snd a)((0, nk) \<mapsto> c))" using 0(2) by simp
  ultimately show ?case by simp
next
  case (Suc l)
  let ?K = "kids e k P (Suc l) (unat nk)" let ?f = "\<lambda>i. node_cid e k (kids e k P l (unat nk * FANOUT + i))"
  have "stored e k st ?K" using Suc(2) by (simp add: tree_stored_def del: kids.simps)
  from read_stored [OF assms(1) bt_inv_kids this Suc(4)] have read: "read_node e st k c = Inr ?K" .
  let ?a = "(fst a, (snd a)((Suc l, nk) \<mapsto> c))"
  let ?F = "\<lambda>i a. case ?f i of None \<Rightarrow> Inr a | Some c \<Rightarrow> load_subtree l e st k (child_key nk i) c a"
  have load: "load_subtree (Suc l) e st k nk c a = fold_err ?F [0..<FANOUT] ?a"
    using fold_err_collect [of "\<lambda>i. load_subtree l e st k (child_key nk i)" ?f ?a] by (simp add: read)
  have "\<exists>b. ?F i a = Inr b \<and> adds e k P (under l (unat nk * FANOUT + i)) (nodes_under l (unat nk * FANOUT + i)) a b" if i: "i < FANOUT" for i a
  proof (cases "?f i")
    case None
    then have "kids e k P l (unat nk * FANOUT + i) = []" by (simp add: node_cid_def split: if_splits)
    from adds_empty [OF this] show ?thesis using None by simp
  next
    case (Some c')
    have key: "unat (child_key nk i) = unat nk * FANOUT + i" using child_key_eq(2) capacity_child [OF Suc(3) i] .
    have "(unat nk * FANOUT + i + 1) * FANOUT ^ Suc l \<le> ((unat nk + 1) * FANOUT) * FANOUT ^ Suc l" using i by (intro mult_le_mono1) simp
    also have "\<dots> \<le> 2 ^ 32" using Suc(3) by (simp only: power_Suc mult.assoc)
    finally have cap: "(unat (child_key nk i) + 1) * FANOUT ^ Suc l \<le> 2 ^ 32" unfolding key .
    have "tree_stored e k P st (Suc l)" using Suc(2) by (simp add: tree_stored_def)
    from Suc.IH [OF this cap, of c' a] show ?thesis using Some unfolding key by simp
  qed
  from loop_adds [where F = ?F and R = "\<lambda>i. under l (unat nk * FANOUT + i)" and N = "\<lambda>i. nodes_under l (unat nk * FANOUT + i)" and a = ?a, OF this] obtain b where b: "load_subtree (Suc l) e st k nk c a = Inr b"
    "adds e k P (\<lambda>n. \<exists>i < FANOUT. under l (unat nk * FANOUT + i) n) (\<lambda>l' k'. \<exists>i < FANOUT. nodes_under l (unat nk * FANOUT + i) l' k') ?a b"
    unfolding load by blast
  have "adds e k P (\<lambda>n. False) (\<lambda>l' k'. l' = Suc l \<and> k' = unat nk) a ?a"
    using Suc(4) by (auto simp: adds_def node_cid_def word_unat_eq_iff simp del: kids.simps split: if_splits)
  from adds_trans [OF this b(2)] have "adds e k P (under (Suc l) (unat nk)) (nodes_under (Suc l) (unat nk)) a b"
    by (rule adds_mono) (simp_all add: fun_eq_iff under_Suc nodes_under_Suc)
  then show ?case using b(1) by blast
qed

section \<open>A committed root opens to its pages\<close>

lemma depth_for_cases:
  "unat (depth_for n) = (if unat n = 0 then 0 else if unat n \<le> 256 then 1 else if unat n \<le> 65536 then 2 else if unat n \<le> 16777216 then 3 else 4)"
proof -
  have "depth_loop 4294967296 d (unat n) = d" for d using unat_u32_lt [of n] by (subst depth_loop.simps) simp
  then have "depth_loop 256 1 (unat n) = (if unat n \<le> 256 then 1 else if unat n \<le> 65536 then 2 else if unat n \<le> 16777216 then 3 else 4)"
    by (simp add: depth_loop.simps [of 256] depth_loop.simps [of 65536] depth_loop.simps [of 16777216] FANOUT_def)
  then show ?thesis by (auto simp: depth_for_def FANOUT_def unat_eq_0)
qed

lemma depth_for_bounds:
  "unat n \<le> FANOUT ^ unat (depth_for n)" "FANOUT ^ unat (depth_for n) \<le> 2 ^ 32" "depth_for n = 0 \<longleftrightarrow> n = 0"
proof -
  show "unat n \<le> FANOUT ^ unat (depth_for n)" "FANOUT ^ unat (depth_for n) \<le> 2 ^ 32"
    using unat_u32_lt [of n] by (auto simp: depth_for_cases FANOUT_def)
  have "unat (depth_for n) = 0 \<longleftrightarrow> unat n = 0" by (simp add: depth_for_cases)
  then show "depth_for n = 0 \<longleftrightarrow> n = 0" by (simp add: unat_eq_0)
qed

lemma page_map_unat [simp]: "page_map pages (unat n) = bt_get pages n"
  using unat_u32_lt [of n] by (simp add: page_map_def)

lemma page_map_SomeD: "page_map pages n = Some c \<Longrightarrow> n < 2 ^ 32 \<and> bt_get pages (of_nat n) = Some c"
  by (simp add: page_map_def split: if_splits)

text \<open>A pager with no change pending: its pages fit its depth and its index is the canonical one.\<close>

definition settled :: "pager_env \<Rightarrow> pager \<Rightarrow> bool" where
  "settled e p \<longleftrightarrow> pager_ok e p \<and> pg_dirty p = [] \<and> pg_dirty_index p = [] \<and> pg_depth p = depth_for (pg_page_count p)"

lemma settled_node: "settled e p \<Longrightarrow> l < unat (pg_depth p) \<Longrightarrow> node_ok e p l nk"
  by (simp add: settled_def pager_ok_def index_ok_def touched_def)

lemma settled_small:
  assumes "settled e p" "page_map (pg_pages p) m \<noteq> None"
  shows "m < FANOUT ^ unat (pg_depth p)"
proof -
  obtain c where "m < 2 ^ 32" "bt_get (pg_pages p) (of_nat m) = Some c" using assms(2) page_map_SomeD by blast
  then have "of_nat m < pg_page_count p" using assms(1) by (simp add: settled_def pager_ok_def)
  then have "m < unat (pg_page_count p)" using \<open>m < 2 ^ 32\<close> by (simp add: word_less_nat_alt)
  then show ?thesis using depth_for_bounds(1) [of "pg_page_count p"] assms(1) by (simp add: settled_def)
qed

lemma settled_root:
  assumes "settled e p" "bt_get (pg_pages p) n \<noteq> None"
  shows "0 < unat (pg_depth p)" "kids e (pg_cipher p) (page_map (pg_pages p)) (unat (pg_depth p) - 1) 0 \<noteq> []"
proof -
  have n: "page_map (pg_pages p) (unat n) \<noteq> None" using assms(2) by simp
  have "n < pg_page_count p" using assms by (simp add: settled_def pager_ok_def)
  then show d: "0 < unat (pg_depth p)" using assms(1) depth_for_bounds(3) [of "pg_page_count p"] by (auto simp: settled_def unat_gt_0)
  have "unat n div FANOUT ^ Suc (unat (pg_depth p) - 1) = 0" using settled_small [OF assms(1) n] d by simp
  then show "kids e (pg_cipher p) (page_map (pg_pages p)) (unat (pg_depth p) - 1) 0 \<noteq> []"
    using kids_Nil [of e "pg_cipher p" "page_map (pg_pages p)" "unat (pg_depth p) - 1" 0] n by metis
qed

lemma settled_outside:
  assumes "settled e p" "l < unat (pg_depth p)" "\<not> nodes_under (unat (pg_depth p) - 1) 0 l (unat nk)"
  shows "kids e (pg_cipher p) (page_map (pg_pages p)) l (unat nk) = []"
proof (rule ccontr)
  let ?d = "unat (pg_depth p)"
  assume "kids e (pg_cipher p) (page_map (pg_pages p)) l (unat nk) \<noteq> []"
  then obtain m where m: "m div FANOUT ^ Suc l = unat nk" "page_map (pg_pages p) m \<noteq> None" unfolding kids_Nil by blast
  have "?d = Suc l + (?d - 1 - l)" using assms(2) by simp
  then have "FANOUT ^ ?d = FANOUT ^ Suc l * FANOUT ^ (?d - 1 - l)" by (metis power_add)
  then have "unat nk div FANOUT ^ (?d - 1 - l) = 0" using settled_small [OF assms(1) m(2)] m(1) by (metis div_less div_mult2_eq)
  then show False using assms(2,3) by (simp add: nodes_under_def)
qed

lemma load_all:
  assumes "codec_laws e" "settled e p" "bt_get (pg_pages p) n \<noteq> None" "\<And>c b. os_get (pg_store p) c = Some b \<Longrightarrow> os_get st c = Some b"
  shows "\<exists>c. node_cid e (pg_cipher p) (kids e (pg_cipher p) (page_map (pg_pages p)) (unat (pg_depth p) - 1) 0) = Some c
    \<and> load_subtree (unat (pg_depth p) - 1) e st (pg_cipher p) 0 c ([], Map.empty) = Inr (pg_pages p, pg_node_cids p)"
proof -
  let ?d = "unat (pg_depth p)" let ?k = "pg_cipher p" let ?P = "page_map (pg_pages p)"
  note root = settled_root [OF assms(2,3)]
  have d: "Suc (?d - 1) = ?d" using root(1) by simp
  have "stored e ?k st (kids e ?k ?P l (unat nk))" if "l < ?d" for l and nk :: u32
    using settled_node [OF assms(2) that, of nk] assms(4) by (simp add: node_ok_def Let_def stored_def)
  then have ts: "tree_stored e ?k ?P st (Suc (?d - 1))" unfolding d by (simp add: tree_stored_def)
  obtain c where c: "node_cid e ?k (kids e ?k ?P (?d - 1) (unat (0 :: u32))) = Some c" using root(2) by (simp add: node_cid_def)
  have "(unat (0 :: u32) + 1) * FANOUT ^ Suc (?d - 1) \<le> 2 ^ 32" unfolding d using depth_for_bounds(2) [of "pg_page_count p"] assms(2) by (simp add: settled_def)
  from load_subtree_adds [OF assms(1) ts this c, of "([], Map.empty)"] obtain b where b: "load_subtree (?d - 1) e st ?k 0 c ([], Map.empty) = Inr b"
    "adds e ?k ?P (under (?d - 1) 0) (nodes_under (?d - 1) 0) ([], Map.empty) b" by auto
  have "bt_get (fst b) m = bt_get (pg_pages p) m" for m
  proof -
    have "bt_get (fst b) m = (if under (?d - 1) 0 (unat m) \<and> ?P (unat m) \<noteq> None then ?P (unat m) else None)" using b(2) by (simp add: adds_def)
    moreover have "under (?d - 1) 0 (unat m)" if "?P (unat m) \<noteq> None" unfolding under_def d using settled_small [OF assms(2) that] by simp
    ultimately show ?thesis by (cases "?P (unat m)") simp_all
  qed
  then have "fst b = pg_pages p" using b(2) assms(2) by (intro bt_ext) (simp_all add: adds_def settled_def pager_ok_def)
  moreover have "snd b (l, nk) = pg_node_cids p (l, nk)" for l nk
  proof -
    have sb: "snd b (l, nk) = (if nodes_under (?d - 1) 0 l (unat nk) \<and> kids e ?k ?P l (unat nk) \<noteq> [] then node_cid e ?k (kids e ?k ?P l (unat nk)) else None)"
      using b(2) by (simp add: adds_def)
    show ?thesis
    proof (cases "l < ?d")
      case True
      have "pg_node_cids p (l, nk) = node_cid e ?k (kids e ?k ?P l (unat nk))" using settled_node [OF assms(2) True, of nk] by (simp add: node_ok_def Let_def)
      then show ?thesis using sb settled_outside [OF assms(2) True, of nk] by (auto simp: node_cid_def)
    next
      case False
      then have "pg_node_cids p (l, nk) = None" using assms(2) by (simp add: settled_def pager_ok_def index_ok_def)
      moreover have "\<not> l \<le> ?d - 1" using False root(1) by linarith
      ultimately show ?thesis using sb by (simp add: nodes_under_def)
    qed
  qed
  then have "snd b = pg_node_cids p" by (auto simp: fun_eq_iff)
  ultimately have "b = (pg_pages p, pg_node_cids p)" by (simp add: prod_eq_iff)
  then show ?thesis using b(1) c by simp
qed

lemma commit_settled:
  assumes "pager_ok e p" "commit e p = (root, p')" "\<not> os_clash (pg_store p')"
  shows "settled e p'"
  using commit_ok(1) [OF assms] commit_effect(4-7) [OF assms] by (simp add: settled_def)

lemma open_settled:
  assumes "codec_laws e" "settled e p" "(\<exists>n. bt_get (pg_pages p) n \<noteq> None) \<or> pg_page_count p = 0"
    and "\<And>c b. os_get (pg_store p) c = Some b \<Longrightarrow> os_get st c = Some b"
    and "os_get st root = Some (root_enc e (root_of e (pg_cipher p) (page_map (pg_pages p)) (pg_page_count p) (pg_wrapped_dek p)))"
  shows "pager_open e st root (pg_cipher p) = Inr (p\<lparr>pg_store := st, pg_remote := None\<rparr>)"
proof -
  let ?ri = "root_of e (pg_cipher p) (page_map (pg_pages p)) (pg_page_count p) (pg_wrapped_dek p)"
  have depth: "ri_depth ?ri = pg_depth p" using assms(2) by (simp add: root_of_def Let_def settled_def)
  have dec: "decode_root e (root_enc e ?ri) = Inr ?ri" using assms(1) by (simp add: decode_root_def codec_laws_def)
  have "(if ri_depth ?ri > 0 then load_subtree (unat (ri_depth ?ri) - 1) e st (pg_cipher p) 0 (ri_root_cid ?ri) ([], Map.empty) else Inr ([], Map.empty))
      = Inr (pg_pages p, pg_node_cids p)"
  proof (cases "pg_page_count p = 0")
    case True
    then have d: "pg_depth p = 0" using assms(2) by (simp add: settled_def depth_for_def)
    have "bt_get (pg_pages p) n = bt_get [] n" for n using assms(2) True by (auto simp: settled_def pager_ok_def)
    then have "pg_pages p = []" using assms(2) by (intro bt_ext) (simp_all add: settled_def pager_ok_def)
    moreover have "pg_node_cids p = Map.empty" using assms(2) d by (auto simp: fun_eq_iff settled_def pager_ok_def index_ok_def)
    ultimately show ?thesis using d depth by simp
  next
    case False
    then obtain n where n: "bt_get (pg_pages p) n \<noteq> None" using assms(3) by blast
    have d: "0 < pg_depth p" using settled_root(1) [OF assms(2) n] by (simp add: word_less_nat_alt)
    then have "pg_depth p \<noteq> 0" by auto
    moreover from load_all [OF assms(1,2) n assms(4)] obtain c
      where "node_cid e (pg_cipher p) (kids e (pg_cipher p) (page_map (pg_pages p)) (unat (pg_depth p) - 1) 0) = Some c"
        "load_subtree (unat (pg_depth p) - 1) e st (pg_cipher p) 0 c ([], Map.empty) = Inr (pg_pages p, pg_node_cids p)" by blast
    ultimately show ?thesis using assms(2) depth d by (simp add: root_of_def Let_def settled_def)
  qed
  note ld = this
  have f: "ri_page_count ?ri = pg_page_count p" "ri_wrapped_dek ?ri = pg_wrapped_dek p" by (simp_all add: root_of_def Let_def)
  have "pager_open e st root (pg_cipher p) = Inr \<lparr>pg_store = st, pg_pages = pg_pages p, pg_dirty = [], pg_dirty_index = [], pg_node_cids = pg_node_cids p,
      pg_page_count = pg_page_count p, pg_depth = pg_depth p, pg_remote = None, pg_cipher = pg_cipher p, pg_wrapped_dek = pg_wrapped_dek p\<rparr>"
    by (simp only: pager_open_def assms(5) option.case dec sum.case ld [unfolded depth] prod.case f depth)
  then show ?thesis using assms(2) by (cases p) (simp add: settled_def)
qed

lemma page_after_commit:
  assumes "codec_laws e" "pager_ok e p" "commit e p = (root, p')" "\<not> os_clash (pg_store p')" "\<And>c b. os_get (pg_store p') c = Some b \<Longrightarrow> os_get st c = Some b"
  shows "page e (p'\<lparr>pg_store := st, pg_remote := rem\<rparr>) n = page e p n"
proof -
  note ce = commit_effect [OF assms(2-4)] and ok = commit_ok [OF assms(2-4)]
  show ?thesis
  proof (cases "bt_get (pg_dirty p) n")
    case None
    show ?thesis
    proof (cases "bt_get (pg_pages p) n")
      case (Some c)
      then obtain b where b: "os_get (pg_store p) c = Some b" using assms(2) unfolding pager_ok_def all_local_def by blast
      then have "os_get st c = Some b" using assms(5) store_grows_get [OF ce(3) assms(4)] by blast
      then show ?thesis using None Some b ok(2) [of n] by (simp add: page_def read_page_def pager_object_def ce(4,9))
    qed (use None ok(2) [of n] in \<open>simp add: page_def read_page_def ce(4)\<close>)
  next
    case (Some d)
    then show ?thesis using ok(2) [of n] assms(5) [OF ok(3) [OF Some]] open_seal_page [OF assms(1)]
      by (simp add: page_def read_page_def pager_object_def ce(4,9))
  qed
qed

section \<open>Histories\<close>

lemma node_ok_cong:
  "pg_pages p' = pg_pages p \<Longrightarrow> pg_cipher p' = pg_cipher p \<Longrightarrow> pg_node_cids p' = pg_node_cids p \<Longrightarrow> pg_store p' = pg_store p \<Longrightarrow> node_ok e p' l nk = node_ok e p l nk"
  by (simp add: node_ok_def)

lemma touched_mono: "touched C l nk \<Longrightarrow> C \<subseteq> C' \<Longrightarrow> touched C' l nk"
  by (auto simp: touched_def)

lemma index_ok_mono:
  assumes "index_ok e p" "\<And>l nk. \<not> touched (set (pg_dirty_index p')) l nk \<Longrightarrow> node_ok e p l nk \<Longrightarrow> node_ok e p' l nk"
    and "pg_depth p' = pg_depth p" "pg_node_cids p' = pg_node_cids p" "set (pg_dirty_index p) \<subseteq> set (pg_dirty_index p')"
  shows "index_ok e p'"
proof -
  have "node_ok e p' l nk" if "l < unat (pg_depth p')" "\<not> touched (set (pg_dirty_index p')) l nk" for l nk
  proof (rule assms(2) [OF that(2)])
    have "\<not> touched (set (pg_dirty_index p)) l nk" using touched_mono [OF _ assms(5)] that(2) by blast
    then show "node_ok e p l nk" using assms(1) that(1) by (simp add: index_ok_def assms(3))
  qed
  then show ?thesis using assms(1,3,4) by (simp add: index_ok_def)
qed

lemma pager_ok_create: "\<not> os_clash st \<Longrightarrow> pager_ok e ((pager_create st)\<lparr>pg_cipher := k, pg_wrapped_dek := w\<rparr>)"
  by (simp add: pager_ok_def pager_create_def index_ok_def all_local_def)

lemma write_effect:
  assumes "write_page n d p = Some p'"
  shows "pg_pages p' = pg_pages p" "pg_dirty p' = bt_insert n d (pg_dirty p)" "set (pg_dirty_index p') = insert n (set (pg_dirty_index p))"
    "pg_store p' = pg_store p" "pg_node_cids p' = pg_node_cids p" "pg_depth p' = pg_depth p" "pg_cipher p' = pg_cipher p" "pg_wrapped_dek p' = pg_wrapped_dek p"
    "pg_remote p' = pg_remote p" "n < pg_page_count p'" "pg_page_count p \<le> pg_page_count p'"
proof -
  obtain m where m: "checked_add n 1 = Some m" "p' = p\<lparr>pg_dirty := bt_insert n d (pg_dirty p), pg_dirty_index := insort_insert n (pg_dirty_index p),
     pg_page_count := (if m > pg_page_count p then m else pg_page_count p)\<rparr>" using assms by (auto simp: write_page_def)
  have "n < m" using m(1) by (simp add: u_simps word_less_nat_alt)
  then show "n < pg_page_count p'" "pg_page_count p \<le> pg_page_count p'" by (auto simp: m(2))
qed (use assms in \<open>auto simp: write_page_def set_insort_insert\<close>)

lemma pager_ok_write:
  assumes "pager_ok e p" "write_page n d p = Some p'"
  shows "pager_ok e p'"
proof -
  note w = write_effect [OF assms(2)]
  have ok: "index_ok e p" "bt_inv (pg_dirty p)" using assms(1) by (simp_all add: pager_ok_def)
  have node: "node_ok e p' l nk = node_ok e p l nk" for l nk by (rule node_ok_cong) (simp_all add: w)
  have "index_ok e p'" by (rule index_ok_mono [OF ok(1)]) (auto simp: w(3,5,6) node)
  moreover have "x < pg_page_count p'" if "bt_get (pg_pages p') x \<noteq> None \<or> bt_get (pg_dirty p') x \<noteq> None" for x
    using that w(10,11) ok(2) assms(1) by (cases "x = n") (auto simp: w(1,2) pager_ok_def intro: less_le_trans)
  moreover have "x \<in> set (pg_dirty_index p')" if "bt_get (pg_dirty p') x \<noteq> None" for x
    using that ok(2) assms(1) by (cases "x = n") (auto simp: w(2,3) pager_ok_def)
  moreover have "all_local p'" using assms(1) by (simp add: pager_ok_def all_local_def w(1,4))
  ultimately show ?thesis using assms(1) by (simp add: pager_ok_def w(1,2,4))
qed

lemma truncate_fold:
  fixes p :: pager and ns :: "u32 list"
  defines "p' \<equiv> fold (\<lambda>n p. p\<lparr>pg_pages := bt_remove n (pg_pages p), pg_dirty_index := insort_insert n (pg_dirty_index p)\<rparr>) ns p"
  shows "(\<forall>n. bt_get (pg_pages p') n = (if n \<in> set ns then None else bt_get (pg_pages p) n)) \<and> (bt_inv (pg_pages p) \<longrightarrow> bt_inv (pg_pages p'))
    \<and> set (pg_dirty_index p') = set ns \<union> set (pg_dirty_index p) \<and> pg_dirty p' = pg_dirty p \<and> pg_store p' = pg_store p \<and> pg_node_cids p' = pg_node_cids p
    \<and> pg_depth p' = pg_depth p \<and> pg_cipher p' = pg_cipher p \<and> pg_wrapped_dek p' = pg_wrapped_dek p \<and> pg_remote p' = pg_remote p"
  unfolding p'_def by (induction ns arbitrary: p) (simp_all add: set_insort_insert)

lemma truncate_effect:
  fixes p :: pager and m :: u32
  defines "p' \<equiv> set_page_count m p"
  shows "\<And>n. bt_get (pg_pages p') n = (if m \<le> n then None else bt_get (pg_pages p) n)" "bt_inv (pg_pages p) \<Longrightarrow> bt_inv (pg_pages p')"
    "set (pg_dirty_index p') = {n. m \<le> n \<and> bt_get (pg_pages p) n \<noteq> None} \<union> set (pg_dirty_index p)" "pg_dirty p' = filter (\<lambda>(n, d). n < m) (pg_dirty p)"
    "pg_store p' = pg_store p" "pg_node_cids p' = pg_node_cids p" "pg_depth p' = pg_depth p" "pg_cipher p' = pg_cipher p" "pg_wrapped_dek p' = pg_wrapped_dek p"
    "pg_remote p' = pg_remote p" "pg_page_count p' = m"
proof -
  let ?ns = "filter (\<lambda>n. n \<ge> m) (map fst (pg_pages p))"
  note f = truncate_fold [of ?ns p]
  have drop: "n \<in> set ?ns \<longleftrightarrow> m \<le> n \<and> bt_get (pg_pages p) n \<noteq> None" for n using bt_get_None_iff [of "pg_pages p" n] by auto
  show "bt_get (pg_pages p') n = (if m \<le> n then None else bt_get (pg_pages p) n)" for n
    using f drop [of n] by (auto simp: p'_def set_page_count_def Let_def)
  show "set (pg_dirty_index p') = {n. m \<le> n \<and> bt_get (pg_pages p) n \<noteq> None} \<union> set (pg_dirty_index p)"
    using f drop by (auto simp: p'_def set_page_count_def Let_def)
qed (use truncate_fold [of "filter (\<lambda>n. n \<ge> m) (map fst (pg_pages p))" p] in \<open>simp_all add: p'_def set_page_count_def Let_def\<close>)

lemma filter_get: "bt_inv m \<Longrightarrow> bt_get (filter (\<lambda>(n, d). Q n) m) n = (if Q n then bt_get m n else None)"
  by (induction m) (auto simp: bt_get_None_iff)

lemma pager_ok_truncate:
  assumes "pager_ok e p"
  shows "pager_ok e (set_page_count m p)"
proof -
  note t = truncate_effect [where p = p and m = m]
  let ?p = "set_page_count m p"
  have same: "bt_get (pg_pages ?p) n = bt_get (pg_pages p) n" if "n \<notin> set (pg_dirty_index ?p)" for n
    using that unfolding t(1,3) by (cases "bt_get (pg_pages p) n") auto
  have node: "node_ok e ?p l nk" if "\<not> touched (set (pg_dirty_index ?p)) l nk" "node_ok e p l nk" for l nk
    using that(2) untouched_kids [OF that(1) same, where e = e and k = "pg_cipher p"] by (simp add: node_ok_def Let_def t(5,6,8))
  have "index_ok e p" using assms by (simp add: pager_ok_def)
  then have "index_ok e ?p" by (rule index_ok_mono) (auto simp: t(3,6,7) intro: node)
  then show ?thesis using assms by (auto simp: pager_ok_def t(1,2,4,5,11) bt_inv_filter filter_get all_local_def) (auto simp: t(3))
qed

end
