(* ===== verification/Pager_History.thy ===== *)
theory Pager_History
  imports Pager_Open
begin

text \<open>
  Histories of a database pager (\<open>src/crates/sql/src/pager.rs\<close>): pages are written and cut off, commits give
  roots, and any root committed so far may be opened again. Every root stays readable, whatever follows; a
  root is a function of the pages alone; and what the code does when a commit has no page, or a source
  returns other bytes than were asked for.
\<close>

section \<open>Histories\<close>

text \<open>A commit of a pager leads to a root that opens unless the pager counts pages and has none.\<close>

definition openable :: "pager \<Rightarrow> bool" where
  "openable p \<longleftrightarrow> pg_page_count p = 0 \<or> pg_dirty p \<noteq> [] \<or> pg_pages p \<noteq> []"

text \<open>The history lists every root with the pager it was committed from. A root that opens may be opened again.\<close>

inductive pager_run :: "pager_env \<Rightarrow> dek option \<Rightarrow> bytes \<Rightarrow> pager \<Rightarrow> (bytes32 \<times> pager) list \<Rightarrow> bool" for e k w where
  run_start: "\<not> os_clash st \<Longrightarrow> pager_run e k w ((pager_create st)\<lparr>pg_cipher := k, pg_wrapped_dek := w\<rparr>) []"
| run_write: "pager_run e k w p h \<Longrightarrow> write_page n d p = Some p' \<Longrightarrow> pager_run e k w p' h"
| run_truncate: "pager_run e k w p h \<Longrightarrow> pager_run e k w (set_page_count m p) h"
| run_commit: "pager_run e k w p h \<Longrightarrow> commit e p = (root, p') \<Longrightarrow> pager_run e k w p' ((root, p) # h)"
| run_reopen: "pager_run e k w p h \<Longrightarrow> (root, p0) \<in> set h \<Longrightarrow> openable p0 \<Longrightarrow> pager_open e (pg_store p) root k = Inr p' \<Longrightarrow> pager_run e k w p' h"

text \<open>What is known of a root in the history, in every store that holds what is stored now: it opens to a pager in order with the
  pages of the commit; or, when the commit counted pages and had none, it does not open unless an object has the zero address.\<close>

definition restores :: "pager_env \<Rightarrow> dek option \<Rightarrow> bytes \<Rightarrow> object_store \<Rightarrow> bytes32 \<Rightarrow> pager \<Rightarrow> bool" where
  "restores e k w st root p \<longleftrightarrow> (\<forall>st'. (\<forall>c b. os_get st c = Some b \<longrightarrow> os_get st' c = Some b) \<longrightarrow>
     (if openable p
      then \<exists>q. pager_open e st' root k = Inr q \<and> pg_store q = st' \<and> pg_cipher q = k \<and> pg_wrapped_dek q = w
        \<and> pg_page_count q = pg_page_count p \<and> page e q = page e p \<and> all_local q \<and> (\<not> os_clash st' \<longrightarrow> pager_ok e q)
      else os_get st' 0 = None \<longrightarrow> pager_open e st' root k = Inl CorruptIndex))"

lemma restores_grows: "restores e k w st root p \<Longrightarrow> store_grows st st' \<Longrightarrow> \<not> os_clash st' \<Longrightarrow> restores e k w st' root p"
  unfolding restores_def store_grows_def by blast

lemma openable_commit:
  assumes "pager_ok e p" "commit e p = (root, p')" "\<not> os_clash (pg_store p')"
  shows "openable p \<longleftrightarrow> (\<exists>n. bt_get (pg_pages p') n \<noteq> None) \<or> pg_page_count p = 0"
proof -
  have some: "m \<noteq> [] \<longleftrightarrow> (\<exists>n. bt_get m n \<noteq> None)" for m :: "(u32, 'v) btree" by (cases m) (auto simp: bt_get_def)
  have "(\<exists>n. bt_get (pg_pages p') n \<noteq> None) \<longleftrightarrow> (\<exists>n. bt_get (pg_dirty p) n \<noteq> None) \<or> (\<exists>n. bt_get (pg_pages p) n \<noteq> None)"
  proof -
    have "bt_get (pg_pages p') n \<noteq> None \<longleftrightarrow> bt_get (pg_dirty p) n \<noteq> None \<or> bt_get (pg_pages p) n \<noteq> None" for n
      by (simp add: commit_ok(2) [OF assms] split: option.split)
    then show ?thesis by blast
  qed
  then show ?thesis using some [of "pg_dirty p"] some [of "pg_pages p"] by (auto simp: openable_def)
qed

lemma commit_corrupt:
  assumes "codec_laws e" "pager_ok e p" "commit e p = (root, p')" "\<not> os_clash (pg_store p')" "\<not> openable p"
    and "\<forall>c b. os_get (pg_store p') c = Some b \<longrightarrow> os_get st c = Some b" "os_get st 0 = None"
  shows "pager_open e st root (pg_cipher p) = Inl CorruptIndex"
proof -
  let ?k = "pg_cipher p" and ?m = "pg_page_count p" and ?pages = "page_map (pg_pages p')"
  have m: "0 < ?m" using assms(5) word_gt_0 by (auto simp: openable_def)
  have none: "?pages n = None" for n using openable_commit [OF assms(2-4)] assms(5) by (simp add: page_map_def)
  have d: "0 < depth_for ?m" using m depth_for_bounds(3) [of ?m] word_gt_0 by metis
  have "kids e ?k ?pages l 0 = []" for l by (simp add: kids_Nil none)
  then have ri: "root_of e ?k ?pages ?m w = \<lparr>ri_page_count = ?m, ri_depth = depth_for ?m, ri_root_cid = 0, ri_wrapped_dek = w\<rparr>" for w
    by (simp add: root_of_def Let_def node_cid_def)
  have "load_subtree l e st ?k 0 0 a = Inl CorruptIndex" for l a using assms(7) by (cases l) (simp_all add: read_node_def)
  then show ?thesis using assms(1) d commit_effect(2) [OF assms(2-4)] assms(6) by (simp add: pager_open_def ri decode_root_def codec_laws_def)
qed

lemma node_ok_store:
  "node_ok e p l nk \<Longrightarrow> (\<And>c b. os_get (pg_store p) c = Some b \<Longrightarrow> os_get st c = Some b) \<Longrightarrow> node_ok e (p\<lparr>pg_store := st, pg_remote := r\<rparr>) l nk"
  by (auto simp: node_ok_def Let_def stored_def)

lemma commit_restores:
  assumes "codec_laws e" "pager_ok e p" "commit e p = (root, p')" "\<not> os_clash (pg_store p')"
  shows "restores e (pg_cipher p) (pg_wrapped_dek p) (pg_store p') root p"
  unfolding restores_def
proof (intro allI impI)
  fix st assume st: "\<forall>c b. os_get (pg_store p') c = Some b \<longrightarrow> os_get st c = Some b"
  note ce = commit_effect [OF assms(2-4)] and s = commit_settled [OF assms(2-4)]
  have ok: "pager_ok e p'" using s by (simp add: settled_def)
  let ?q = "p'\<lparr>pg_store := st, pg_remote := None\<rparr>"
  have "pager_open e st root (pg_cipher p') = Inr ?q" if "openable p"
    using that openable_commit [OF assms(2-4)] st ce(2) by (intro open_settled [OF assms(1) s]) (auto simp: ce(6,9,10))
  moreover have "page e ?q = page e p" using page_after_commit [OF assms(1-4)] st by (simp add: fun_eq_iff)
  moreover have local: "all_local ?q" using ok st by (fastforce simp: pager_ok_def all_local_def)
  moreover have "pager_ok e ?q" if "\<not> os_clash st"
    using ok that local node_ok_store [of e p' _ _ st None] st by (simp add: pager_ok_def index_ok_def)
  moreover have "pager_open e st root (pg_cipher p) = Inl CorruptIndex" if "\<not> openable p" "os_get st 0 = None"
    using commit_corrupt [OF assms that(1) st that(2)] .
  ultimately show "if openable p
      then \<exists>q. pager_open e st root (pg_cipher p) = Inr q \<and> pg_store q = st \<and> pg_cipher q = pg_cipher p \<and> pg_wrapped_dek q = pg_wrapped_dek p
        \<and> pg_page_count q = pg_page_count p \<and> page e q = page e p \<and> all_local q \<and> (\<not> os_clash st \<longrightarrow> pager_ok e q)
      else os_get st 0 = None \<longrightarrow> pager_open e st root (pg_cipher p) = Inl CorruptIndex"
    using ce(6,9,10) by auto
qed

lemma flush_grows: "store_grows (pg_store p) (pg_store (fold (flush_page e) ds p))"
proof (induction ds arbitrary: p)
  case (Cons x ds)
  have "store_grows (pg_store p) (pg_store (flush_page e x p))" by (simp add: flush_page_def case_prod_beta put_grows)
  then show ?case using Cons [of "flush_page e x p"] by (auto intro: store_grows_trans)
qed simp

lemma commit_grows: "store_grows (pg_store p) (pg_store (snd (commit e p)))"
proof -
  obtain changed p2 where r: "regrown (flushed e p) = (changed, p2)" by (cases "regrown (flushed e p)")
  have "store_grows (pg_store p) (pg_store p2)" using flush_grows [of "p\<lparr>pg_dirty := []\<rparr>" e "pg_dirty p"] r by (auto simp: regrown_def flushed_def split: if_splits)
  moreover have "store_grows (pg_store p2) (pg_store (rebuild e changed (p2\<lparr>pg_dirty_index := []\<rparr>)))"
    using rebuild_levels_same [of "p2\<lparr>pg_dirty_index := []\<rparr>"] by (simp add: rebuild_def same_pages_def)
  ultimately show ?thesis unfolding commit_unfold [OF r] using put_grows by (auto intro: store_grows_trans)
qed

lemma open_store: "pager_open e st root k = Inr p \<Longrightarrow> pg_store p = st"
  by (auto simp: pager_open_def split: option.splits sum.splits)

lemma pager_run_ok:
  assumes "pager_run e k w p h" "codec_laws e" "\<not> os_clash (pg_store p)"
  shows "pager_ok e p \<and> pg_cipher p = k \<and> pg_wrapped_dek p = w \<and> (\<forall>(root, p0) \<in> set h. restores e k w (pg_store p) root p0)"
  using assms(1,3)
proof (induction rule: pager_run.induct)
  case (run_start st)
  then show ?case using pager_ok_create [OF run_start(1)] by simp
next
  case (run_write p h n d p')
  note w = write_effect [OF run_write.hyps(2)]
  show ?case using run_write.IH run_write.prems pager_ok_write [OF _ run_write.hyps(2)] by (simp add: w)
next
  case (run_truncate p h m)
  note t = truncate_effect [where p = p and m = m]
  show ?case using run_truncate.IH run_truncate.prems pager_ok_truncate [of e p m] by (simp add: t(5,8,9))
next
  case (run_commit p h root p')
  have g: "store_grows (pg_store p) (pg_store p')" using commit_grows [of p e] run_commit.hyps(2) by simp
  then have nc: "\<not> os_clash (pg_store p)" using run_commit.prems by (auto simp: store_grows_def)
  note IH = run_commit.IH [OF nc]
  note ok = conjunct1 [OF IH]
  have "restores e k w (pg_store p') root p"
    using commit_restores [OF assms(2) ok run_commit.hyps(2) run_commit.prems] IH by simp
  moreover have "restores e k w (pg_store p') r q" if "(r, q) \<in> set h" for r q
    using IH that restores_grows [OF _ g run_commit.prems] by blast
  ultimately show ?case using IH commit_ok(1) [OF ok run_commit.hyps(2) run_commit.prems] commit_effect(9,10) [OF ok run_commit.hyps(2) run_commit.prems] by auto
next
  case (run_reopen p h root p0 p')
  have st: "pg_store p' = pg_store p" using open_store [OF run_reopen.hyps(4)] .
  then have nc: "\<not> os_clash (pg_store p)" using run_reopen.prems by simp
  note IH = run_reopen.IH [OF nc]
  have "restores e k w (pg_store p) root p0" using IH run_reopen.hyps(2) by blast
  then obtain q where "pager_open e (pg_store p) root k = Inr q" "pg_cipher q = k" "pg_wrapped_dek q = w" "pager_ok e q"
    using nc run_reopen.hyps(3) by (auto simp: restores_def)
  then show ?case using IH st run_reopen.hyps(4) by simp
qed

lemma history_local:
  assumes "pager_run e k w p h" "codec_laws e" "\<not> os_clash (pg_store p)" "(root, p0) \<in> set h"
  shows "all_local p0"
  using assms(1,3,4)
proof (induction rule: pager_run.induct)
  case (run_commit p h r p')
  have "store_grows (pg_store p) (pg_store p')" using commit_grows [of p e] run_commit.hyps(2) by simp
  then have nc: "\<not> os_clash (pg_store p)" using run_commit.prems by (auto simp: store_grows_def)
  show ?case using run_commit.IH [OF nc] run_commit.prems(2) pager_run_ok [OF run_commit.hyps(1) assms(2) nc] by (auto simp: pager_ok_def split: if_splits)
qed (auto simp: write_effect truncate_effect(5) dest: open_store)

lemma pager_run_local: "pager_run e k w p h \<Longrightarrow> codec_laws e \<Longrightarrow> \<not> os_clash (pg_store p) \<Longrightarrow> all_local p"
  using pager_run_ok by (fastforce simp: pager_ok_def)

text \<open>A write at a byte offset is a sequence of page writes.\<close>

lemma write_at_run:
  "pager_run e k w p h \<Longrightarrow> codec_laws e \<Longrightarrow> \<not> os_clash (pg_store p) \<Longrightarrow> write_at e buf pos p = Some p' \<Longrightarrow> pager_run e k w p' h"
proof (induction "length buf" arbitrary: buf pos p rule: less_induct)
  case less
  show ?case
  proof (cases "buf = []")
    case True
    then show ?thesis using less.prems by (simp add: write_at.simps)
  next
    case False
    let ?w = "pos mod PAGE_SIZE" let ?n = "min (PAGE_SIZE - ?w) (length buf)" let ?pg = "of_nat (pos div PAGE_SIZE) :: u32"
    have n: "0 < ?n" using False by simp
    have r: "read_page e ?pg p = (page e p ?pg, p)" using read_page_local [OF pager_run_local [OF less.prems(1-3)]] by (simp add: page_def)
    from less.prems(4) False obtain p2 where p2: "write_page ?pg (take ?w (page e p ?pg) @ take ?n buf @ drop (?w + ?n) (page e p ?pg)) p = Some p2"
        "write_at e (drop ?n buf) (pos + ?n) p2 = Some p'"
      by (subst (asm) write_at.simps) (auto simp: r Let_def split: option.splits)
    have "length (drop ?n buf) < length buf" using n False by simp
    moreover have "\<not> os_clash (pg_store p2)" using less.prems(3) by (simp add: write_effect [OF p2(1)])
    ultimately show ?thesis using less.hyps run_write [OF less.prems(1) p2(1)] less.prems(2) p2(2) by blast
  qed
qed

text \<open>The address the content of a page has, or will have once it is flushed.\<close>

definition page_cid :: "pager_env \<Rightarrow> pager \<Rightarrow> u32 \<Rightarrow> bytes32 option" where
  "page_cid e p n = (case bt_get (pg_dirty p) n of Some d \<Rightarrow> Some (pe_hash e (seal_index e (pg_cipher p) d)) | None \<Rightarrow> bt_get (pg_pages p) n)"

section \<open>The properties\<close>

text \<open>(C40) A database file is an array of bytes: with its objects at hand, a write at an offset succeeds below the last page number, and
  whatever range is read after it holds the written bytes where the ranges meet, and elsewhere what the same read gave before.\<close>

theorem read_write_at:
  assumes "all_local p" "pos + length buf \<le> (2 ^ 32 - 1) * PAGE_SIZE"
  shows "\<exists>p'. write_at e buf pos p = Some p' \<and> (\<forall>at len. at + len \<le> 2 ^ 32 * PAGE_SIZE \<longrightarrow> fst (read_at e len at p')
    = map (\<lambda>i. if pos \<le> i \<and> i < pos + length buf then buf ! (i - pos) else fst (read_at e len at p) ! (i - at)) [at..<at + len])"
proof -
  from write_at_bytes [OF assms, of e] obtain p' where p': "write_at e buf pos p = Some p'" "all_local p'"
    "\<forall>q < 2 ^ 32 * PAGE_SIZE. byte e p' q = (if pos \<le> q \<and> q < pos + length buf then buf ! (q - pos) else byte e p q)" by blast
  have "fst (read_at e len at p') = map (\<lambda>i. if pos \<le> i \<and> i < pos + length buf then buf ! (i - pos) else fst (read_at e len at p) ! (i - at)) [at..<at + len]"
    if "at + len \<le> 2 ^ 32 * PAGE_SIZE" for at len
    using p'(3) that by (auto simp: read_at_bytes [OF assms(1)] read_at_bytes [OF p'(2)])
  then show ?thesis using p'(1) by blast
qed

text \<open>(C17) Every commit is a snapshot for good, with one exception. Whatever is written, cut off, committed or reopened after it, and
  whatever else is added to the store, the root of every commit made along the history opens, to the page count of the commit, and every
  range reads as it did when the commit was made; the exception is a commit that counts pages and has none, as after extending an
  empty file: its root stops with a corrupt index, unless an object has the zero address. The serialisation round-trips, and no two
  stored objects share an address.\<close>

theorem snapshots_persist:
  assumes "codec_laws e" "pager_run e k w p h" "\<not> os_clash (pg_store p)" "(root, p0) \<in> set h"
    and "\<forall>c b. os_get (pg_store p) c = Some b \<longrightarrow> os_get st c = Some b"
  shows "if openable p0
    then \<exists>q. pager_open e st root k = Inr q \<and> pg_page_count q = pg_page_count p0 \<and> pg_wrapped_dek q = w
      \<and> (\<forall>len pos. fst (read_at e len pos q) = fst (read_at e len pos p0))
    else os_get st 0 = None \<longrightarrow> pager_open e st root k = Inl CorruptIndex"
proof -
  have r: "restores e k w (pg_store p) root p0" using pager_run_ok [OF assms(2,1,3)] assms(4) by blast
  show ?thesis
  proof (cases "openable p0")
    case True
    then obtain q where q: "pager_open e st root k = Inr q" "pg_page_count q = pg_page_count p0" "pg_wrapped_dek q = w"
      "page e q = page e p0" "all_local q" using r assms(5) unfolding restores_def by metis
    have "all_local p0" using history_local [OF assms(2,1,3,4)] .
    then show ?thesis using q True by (auto simp: read_at_bytes byte_def [abs_def])
  next
    case False
    then show ?thesis using r assms(5) unfolding restores_def by simp
  qed
qed

text \<open>(C18) A root is canonical: two pagers with any histories behind them whose pages have the same content, and with one page count, key
  and wrapped key, commit to the same root: rebuilding only the touched paths of the index gives what building it anew would.\<close>

theorem commit_canonical:
  assumes "codec_laws e" "pager_run e k w p h" "pager_run e k w q h'" "commit e p = (root, p')" "commit e q = (root', q')"
    and "\<not> os_clash (pg_store p')" "\<not> os_clash (pg_store q')" "page_cid e p = page_cid e q" "pg_page_count p = pg_page_count q"
  shows "root = root'"
proof -
  have nc: "\<not> os_clash (pg_store p)" "\<not> os_clash (pg_store q)"
    using commit_grows [of p e] commit_grows [of q e] assms(4-7) by (auto simp: store_grows_def)
  note p = pager_run_ok [OF assms(2,1) nc(1)] and q = pager_run_ok [OF assms(3,1) nc(2)]
  note cp = commit_ok [OF _ assms(4,6)] and cq = commit_ok [OF _ assms(5,7)]
  have "bt_get (pg_pages p') n = bt_get (pg_pages q') n" for n
    using cp(2) cq(2) p q fun_cong [OF assms(8), of n] by (simp add: page_cid_def)
  moreover have "bt_inv (pg_pages p')" "bt_inv (pg_pages q')" using cp(1) cq(1) p q by (auto simp: pager_ok_def)
  ultimately have "pg_pages p' = pg_pages q'" by (intro bt_ext)
  then show ?thesis using commit_effect(1) [OF _ assms(4,6)] commit_effect(1) [OF _ assms(5,7)] p q assms(9) by simp
qed

text \<open>A commit that counts pages and has none, as after extending an empty file, gives a root that cannot be opened: its index names
  the zero address, and opening stops with a corrupt index unless an object of that address exists.\<close>

theorem sparse_commit_unopenable:
  assumes "codec_laws e" "\<not> os_clash st" "0 < m" "commit e (set_page_count m (pager_create st)) = (root, p')" "\<not> os_clash (pg_store p')" "os_get (pg_store p') 0 = None"
  shows "pager_open e (pg_store p') root None = Inl CorruptIndex"
proof -
  let ?p = "set_page_count m (pager_create st)"
  have ok: "pager_ok e ?p" using pager_ok_truncate [OF pager_ok_create [OF assms(2), where k = None and w = "[]"], where e = e and m = m] by (simp add: pager_create_def)
  have f: "pg_pages ?p = []" "pg_dirty ?p = []" "pg_page_count ?p = m" "pg_cipher ?p = None" by (simp_all add: set_page_count_def pager_create_def)
  then have "\<not> openable ?p" using assms(3) by (auto simp: openable_def)
  from commit_corrupt [OF assms(1) ok assms(4,5) this _ assms(6)] show ?thesis by (simp add: f)
qed

text \<open>A page read on demand is whatever the source returns: bytes that hash to another address than the index names are taken as the
  page and filed under their own address, in an encrypted database too when they do not open under its key.\<close>

theorem lazy_read_unverified:
  assumes "bt_get (pg_dirty p) n = None" "bt_get (pg_pages p) n = Some c" "os_get (pg_store p) c = None" "pg_remote p = Some f" "f c = Some b" "pe_hash e b \<noteq> c"
    and "\<forall>dek. pg_cipher p = Some dek \<longrightarrow> (\<forall>plain. sealed_open (pe_aead e) dek b \<noteq> Inr plain)"
  shows "\<exists>p'. read_page e n p = (pad b, p') \<and> os_get (pg_store p') c = None \<and> (os_get (pg_store p) (pe_hash e b) = None \<longrightarrow> os_get (pg_store p') (pe_hash e b) = Some b)"
proof -
  have "open_page e (pg_cipher p) b = b" using assms(7) by (auto simp: open_page_def split: option.split sum.split)
  then show ?thesis using assms(1-6) by (auto simp: read_page_def pager_object_def os_put_def os_get_def Let_def split: option.splits)
qed

section \<open>A concrete serialisation\<close>

text \<open>A serialisation with the documented laws and a weak hash, for concrete runs: the page count is in unary and the hash is the length.\<close>

definition demo_node_enc :: "node_map \<Rightarrow> bytes" where
  "demo_node_enc m = concat (map (\<lambda>(i, c). i # be_bytes 32 c) m)"

function demo_node_dec :: "bytes \<Rightarrow> node_map option" where
  "demo_node_dec b = (if b = [] then Some [] else if length b < 33 then None
     else map_option ((#) (hd b, of_be_bytes (take 32 (tl b)))) (demo_node_dec (drop 33 b)))"
  by pat_completeness auto
termination by (relation "measure length") auto

declare demo_node_dec.simps [simp del]

definition demo_root_enc :: "root_index \<Rightarrow> bytes" where
  "demo_root_enc r = replicate (unat (ri_page_count r)) 0 @ 1 # ri_depth r # be_bytes 32 (ri_root_cid r) @ ri_wrapped_dek r"

definition demo_root_dec :: "bytes \<Rightarrow> root_index option" where
  "demo_root_dec b = (case dropWhile ((=) 0) b of tag # depth # rest \<Rightarrow>
       Some \<lparr>ri_page_count = of_nat (length (takeWhile ((=) 0) b)), ri_depth = depth, ri_root_cid = of_be_bytes (take 32 rest), ri_wrapped_dek = drop 32 rest\<rparr>
     | _ \<Rightarrow> None)"

definition demo_env :: pager_env where
  "demo_env = \<lparr>pe_hash = (\<lambda>b. of_nat (length b)), node_enc = demo_node_enc, node_dec = demo_node_dec,
     root_enc = demo_root_enc, root_dec = demo_root_dec, pe_aead = plain_aead\<rparr>"

lemma demo_node_codec: "demo_node_dec (demo_node_enc m) = Some m"
proof (induction m)
  case (Cons x m)
  obtain i c where x: "x = (i, c)" by (cases x)
  have "demo_node_enc (x # m) = i # be_bytes 32 c @ demo_node_enc m" by (simp add: demo_node_enc_def x)
  then show ?case using Cons by (subst demo_node_dec.simps) (simp add: x)
qed (simp add: demo_node_enc_def demo_node_dec.simps)

lemma demo_root_codec: "demo_root_dec (demo_root_enc r) = Some r"
  by (simp add: demo_root_dec_def demo_root_enc_def dropWhile_append takeWhile_append)

lemma demo_codec: "codec_laws demo_env"
  by (simp add: codec_laws_def demo_env_def demo_node_codec demo_root_codec plain_aead_laws)

lemma demo_length: "length (demo_node_enc m) = 33 * length m" "length (demo_root_enc r) = unat (ri_page_count r) + 34 + length (ri_wrapped_dek r)"
  by (induction m) (auto simp: demo_node_enc_def demo_root_enc_def)

definition demo_store :: object_store where "demo_store = \<lparr>os_root = [], os_fallback = [], os_clash = False\<rparr>"

definition demo_start :: pager where "demo_start = (pager_create demo_store)\<lparr>pg_cipher := None, pg_wrapped_dek := []\<rparr>"

text \<open>A page is written and committed, then another one.\<close>

definition demo_written :: pager where "demo_written = demo_start\<lparr>pg_dirty := [(0, [7])], pg_dirty_index := [0], pg_page_count := 1\<rparr>"

definition demo_committed :: pager where
  "demo_committed = demo_start\<lparr>pg_store := demo_store\<lparr>os_root := [(1, [7]), (33, demo_node_enc [(0, 1)]),
       (35, demo_root_enc \<lparr>ri_page_count = 1, ri_depth = 1, ri_root_cid = 33, ri_wrapped_dek = []\<rparr>)]\<rparr>,
     pg_pages := [(0, 1)], pg_node_cids := [(0, 0) \<mapsto> 33], pg_page_count := 1, pg_depth := 1\<rparr>"

definition demo_extended :: pager where
  "demo_extended = demo_committed\<lparr>pg_dirty := [(1, [8, 8])], pg_dirty_index := [1], pg_page_count := 2\<rparr>"

definition demo_final :: pager where
  "demo_final = demo_start\<lparr>pg_store := demo_store\<lparr>os_root := [(1, [7]), (2, [8, 8]), (33, demo_node_enc [(0, 1)]),
       (35, demo_root_enc \<lparr>ri_page_count = 1, ri_depth = 1, ri_root_cid = 33, ri_wrapped_dek = []\<rparr>),
       (36, demo_root_enc \<lparr>ri_page_count = 2, ri_depth = 1, ri_root_cid = 66, ri_wrapped_dek = []\<rparr>), (66, demo_node_enc [(0, 1), (1, 2)])]\<rparr>,
     pg_pages := [(0, 1), (1, 2)], pg_node_cids := [(0, 0) \<mapsto> 66], pg_page_count := 2, pg_depth := 1\<rparr>"

text \<open>The same first page after a detour.\<close>

definition demo_detour :: pager where
  "demo_detour = demo_start\<lparr>pg_dirty := [(0, [7])], pg_dirty_index := [0, 1], pg_page_count := 1\<rparr>"

lemma collect_prefix:
  assumes "\<And>i. i < n \<Longrightarrow> f i = Some (g i)" "\<And>i. n \<le> i \<Longrightarrow> i < FANOUT \<Longrightarrow> f i = None" "n \<le> FANOUT"
  shows "collect f = map (\<lambda>i. (of_nat i, g i)) [0..<n]"
proof -
  have "collect f = map (\<lambda>i. (of_nat i, the (f i))) (filter (\<lambda>i. f i \<noteq> None) [0..<FANOUT])"
    unfolding collect_def List.map_filter_def by (induction "[0..<FANOUT]") auto
  moreover have "filter (\<lambda>i. f i \<noteq> None) [0..<FANOUT] = [0..<n]"
  proof -
    have "[0..<FANOUT] = [0..<n] @ [n..<FANOUT]" using assms(3) upt_add_eq_append [of 0 n "FANOUT - n"] by simp
    moreover have "filter (\<lambda>i. f i \<noteq> None) [n..<FANOUT] = []" using assms(2) by (simp add: filter_empty_conv)
    moreover have "filter (\<lambda>i. f i \<noteq> None) [0..<n] = [0..<n]" using assms(1) by (simp add: filter_id_conv)
    ultimately show ?thesis by simp
  qed
  ultimately show ?thesis using assms(1) by simp
qed

lemma child_key_word: "i < FANOUT \<Longrightarrow> child_key 0 i = n \<longleftrightarrow> i = unat n"
  using child_key_eq(1) [of 0 i n] by (auto simp: FANOUT_def)

lemma demo_collect:
  "pg_pages p = [(0, c)] \<Longrightarrow> collect (\<lambda>i. child_cid p 0 (child_key 0 i)) = [(0, c)]"
  "pg_pages p = [(0, c), (1, d)] \<Longrightarrow> collect (\<lambda>i. child_cid p 0 (child_key 0 i)) = [(0, c), (1, d)]"
proof -
  show "pg_pages p = [(0, c)] \<Longrightarrow> collect (\<lambda>i. child_cid p 0 (child_key 0 i)) = [(0, c)]"
    by (subst collect_prefix [of 1 _ "\<lambda>_. c"]) (auto simp: child_cid_def bt_get_def child_key_word FANOUT_def)
  show "pg_pages p = [(0, c), (1, d)] \<Longrightarrow> collect (\<lambda>i. child_cid p 0 (child_key 0 i)) = [(0, c), (1, d)]"
    by (subst collect_prefix [of 2 _ "\<lambda>i. if i = 0 then c else d"]) (auto simp: child_cid_def bt_get_def child_key_word FANOUT_def upt_rec)
qed

lemma depth_1: "depth_for 1 = 1" "depth_for 2 = 1" by (simp_all add: depth_for_def FANOUT_def depth_loop.simps)

lemma put_fresh:
  "bt_get (os_root st) (hash d) = None \<Longrightarrow> bt_get (os_fallback st) (hash d) = None \<Longrightarrow> os_put hash d st = (hash d, st\<lparr>os_root := bt_insert (hash d) d (os_root st)\<rparr>)"
  by (simp add: os_put_def os_has_def os_get_def Let_def)

lemma parent_key_0: "parent_key 0 = 0" "parent_key 1 = 0"
  by (simp_all add: parent_key_def FANOUT_def)

lemmas demo_eval = flush_page_def put_fresh demo_env_def Let_def seal_index_def bt_get_def depth_1 rebuild_def btset_of_def parent_key_0
  rebuild_node_def demo_collect demo_length

lemma demo_commit: "commit demo_env demo_written = (35, demo_committed)" "commit demo_env demo_detour = (35, demo_committed)"
  unfolding commit_def demo_written_def demo_detour_def demo_committed_def demo_start_def
  by (simp_all add: demo_eval pager_create_def demo_store_def)

lemma demo_commit_again: "commit demo_env demo_extended = (36, demo_final)"
  unfolding commit_def demo_final_def demo_extended_def demo_committed_def demo_start_def
  by (simp add: demo_eval pager_create_def demo_store_def fun_eq_iff)

lemma demo_run: "pager_run demo_env None [] demo_start []" "pager_run demo_env None [] demo_written []" "pager_run demo_env None [] demo_detour []"
  "pager_run demo_env None [] demo_final [(36, demo_extended), (35, demo_written)]"
proof -
  show start: "pager_run demo_env None [] demo_start []"
    unfolding demo_start_def by (rule run_start) (simp add: demo_store_def)
  have "write_page 0 [7] demo_start = Some demo_written"
    by (simp add: demo_start_def demo_written_def write_page_def checked_add_def pager_create_def insort_insert_key_def)
  then show w: "pager_run demo_env None [] demo_written []" by (rule run_write [OF start])
  let ?d = "demo_start\<lparr>pg_dirty := [(1, [9, 9])], pg_dirty_index := [1], pg_page_count := 2\<rparr>"
  have "write_page 1 [9, 9] demo_start = Some ?d" "write_page 0 [7] ?d = Some (?d\<lparr>pg_dirty := [(0, [7]), (1, [9, 9])], pg_dirty_index := [0, 1]\<rparr>)"
    by (simp_all add: demo_start_def write_page_def checked_add_def pager_create_def insort_insert_key_def)
  then have "pager_run demo_env None [] (?d\<lparr>pg_dirty := [(0, [7]), (1, [9, 9])], pg_dirty_index := [0, 1]\<rparr>) []" using start run_write by blast
  from run_truncate [OF this, of 1] show "pager_run demo_env None [] demo_detour []"
    by (simp add: demo_detour_def set_page_count_def demo_start_def pager_create_def)
  have c: "pager_run demo_env None [] demo_committed [(35, demo_written)]" by (rule run_commit [OF w demo_commit(1)])
  have "write_page 1 [8, 8] demo_committed = Some demo_extended"
    by (simp add: demo_extended_def demo_committed_def demo_start_def write_page_def checked_add_def pager_create_def insort_insert_key_def)
  then have "pager_run demo_env None [] demo_extended [(35, demo_written)]" by (rule run_write [OF c])
  from run_commit [OF this demo_commit_again] show "pager_run demo_env None [] demo_final [(36, demo_extended), (35, demo_written)]" .
qed

theorem snapshots_persist_witness:
  "\<exists>q. pager_open demo_env (pg_store demo_final) 35 None = Inr q \<and> pg_page_count q = 1
    \<and> (\<forall>len pos. fst (read_at demo_env len pos q) = fst (read_at demo_env len pos demo_written))"
proof -
  have "\<not> os_clash (pg_store demo_final)" by (simp add: demo_final_def demo_store_def)
  moreover have "openable demo_written" "pg_page_count demo_written = 1" by (simp_all add: openable_def demo_written_def)
  ultimately show ?thesis using snapshots_persist [OF demo_codec demo_run(4), of 35 demo_written "pg_store demo_final"] by auto
qed

theorem commit_canonical_witness: "fst (commit demo_env demo_written) = fst (commit demo_env demo_detour)"
  by (rule commit_canonical [OF demo_codec demo_run(2) demo_run(3) prod.collapse [symmetric] prod.collapse [symmetric]])
    (simp_all add: demo_commit, simp_all add: demo_committed_def demo_store_def demo_written_def demo_detour_def page_cid_def demo_start_def fun_eq_iff)

theorem read_write_at_witness:
  "\<exists>p'. write_at demo_env [1, 2] 16383 demo_start = Some p' \<and> (\<forall>at len. at + len \<le> 2 ^ 32 * PAGE_SIZE \<longrightarrow> fst (read_at demo_env len at p')
    = map (\<lambda>i. if 16383 \<le> i \<and> i < 16385 then [1, 2] ! (i - 16383) else fst (read_at demo_env len at demo_start) ! (i - at)) [at..<at + len])"
  using read_write_at [of demo_start 16383 "[1, 2]" demo_env] by (simp add: all_local_def demo_start_def pager_create_def PAGE_SIZE_def)

theorem sparse_commit_unopenable_witness:
  "pager_open demo_env (pg_store (snd (commit demo_env (set_page_count 1 (pager_create demo_store))))) 35 None = Inl CorruptIndex"
proof -
  have "commit demo_env (set_page_count 1 (pager_create demo_store)) = (35, (pager_create demo_store)\<lparr>pg_store := demo_store\<lparr>os_root :=
      [(35, demo_root_enc \<lparr>ri_page_count = 1, ri_depth = 1, ri_root_cid = 0, ri_wrapped_dek = []\<rparr>)]\<rparr>, pg_page_count := 1, pg_depth := 1\<rparr>)"
    unfolding commit_def set_page_count_def by (simp add: demo_eval pager_create_def demo_store_def)
  from sparse_commit_unopenable [OF demo_codec _ _ this] this show ?thesis by (simp add: demo_store_def os_get_def bt_get_def pager_create_def)
qed

theorem lazy_read_unverified_witness:
  "fst (read_page demo_env 0 (demo_start\<lparr>pg_pages := [(0, 5)], pg_remote := Some (\<lambda>c. Some [1])\<rparr>)) = pad [1] \<and> pe_hash demo_env [1] \<noteq> 5"
  using lazy_read_unverified [of "demo_start\<lparr>pg_pages := [(0, 5)], pg_remote := Some (\<lambda>c. Some [1])\<rparr>" 0 5 _ "[1]" demo_env]
  by (auto simp: demo_start_def pager_create_def demo_store_def os_get_def bt_get_def demo_env_def)

end
