(* ===== verification/Spec2Isabelle.thy ===== *)
theory Spec2Isabelle
  imports Vtags Ledger Settlement Cheque Governance DHT_Node HLC Transition Membership_Views Pager_History
begin

text \<open>
  A verification development for zephcraft, a peer-to-peer node that stores erasure-coded content, runs WASM programs that other
  nodes can re-execute, keeps databases of content-addressed pages, and pays providers for the bytes they serve.

  \<^bold>\<open>The program and its parts.\<close> Content is coded into pieces that any holder can recode (\<open>src/crates/erasure\<close>) and is encrypted
  for an owner who may grant reading to others (\<open>src/crates/cipher\<close>). Nodes know each other by gossiped membership
  (\<open>src/crates/membership\<close>) and find records in a Kademlia table (\<open>src/crates/dht\<close>); they speak framed messages
  (\<open>src/crates/wire\<close>) stamped by a hybrid clock (\<open>src/crates/core/src/hlc.rs\<close>). Programs run under capability grants, their results
  are certified by independent re-runs, and policy, statements and account histories are ordered by k-of-n quorums
  (\<open>src/crates/com\<close>). The token program (\<open>src/crates/token\<close>) folds an account's ordered writes into a balance; consumers sign cheques
  for what they fetched (\<open>src/crates/cheque\<close>); the epoch close (\<open>src/crates/noded/src/settlement.rs\<close>) turns payments and cheques
  into a reward record (\<open>src/crates/reward\<close>, \<open>src/crates/economy-egress\<close>) whose shares providers claim. CraftSQL
  (\<open>src/crates/sql\<close>) keeps the pages of a database as objects under an index tree.

  \<^bold>\<open>How code is modelled.\<close> A struct is a record, an enum a datatype, a \<open>u8\<close> to \<open>u128\<close> a word of that width, a 32-byte id or hash
  a 256-bit word; \<open>saturating_\<close> and \<open>checked_\<close> operations are the functions \<open>sat_add\<close>, \<open>checked_add\<close> and the like of
  \<open>Zeph_Prelude\<close>. Maps are sorted association lists (\<open>BTree_Map\<close>); for a \<open>HashMap\<close> nothing modelled depends on the order. A
  method that changes its object returns the changed record; \<open>Result\<close> is a sum or an option, and a panic (an arithmetic overflow, a
  failed assertion) is an outer \<open>None\<close>. Loops are recursive functions with a termination proof, except the two resampling
  loops of the erasure code, which may not end and are partial functions with the random generator as a parameter. The only fuel is that of the
  code itself, which a guest of the program host consumes. Hashes, signatures, the AEAD and proxy re-encryption libraries, postcard, the
  network, the clock readings and the random numbers are parameters; what a theorem needs of them (a signature scheme that accepts its own
  signatures, a serialisation that round-trips, no collision among the values in play) is a named hypothesis, and its witness
  instantiates it.

  \<^bold>\<open>The theories.\<close>
  \<^item> \<open>Zeph_Prelude\<close>, \<open>BTree_Map\<close>, \<open>Latest_Wins\<close>: machine integers and byte strings; the ordered map and its locale \<open>keyed_map\<close>; the
    locales \<open>max_register\<close> and \<open>latest_wins\<close> of replicated stores that keep the highest rank per key, interpreted by the cheque book,
    the head registry, the record store, the fetch loop of the hash table and the member map.
  \<^item> \<open>GF256\<close> (\<open>erasure/src/gf.rs\<close>), \<open>Erasure\<close> (\<open>erasure/src/lib.rs\<close>), \<open>Vtags\<close> (\<open>erasure/src/vtags.rs\<close>): the tables are the field
    GF(2^8); the decoder returns the sources exactly when the pieces fed span them; a piece is accepted exactly when it is innovative; the
    tags accept every encoded or recoded piece.
  \<^item> \<open>Quorum\<close> (\<open>com/src/attestation.rs\<close>), \<open>Governance\<close> (\<open>com/src/gov.rs\<close>), with the locale \<open>approval_chain\<close> of both chains:
    statements are authorized exactly when signed by the quorum in force at their place; governance chains do not fork when the governor
    sets are intersection sized; the registries derived from a chain hold the last value set.
  \<^item> \<open>Registry\<close> (\<open>com/src/registry.rs\<close>): the sorted vector refines a map, and merging converges.
  \<^item> \<open>Sequencer\<close> (\<open>com/src/sequencer.rs\<close>, \<open>noded/src/sequence.rs\<close>): no fork of an account's sequence, no equivocation by a
    member, committed payloads stay.
  \<^item> \<open>Token\<close> (\<open>token/src/lib.rs\<close>), \<open>Ledger\<close> (\<open>noded/src/ledger.rs\<close>): conservation of the pool over every operation of the protocol state;
    the sum of all balances, when every transfer is effective.
  \<^item> \<open>Reward\<close> (\<open>reward/src/lib.rs\<close>), \<open>Subscription\<close> (\<open>economy-egress/src/subscription.rs\<close>), \<open>Epoch_Committee\<close>
    (\<open>noded/src/epoch.rs\<close>, \<open>epoch_committee.rs\<close>, \<open>quorum_source.rs\<close>), \<open>Settlement\<close> (\<open>noded/src/settlement.rs\<close>), \<open>Cheque\<close>
    (\<open>cheque/src/lib.rs\<close>, \<open>noded/src/cheque.rs\<close>): proportional shares with a bounded loss and a record that does not depend on the
    order of its input; exact draws on an entitlement; what is owed is backed by the pool up to the claims pending; the bytes
    rewarded are within what consumers are entitled to; a restart recovers the committed position; the cheques emitted acknowledge what was
    fetched, and the book of the provider converges to them.
  \<^item> \<open>DHT_Record\<close>, \<open>DHT_Table\<close>, \<open>DHT_Node\<close> (\<open>dht/src\<close>): lookups and fetches end for every network, with a shortlist closed under
    what its members name, and the newest records these hold.
  \<^item> \<open>HLC\<close> (\<open>core/src/hlc.rs\<close>), \<open>Wire\<close> (\<open>wire/src/lib.rs\<close>): strictly increasing timestamps that peers cannot drag ahead; frames
    decode to what was encoded.
  \<^item> \<open>Transition\<close> (\<open>com/src/transition.rs\<close>, \<open>capability.rs\<close>, \<open>lib.rs\<close>), \<open>Verify_Board\<close> (\<open>com/src/verification.rs\<close>): host calls stay in
    the guest's buffer; a re-run is deterministic; a certificate with an honest verdict in it is right, and a true claim is certified.
  \<^item> \<open>Membership\<close>, \<open>Membership_Laws\<close>, \<open>Membership_Views\<close> (\<open>membership/src/lib.rs\<close>): the member map converges, a live node refutes its
    death, digests agree exactly with the maps, the views keep their bounds through every run.
  \<^item> \<open>Cipher\<close> (\<open>cipher/src/lib.rs\<close>): owners and grantees read what was encrypted.
  \<^item> \<open>Pager\<close>, \<open>Pager_Laws\<close>, \<open>Pager_Open\<close>, \<open>Pager_History\<close> (\<open>sql/src/store.rs\<close>, \<open>sql/src/pager.rs\<close>): a database is an array of
    bytes, a root depends on its pages alone, and every committed root stays readable.

  \<^bold>\<open>What the code does not do.\<close> Some lemmas show behaviour that a comment or the purpose of the code rules out: a claim pending at
  an epoch close is promised a second time (\<open>claims_redistributed\<close>); issuance follows the pool and not the epoch
  (\<open>issued_ignores_epoch\<close>); an overdrawn transfer can be claimed (\<open>overdraft_transfer_is_claimable\<close>) and a rejected payment counts as
  paid (\<open>rejected_pay_counts_as_paid\<close>); signatures of a member of two programs carry over (\<open>cross_program_double_sign\<close>); an unsigned
  verdict revokes a certificate, and the sum of earned bytes can panic (among the properties of \<open>Verify_Board\<close> and \<open>Cheque\<close>); a root that
  counts pages and has none does not open (\<open>sparse_commit_unopenable\<close>); an all-zero piece passes the tags and stalls recoding
  (\<open>zero_piece_stalls_recode\<close>).

  \<^bold>\<open>Bounds.\<close> Hypotheses such as lists shorter than \<open>2 ^ 64\<close>, wall-clock readings below \<open>2 ^ 46\<close> milliseconds or totals that fit
  64 bits are limits of the representation that a running node does not reach; where the code would wrap, saturate or panic beyond
  them, the definitions do too.

  \<^bold>\<open>Not modelled.\<close> The asynchronous engines and services around these components: the object engine and the piece store
  (\<open>src/crates/obj\<close>, \<open>src/crates/store\<close>), the transport, the routing over the hash table, the SQLite VFS, the database handle and page
  transfer of CraftSQL, key files, the event bus and the scheduler, the node's registry, governance, settlement and repair services, the
  daemon and its control interface. They are sockets, files, timers, locks and SQL around the operations modelled here. Concurrency within a node is not
  modelled: each operation is atomic, as it is under its lock in the code. The persistence of a component is modelled where its format is
  part of the component (the record store's snapshot, the pager's objects), not the file access.
\<close>

end
